(* ===== verification/Prelude.thy ===== *)
theory Prelude
  imports Main "HOL-Library.Word" "HOL-Library.Monad_Syntax"
begin

unbundle bit_operations_syntax

text \<open>
  Shared material: names for the machine integers of the C and C++ sources, the memory
  image of a 16-bit and a 32-bit integer on the little-endian hosts the library is built
  for, the byte-order functions of the C library (\<^verbatim>\<open>htons\<close>, \<^verbatim>\<open>htonl\<close>
  and their inverses), and generic lemmas on lists, option-valued computations and words
  that the component theories use. The collection \<open>bytes\<close> holds the rules that
  evaluate and invert byte images, \<open>slices\<close> the rules that move between index
  ranges and lists.
\<close>

named_theorems bytes \<open>memory images of integers and their inverses\<close>
named_theorems slices \<open>index ranges, take, drop and concatenation\<close>

type_synonym u8 = "8 word"
type_synonym u16 = "16 word"
type_synonym u32 = "32 word"
type_synonym u64 = "64 word"
type_synonym bytes = "8 word list"

section \<open>Memory images and byte order\<close>

definition le16 :: "u16 \<Rightarrow> bytes" where
  "le16 w = [ucast w, ucast (drop_bit 8 w)]"

definition le32 :: "u32 \<Rightarrow> bytes" where
  "le32 w = [ucast w, ucast (drop_bit 8 w), ucast (drop_bit 16 w), ucast (drop_bit 24 w)]"

fun of_le16 :: "bytes \<Rightarrow> u16" where
  "of_le16 [a, b] = ucast a OR push_bit 8 (ucast b)"
| "of_le16 _ = 0"

fun of_le32 :: "bytes \<Rightarrow> u32" where
  "of_le32 [a, b, c, d] =
     ucast a OR push_bit 8 (ucast b) OR push_bit 16 (ucast c) OR push_bit 24 (ucast d)"
| "of_le32 _ = 0"

text \<open>The byte swap of a little-endian host: the bytes of the memory image reversed.\<close>

definition htons :: "u16 \<Rightarrow> u16" where
  "htons w = of_le16 (rev (le16 w))"

definition htonl :: "u32 \<Rightarrow> u32" where
  "htonl w = of_le32 (rev (le32 w))"

abbreviation ntohs :: "u16 \<Rightarrow> u16" where
  "ntohs \<equiv> htons"

abbreviation ntohl :: "u32 \<Rightarrow> u32" where
  "ntohl \<equiv> htonl"

lemma length_le16 [simp]: "length (le16 w) = 2"
  by (simp add: le16_def)

lemma length_le32 [simp]: "length (le32 w) = 4"
  by (simp add: le32_def)

lemma of_le16_le16 [bytes, simp]: "of_le16 (le16 w) = w"
  unfolding le16_def of_le16.simps by (rule bit_word_eqI) (auto simp: bit_simps)

lemma of_le32_le32 [bytes, simp]: "of_le32 (le32 w) = w"
  unfolding le32_def of_le32.simps
proof (rule bit_word_eqI)
  fix n :: nat
  assume "n < LENGTH(32)"
  then consider "n < 8" | "8 \<le> n" "n < 16" | "16 \<le> n" "n < 24" | "24 \<le> n" "n < 32"
    by fastforce
  then show "bit (ucast (ucast w :: u8) OR push_bit 8 (ucast (ucast (drop_bit 8 w) :: u8))
      OR push_bit 16 (ucast (ucast (drop_bit 16 w) :: u8))
      OR push_bit 24 (ucast (ucast (drop_bit 24 w) :: u8)) :: u32) n = bit w n"
    by cases (auto simp: bit_simps)
qed

lemma le16_of_le16 [bytes]: "le16 (of_le16 [a, b]) = [a, b]"
  unfolding le16_def of_le16.simps
  by (intro conjI list.inject [THEN iffD2] refl; rule bit_word_eqI; auto simp: bit_simps dest: bit_imp_le_length)

lemma le32_of_le32 [bytes]: "le32 (of_le32 [a, b, c, d]) = [a, b, c, d]"
  unfolding le32_def of_le32.simps
  by (intro conjI list.inject [THEN iffD2] refl; rule bit_word_eqI; auto simp: bit_simps dest: bit_imp_le_length)

text \<open>Network order is big-endian: the most significant byte comes first in memory.\<close>

lemma le16_htons: "le16 (htons w) = [ucast (drop_bit 8 w), ucast w]"
proof -
  have "rev (le16 w) = [ucast (drop_bit 8 w), ucast w]" by (simp add: le16_def)
  then show ?thesis by (simp only: htons_def le16_of_le16)
qed

lemma le32_htonl:
  "le32 (htonl w) = [ucast (drop_bit 24 w), ucast (drop_bit 16 w), ucast (drop_bit 8 w), ucast w]"
proof -
  have "rev (le32 w) =
      [ucast (drop_bit 24 w), ucast (drop_bit 16 w), ucast (drop_bit 8 w), ucast w]"
    by (simp add: le32_def)
  then show ?thesis by (simp only: htonl_def le32_of_le32)
qed

lemma htons_htons [bytes, simp]: "htons (htons w) = w"
proof -
  have "rev (le16 (htons w)) = le16 w" by (simp add: le16_htons le16_def [of w])
  then show ?thesis by (simp only: htons_def [of "htons w"] of_le16_le16)
qed

lemma htonl_htonl [bytes, simp]: "htonl (htonl w) = w"
proof -
  have "rev (le32 (htonl w)) = le32 w" by (simp add: le32_htonl le32_def [of w])
  then show ?thesis by (simp only: htonl_def [of "htonl w"] of_le32_le32)
qed

section \<open>Lists and index ranges\<close>

lemma map_upt_shift [slices]: "map f [a + n ..< b + n] = map (\<lambda>i. f (i + n)) [a ..< b]"
  by (rule nth_equalityI) (auto simp: ac_simps)

lemma map_upt_split [slices]:
  "a \<le> b \<Longrightarrow> b \<le> c \<Longrightarrow> map f [a ..< c] = map f [a ..< b] @ map f [b ..< c]"
  by (metis map_append upt_add_eq_append le_add_diff_inverse)

lemma map_nth_range [slices]:
  "map (\<lambda>i. xs ! (i - a)) [a ..< a + length xs] = xs"
  by (rule nth_equalityI) auto

lemma concat_map_append_length [simp]:
  "length (concat (map f (xs @ [x]))) = length (concat (map f xs)) + length (f x)"
  by simp

lemma take_drop_split [slices]: "n \<le> m \<Longrightarrow> take n xs @ take (m - n) (drop n xs) = take m xs"
  by (metis le_add_diff_inverse take_add)

lemma drop_Suc_nth [slices]: "i < length xs \<Longrightarrow> drop i xs = xs ! i # drop (Suc i) xs"
  by (rule Cons_nth_drop_Suc [symmetric])

text \<open>The decimal digits of a number, as the output operators of the standard library print it.\<close>

fun dec :: "nat \<Rightarrow> string" where
  "dec n = (if n < 10 then [char_of (48 + n)] else dec (n div 10) @ [char_of (48 + n mod 10)])"

declare dec.simps [simp del]

section \<open>Option-valued computations\<close>

lemma bind_Some_iff [simp]:
  "Option.bind m f = Some y \<longleftrightarrow> (\<exists>x. m = Some x \<and> f x = Some y)"
  by (cases m) auto

section \<open>Words\<close>

lemma unat_and_mask: "unat (w AND mask n :: 'a::len word) = unat w mod 2 ^ n"
proof -
  have "unat (w AND mask n) = take_bit n (unat w)"
    by (simp only: take_bit_eq_mask [symmetric] unsigned_take_bit_eq)
  then show ?thesis by (simp add: take_bit_eq_mod)
qed

lemma unat_add_small:
  "unat a + unat b < 2 ^ LENGTH('a) \<Longrightarrow> unat (a + b) = unat a + unat b" for a b :: "'a::len word"
  by (simp add: unat_word_ariths)

lemma take_upt_diff: "m \<le> n - i \<Longrightarrow> take m [i ..< n] = [i ..< i + m]"
  by (cases "i \<le> n") (simp_all add: take_upt)

end
