(* ===== verification/HttpTypes.thy ===== *)
theory HttpTypes
  imports Prelude
begin

text \<open>
  The data of the HTTP parser in \<^verbatim>\<open>src/protocol/http/http_parser.{h,c}\<close>: methods, error
  numbers, flags, the two enumerations of states, the character tables and the character
  classes, in strict mode (the default of the header, \<^verbatim>\<open>HTTP_PARSER_STRICT\<close> is 1). A C
  \<^verbatim>\<open>char\<close> is a HOL \<^typ>\<open>char\<close>; \<open>code\<close> is its value as an \<^verbatim>\<open>unsigned char\<close>.
\<close>

section \<open>Enumerations\<close>

datatype (plugins only: code size) http_method =
    HTTP_DELETE | HTTP_GET | HTTP_HEAD | HTTP_POST | HTTP_PUT | HTTP_CONNECT | HTTP_OPTIONS
     | HTTP_TRACE | HTTP_COPY | HTTP_LOCK | HTTP_MKCOL | HTTP_MOVE | HTTP_PROPFIND | HTTP_PROPPATCH
     | HTTP_SEARCH | HTTP_UNLOCK | HTTP_BIND | HTTP_REBIND | HTTP_UNBIND | HTTP_ACL | HTTP_REPORT
     | HTTP_MKACTIVITY | HTTP_CHECKOUT | HTTP_MERGE | HTTP_MSEARCH | HTTP_NOTIFY | HTTP_SUBSCRIBE
     | HTTP_UNSUBSCRIBE | HTTP_PATCH | HTTP_PURGE | HTTP_MKCALENDAR | HTTP_LINK | HTTP_UNLINK
     | HTTP_SOURCE

datatype http_parser_type = HTTP_REQUEST | HTTP_RESPONSE | HTTP_BOTH

datatype (plugins only: code size) http_errno =
    HPE_OK | HPE_CB_message_begin | HPE_CB_url | HPE_CB_header_field | HPE_CB_header_value
     | HPE_CB_headers_complete | HPE_CB_body | HPE_CB_message_complete | HPE_CB_status
     | HPE_CB_chunk_header | HPE_CB_chunk_complete | HPE_INVALID_EOF_STATE | HPE_HEADER_OVERFLOW
     | HPE_CLOSED_CONNECTION | HPE_INVALID_VERSION | HPE_INVALID_STATUS | HPE_INVALID_METHOD
     | HPE_INVALID_URL | HPE_INVALID_HOST | HPE_INVALID_PORT | HPE_INVALID_PATH
     | HPE_INVALID_QUERY_STRING | HPE_INVALID_FRAGMENT | HPE_LF_EXPECTED | HPE_INVALID_HEADER_TOKEN
     | HPE_INVALID_CONTENT_LENGTH | HPE_UNEXPECTED_CONTENT_LENGTH | HPE_INVALID_CHUNK_SIZE
     | HPE_INVALID_CONSTANT | HPE_INVALID_INTERNAL_STATE | HPE_STRICT | HPE_PAUSED | HPE_UNKNOWN

datatype (plugins only: code size) state =
    s_dead | s_start_req_or_res | s_res_or_resp_H | s_start_res | s_res_H | s_res_HT | s_res_HTT
     | s_res_HTTP | s_res_http_major | s_res_http_dot | s_res_http_minor | s_res_http_end
     | s_res_first_status_code | s_res_status_code | s_res_status_start | s_res_status
     | s_res_line_almost_done | s_start_req | s_req_method | s_req_spaces_before_url | s_req_schema
     | s_req_schema_slash | s_req_schema_slash_slash | s_req_server_start | s_req_server
     | s_req_server_with_at | s_req_path | s_req_query_string_start | s_req_query_string
     | s_req_fragment_start | s_req_fragment | s_req_http_start | s_req_http_H | s_req_http_HT
     | s_req_http_HTT | s_req_http_HTTP | s_req_http_major | s_req_http_dot | s_req_http_minor
     | s_req_http_end | s_req_line_almost_done | s_header_field_start | s_header_field
     | s_header_value_discard_ws | s_header_value_discard_ws_almost_done
     | s_header_value_discard_lws | s_header_value_start | s_header_value | s_header_value_lws
     | s_header_almost_done | s_chunk_size_start | s_chunk_size | s_chunk_parameters
     | s_chunk_size_almost_done | s_headers_almost_done | s_headers_done | s_chunk_data
     | s_chunk_data_almost_done | s_chunk_data_done | s_body_identity | s_body_identity_eof
     | s_message_done

datatype (plugins only: code size) header_states =
    h_general | h_C | h_CO | h_CON | h_matching_connection | h_matching_proxy_connection
     | h_matching_content_length | h_matching_transfer_encoding | h_matching_upgrade | h_connection
     | h_content_length | h_content_length_num | h_content_length_ws | h_transfer_encoding
     | h_upgrade | h_matching_transfer_encoding_chunked | h_matching_connection_token_start
     | h_matching_connection_keep_alive | h_matching_connection_close
     | h_matching_connection_upgrade | h_matching_connection_token | h_transfer_encoding_chunked
     | h_connection_keep_alive | h_connection_close | h_connection_upgrade

definition http_method_str :: "http_method \<Rightarrow> string" where
  "http_method_str x =
     (case x of
        HTTP_DELETE \<Rightarrow> ''DELETE''
      | HTTP_GET \<Rightarrow> ''GET''
      | HTTP_HEAD \<Rightarrow> ''HEAD''
      | HTTP_POST \<Rightarrow> ''POST''
      | HTTP_PUT \<Rightarrow> ''PUT''
      | HTTP_CONNECT \<Rightarrow> ''CONNECT''
      | HTTP_OPTIONS \<Rightarrow> ''OPTIONS''
      | HTTP_TRACE \<Rightarrow> ''TRACE''
      | HTTP_COPY \<Rightarrow> ''COPY''
      | HTTP_LOCK \<Rightarrow> ''LOCK''
      | HTTP_MKCOL \<Rightarrow> ''MKCOL''
      | HTTP_MOVE \<Rightarrow> ''MOVE''
      | HTTP_PROPFIND \<Rightarrow> ''PROPFIND''
      | HTTP_PROPPATCH \<Rightarrow> ''PROPPATCH''
      | HTTP_SEARCH \<Rightarrow> ''SEARCH''
      | HTTP_UNLOCK \<Rightarrow> ''UNLOCK''
      | HTTP_BIND \<Rightarrow> ''BIND''
      | HTTP_REBIND \<Rightarrow> ''REBIND''
      | HTTP_UNBIND \<Rightarrow> ''UNBIND''
      | HTTP_ACL \<Rightarrow> ''ACL''
      | HTTP_REPORT \<Rightarrow> ''REPORT''
      | HTTP_MKACTIVITY \<Rightarrow> ''MKACTIVITY''
      | HTTP_CHECKOUT \<Rightarrow> ''CHECKOUT''
      | HTTP_MERGE \<Rightarrow> ''MERGE''
      | HTTP_MSEARCH \<Rightarrow> ''M-SEARCH''
      | HTTP_NOTIFY \<Rightarrow> ''NOTIFY''
      | HTTP_SUBSCRIBE \<Rightarrow> ''SUBSCRIBE''
      | HTTP_UNSUBSCRIBE \<Rightarrow> ''UNSUBSCRIBE''
      | HTTP_PATCH \<Rightarrow> ''PATCH''
      | HTTP_PURGE \<Rightarrow> ''PURGE''
      | HTTP_MKCALENDAR \<Rightarrow> ''MKCALENDAR''
      | HTTP_LINK \<Rightarrow> ''LINK''
      | HTTP_UNLINK \<Rightarrow> ''UNLINK''
      | HTTP_SOURCE \<Rightarrow> ''SOURCE'')"

definition http_errno_name :: "http_errno \<Rightarrow> string" where
  "http_errno_name x =
     (case x of
        HPE_OK \<Rightarrow> ''HPE_OK''
      | HPE_CB_message_begin \<Rightarrow> ''HPE_CB_message_begin''
      | HPE_CB_url \<Rightarrow> ''HPE_CB_url''
      | HPE_CB_header_field \<Rightarrow> ''HPE_CB_header_field''
      | HPE_CB_header_value \<Rightarrow> ''HPE_CB_header_value''
      | HPE_CB_headers_complete \<Rightarrow> ''HPE_CB_headers_complete''
      | HPE_CB_body \<Rightarrow> ''HPE_CB_body''
      | HPE_CB_message_complete \<Rightarrow> ''HPE_CB_message_complete''
      | HPE_CB_status \<Rightarrow> ''HPE_CB_status''
      | HPE_CB_chunk_header \<Rightarrow> ''HPE_CB_chunk_header''
      | HPE_CB_chunk_complete \<Rightarrow> ''HPE_CB_chunk_complete''
      | HPE_INVALID_EOF_STATE \<Rightarrow> ''HPE_INVALID_EOF_STATE''
      | HPE_HEADER_OVERFLOW \<Rightarrow> ''HPE_HEADER_OVERFLOW''
      | HPE_CLOSED_CONNECTION \<Rightarrow> ''HPE_CLOSED_CONNECTION''
      | HPE_INVALID_VERSION \<Rightarrow> ''HPE_INVALID_VERSION''
      | HPE_INVALID_STATUS \<Rightarrow> ''HPE_INVALID_STATUS''
      | HPE_INVALID_METHOD \<Rightarrow> ''HPE_INVALID_METHOD''
      | HPE_INVALID_URL \<Rightarrow> ''HPE_INVALID_URL''
      | HPE_INVALID_HOST \<Rightarrow> ''HPE_INVALID_HOST''
      | HPE_INVALID_PORT \<Rightarrow> ''HPE_INVALID_PORT''
      | HPE_INVALID_PATH \<Rightarrow> ''HPE_INVALID_PATH''
      | HPE_INVALID_QUERY_STRING \<Rightarrow> ''HPE_INVALID_QUERY_STRING''
      | HPE_INVALID_FRAGMENT \<Rightarrow> ''HPE_INVALID_FRAGMENT''
      | HPE_LF_EXPECTED \<Rightarrow> ''HPE_LF_EXPECTED''
      | HPE_INVALID_HEADER_TOKEN \<Rightarrow> ''HPE_INVALID_HEADER_TOKEN''
      | HPE_INVALID_CONTENT_LENGTH \<Rightarrow> ''HPE_INVALID_CONTENT_LENGTH''
      | HPE_UNEXPECTED_CONTENT_LENGTH \<Rightarrow> ''HPE_UNEXPECTED_CONTENT_LENGTH''
      | HPE_INVALID_CHUNK_SIZE \<Rightarrow> ''HPE_INVALID_CHUNK_SIZE''
      | HPE_INVALID_CONSTANT \<Rightarrow> ''HPE_INVALID_CONSTANT''
      | HPE_INVALID_INTERNAL_STATE \<Rightarrow> ''HPE_INVALID_INTERNAL_STATE''
      | HPE_STRICT \<Rightarrow> ''HPE_STRICT''
      | HPE_PAUSED \<Rightarrow> ''HPE_PAUSED''
      | HPE_UNKNOWN \<Rightarrow> ''HPE_UNKNOWN'')"

definition http_errno_description :: "http_errno \<Rightarrow> string" where
  "http_errno_description x =
     (case x of
        HPE_OK \<Rightarrow> ''success''
      | HPE_CB_message_begin \<Rightarrow> ''the on_message_begin callback failed''
      | HPE_CB_url \<Rightarrow> ''the on_url callback failed''
      | HPE_CB_header_field \<Rightarrow> ''the on_header_field callback failed''
      | HPE_CB_header_value \<Rightarrow> ''the on_header_value callback failed''
      | HPE_CB_headers_complete \<Rightarrow> ''the on_headers_complete callback failed''
      | HPE_CB_body \<Rightarrow> ''the on_body callback failed''
      | HPE_CB_message_complete \<Rightarrow> ''the on_message_complete callback failed''
      | HPE_CB_status \<Rightarrow> ''the on_status callback failed''
      | HPE_CB_chunk_header \<Rightarrow> ''the on_chunk_header callback failed''
      | HPE_CB_chunk_complete \<Rightarrow> ''the on_chunk_complete callback failed''
      | HPE_INVALID_EOF_STATE \<Rightarrow> ''stream ended at an unexpected time''
      | HPE_HEADER_OVERFLOW \<Rightarrow> ''too many header bytes seen; overflow detected''
      | HPE_CLOSED_CONNECTION \<Rightarrow> ''data received after completed connection: close message''
      | HPE_INVALID_VERSION \<Rightarrow> ''invalid HTTP version''
      | HPE_INVALID_STATUS \<Rightarrow> ''invalid HTTP status code''
      | HPE_INVALID_METHOD \<Rightarrow> ''invalid HTTP method''
      | HPE_INVALID_URL \<Rightarrow> ''invalid URL''
      | HPE_INVALID_HOST \<Rightarrow> ''invalid host''
      | HPE_INVALID_PORT \<Rightarrow> ''invalid port''
      | HPE_INVALID_PATH \<Rightarrow> ''invalid path''
      | HPE_INVALID_QUERY_STRING \<Rightarrow> ''invalid query string''
      | HPE_INVALID_FRAGMENT \<Rightarrow> ''invalid fragment''
      | HPE_LF_EXPECTED \<Rightarrow> ''LF character expected''
      | HPE_INVALID_HEADER_TOKEN \<Rightarrow> ''invalid character in header''
      | HPE_INVALID_CONTENT_LENGTH \<Rightarrow> ''invalid character in content-length header''
      | HPE_UNEXPECTED_CONTENT_LENGTH \<Rightarrow> ''unexpected content-length header''
      | HPE_INVALID_CHUNK_SIZE \<Rightarrow> ''invalid character in chunk size header''
      | HPE_INVALID_CONSTANT \<Rightarrow> ''invalid constant string''
      | HPE_INVALID_INTERNAL_STATE \<Rightarrow> ''encountered unexpected internal state''
      | HPE_STRICT \<Rightarrow> ''strict mode assertion failed''
      | HPE_PAUSED \<Rightarrow> ''parser is paused''
      | HPE_UNKNOWN \<Rightarrow> ''an unknown error occurred'')"

text \<open>The flags are bits of an eight-bit field; a flag is named by the position of its bit.\<close>

abbreviation (input) F_CHUNKED :: nat where "F_CHUNKED \<equiv> 0"
abbreviation (input) F_CONNECTION_KEEP_ALIVE :: nat where "F_CONNECTION_KEEP_ALIVE \<equiv> 1"
abbreviation (input) F_CONNECTION_CLOSE :: nat where "F_CONNECTION_CLOSE \<equiv> 2"
abbreviation (input) F_CONNECTION_UPGRADE :: nat where "F_CONNECTION_UPGRADE \<equiv> 3"
abbreviation (input) F_TRAILING :: nat where "F_TRAILING \<equiv> 4"
abbreviation (input) F_UPGRADE :: nat where "F_UPGRADE \<equiv> 5"
abbreviation (input) F_SKIPBODY :: nat where "F_SKIPBODY \<equiv> 6"
abbreviation (input) F_CONTENTLENGTH :: nat where "F_CONTENTLENGTH \<equiv> 7"

text \<open>\<open>state \<le> s_headers_done\<close> in the order of the enumeration: the states after it are the body states.\<close>

definition PARSING_HEADER :: "state \<Rightarrow> bool" where
  "PARSING_HEADER s =
     (case s of s_chunk_data \<Rightarrow> False | s_chunk_data_almost_done \<Rightarrow> False | s_chunk_data_done \<Rightarrow> False
      | s_body_identity \<Rightarrow> False | s_body_identity_eof \<Rightarrow> False | s_message_done \<Rightarrow> False | _ \<Rightarrow> True)"

section \<open>Character tables and classes\<close>

definition code :: "char \<Rightarrow> nat" where
  "code c = of_char c"

abbreviation nul :: char where "nul \<equiv> CHR 0x00"
abbreviation CR :: char where "CR \<equiv> CHR 0x0D"
abbreviation LF :: char where "LF \<equiv> CHR 0x0A"
abbreviation TAB :: char where "TAB \<equiv> CHR 0x09"
abbreviation FF :: char where "FF \<equiv> CHR 0x0C"
abbreviation SP :: char where "SP \<equiv> CHR '' ''"

text \<open>The rows of the table for the codes below 128; the initialiser leaves the rest zero.\<close>

definition tokens :: "char list" where
  "tokens = concat
    [replicate 8 nul,
     replicate 8 nul,
     replicate 8 nul,
     replicate 8 nul,
     nul # ''!'' @ nul # ''#$%&'' @ [CHR 0x27],
     nul # nul # ''*+'' @ nul # ''-.'' @ [nul],
     ''01234567'',
     ''89'' @ replicate 6 nul,
     nul # ''abcdefg'',
     ''hijklmno'',
     ''pqrstuvw'',
     ''xyz'' @ replicate 3 nul @ ''^_'',
     CHR 0x60 # ''abcdefg'',
     ''hijklmno'',
     ''pqrstuvw'',
     ''xyz'' @ nul # ''|'' @ nul # ''~'' @ [nul]] @ replicate 128 nul"

definition unhex :: "int list" where
  "unhex =
    [-1, -1, -1, -1, -1, -1, -1, -1, -1, -1, -1, -1, -1, -1, -1, -1,
     -1, -1, -1, -1, -1, -1, -1, -1, -1, -1, -1, -1, -1, -1, -1, -1,
     -1, -1, -1, -1, -1, -1, -1, -1, -1, -1, -1, -1, -1, -1, -1, -1,
     0, 1, 2, 3, 4, 5, 6, 7, 8, 9, -1, -1, -1, -1, -1, -1,
     -1, 10, 11, 12, 13, 14, 15, -1, -1, -1, -1, -1, -1, -1, -1, -1,
     -1, -1, -1, -1, -1, -1, -1, -1, -1, -1, -1, -1, -1, -1, -1, -1,
     -1, 10, 11, 12, 13, 14, 15, -1, -1, -1, -1, -1, -1, -1, -1, -1,
     -1, -1, -1, -1, -1, -1, -1, -1, -1, -1, -1, -1, -1, -1, -1, -1] @ replicate 128 0"

definition normal_url_char :: "u8 list" where
  "normal_url_char =
    [0 OR 0 OR 0 OR 0 OR 0 OR 0 OR 0 OR 0,
     0 OR 0 OR 0 OR 0 OR 0 OR 0 OR 0 OR 0,
     0 OR 0 OR 0 OR 0 OR 0 OR 0 OR 0 OR 0,
     0 OR 0 OR 0 OR 0 OR 0 OR 0 OR 0 OR 0,
     0 OR 2 OR 4 OR 0 OR 16 OR 32 OR 64 OR 128,
     1 OR 2 OR 4 OR 8 OR 16 OR 32 OR 64 OR 128,
     1 OR 2 OR 4 OR 8 OR 16 OR 32 OR 64 OR 128,
     1 OR 2 OR 4 OR 8 OR 16 OR 32 OR 64 OR 0,
     1 OR 2 OR 4 OR 8 OR 16 OR 32 OR 64 OR 128,
     1 OR 2 OR 4 OR 8 OR 16 OR 32 OR 64 OR 128,
     1 OR 2 OR 4 OR 8 OR 16 OR 32 OR 64 OR 128,
     1 OR 2 OR 4 OR 8 OR 16 OR 32 OR 64 OR 128,
     1 OR 2 OR 4 OR 8 OR 16 OR 32 OR 64 OR 128,
     1 OR 2 OR 4 OR 8 OR 16 OR 32 OR 64 OR 128,
     1 OR 2 OR 4 OR 8 OR 16 OR 32 OR 64 OR 128,
     1 OR 2 OR 4 OR 8 OR 16 OR 32 OR 64 OR 0] @ replicate 16 0"

definition BIT_AT :: "u8 list \<Rightarrow> nat \<Rightarrow> bool" where
  "BIT_AT a i = (a ! (i div 8) AND push_bit (i mod 8) 1 \<noteq> 0)"

definition LOWER :: "char \<Rightarrow> char" where
  "LOWER c = char_of (or (code c) 32)"

definition IS_ALPHA :: "char \<Rightarrow> bool" where
  "IS_ALPHA c \<longleftrightarrow> code CHR ''a'' \<le> code (LOWER c) \<and> code (LOWER c) \<le> code CHR ''z''"

definition IS_NUM :: "char \<Rightarrow> bool" where
  "IS_NUM c \<longleftrightarrow> code CHR ''0'' \<le> code c \<and> code c \<le> code CHR ''9''"

definition IS_ALPHANUM :: "char \<Rightarrow> bool" where
  "IS_ALPHANUM c \<longleftrightarrow> IS_ALPHA c \<or> IS_NUM c"

definition IS_HEX :: "char \<Rightarrow> bool" where
  "IS_HEX c \<longleftrightarrow> IS_NUM c \<or> (code CHR ''a'' \<le> code (LOWER c) \<and> code (LOWER c) \<le> code CHR ''f'')"

definition IS_MARK :: "char \<Rightarrow> bool" where
  "IS_MARK c \<longleftrightarrow> c \<in> {CHR ''-'', CHR ''_'', CHR ''.'', CHR ''!'', CHR ''~'', CHR ''*'', CHR 0x27, CHR ''('', CHR '')''}"

definition IS_USERINFO_CHAR :: "char \<Rightarrow> bool" where
  "IS_USERINFO_CHAR c \<longleftrightarrow> IS_ALPHANUM c \<or> IS_MARK c
     \<or> c \<in> {CHR ''%'', CHR '';'', CHR '':'', CHR ''&'', CHR ''='', CHR ''+'', CHR ''$'', CHR '',''}"

definition TOKEN :: "char \<Rightarrow> char" where
  "TOKEN c = tokens ! code c"

definition STRICT_TOKEN :: "char \<Rightarrow> char" where
  "STRICT_TOKEN c = tokens ! code c"

definition IS_URL_CHAR :: "char \<Rightarrow> bool" where
  "IS_URL_CHAR c \<longleftrightarrow> BIT_AT normal_url_char (code c)"

definition IS_HOST_CHAR :: "char \<Rightarrow> bool" where
  "IS_HOST_CHAR c \<longleftrightarrow> IS_ALPHANUM c \<or> c = CHR ''.'' \<or> c = CHR ''-''"

definition IS_HEADER_CHAR :: "char \<Rightarrow> bool" where
  "IS_HEADER_CHAR c \<longleftrightarrow> c = CR \<or> c = LF \<or> c = TAB \<or> (31 < code c \<and> code c \<noteq> 127)"

section \<open>The tables against their specification\<close>

text \<open>A token character of RFC 2616: no control, no separator.\<close>

definition separator :: "nat \<Rightarrow> bool" where
  "separator n \<longleftrightarrow> n \<in> {40, 41, 60, 62, 64, 44, 59, 58, 92, 34, 47, 91, 93, 63, 61, 123, 125, 32, 9}"

definition token_ref :: "nat \<Rightarrow> nat" where
  "token_ref n = (if n < 33 \<or> 126 < n \<or> separator n then 0 else if 65 \<le> n \<and> n \<le> 90 then n + 32 else n)"

definition hex_ref :: "nat \<Rightarrow> int" where
  "hex_ref n =
     (if 48 \<le> n \<and> n \<le> 57 then int n - 48 else if 65 \<le> n \<and> n \<le> 70 then int n - 55
      else if 97 \<le> n \<and> n \<le> 102 then int n - 87 else if n < 128 then -1 else 0)"

definition url_ref :: "nat \<Rightarrow> bool" where
  "url_ref n \<longleftrightarrow> 33 \<le> n \<and> n \<le> 126 \<and> n \<noteq> 35 \<and> n \<noteq> 63"

lemma replicate_upt: "replicate n x = map (\<lambda>_. x) [0..<n]"
  by (simp add: map_replicate_const)

lemma tokens_map: "map code tokens = map token_ref [0..<256]"
  by (simp add: tokens_def code_def token_ref_def separator_def upt_rec replicate_upt del: map_replicate_trivial)

lemma unhex_map: "unhex = map hex_ref [0..<256]"
  by (simp add: unhex_def hex_ref_def upt_rec replicate_upt del: map_replicate_trivial)

lemma url_map: "map (BIT_AT normal_url_char) [0..<256] = map url_ref [0..<256]"
  by (simp add: BIT_AT_def normal_url_char_def url_ref_def upt_rec replicate_upt push_bit_numeral del: map_replicate_trivial)

lemma table_nth: "map f [0..<256] ! code ch = f (code ch)"
  by (simp add: code_def)


text \<open>
  The token table of the parser gives every token character of RFC 2616 in lower case and 0 for every
  control, separator and byte from 0x7f on, and the bitmap of URL characters holds exactly the printable
  characters other than the hash sign and the question mark, which delimit the fragment and the query.
\<close>

theorem character_tables:
  "code (TOKEN ch) = token_ref (code ch) \<and> STRICT_TOKEN ch = TOKEN ch \<and> (IS_URL_CHAR ch \<longleftrightarrow> url_ref (code ch))"
proof -
  have "length tokens = 256" using arg_cong [OF tokens_map, of length] by simp
  then have "code (tokens ! code ch) = map code tokens ! code ch" by (simp add: code_def)
  then show ?thesis
    using arg_cong [OF url_map, of "\<lambda>xs. xs ! code ch"]
    by (simp add: TOKEN_def STRICT_TOKEN_def IS_URL_CHAR_def tokens_map table_nth)
qed

text \<open>
  C32. The table of hexadecimal digits gives the value of every hexadecimal digit and -1 for every other byte
  below 0x80. The bytes from 0x80 on, which the initialiser leaves out, get 0: the table takes them for the digit 0.
\<close>

theorem unhex_table: "unhex ! code ch = hex_ref (code ch)"
  by (simp add: unhex_map table_nth)

end
