(* ===== verification/HttpUrl.thy ===== *)
theory HttpUrl
  imports HttpTypes
begin

text \<open>
  URL parsing of \<^verbatim>\<open>src/protocol/http/http_parser.c\<close>: \<^verbatim>\<open>parse_url_char\<close>, the automaton shared with
  \<^verbatim>\<open>http_parser_execute\<close>, \<^verbatim>\<open>http_parse_host_char\<close>, \<^verbatim>\<open>http_parse_host\<close> and
  \<^verbatim>\<open>http_parser_parse_url\<close>. Offsets and lengths of the fields are the 16-bit values of the C
  struct. \<^term>\<open>None\<close> as the result of \<open>http_parser_parse_url\<close> is a failing assertion; a result
  carries the value returned, 0 or 1, and the struct as the call leaves it.
\<close>

section \<open>The automata\<close>

definition parse_url_char :: "state \<Rightarrow> char \<Rightarrow> state" where
  "parse_url_char s ch =
     (if ch = SP \<or> ch = CR \<or> ch = LF then s_dead
      else if ch = TAB \<or> ch = FF then s_dead
      else
        let at_server =
              (if ch = CHR ''/'' then s_req_path
               else if ch = CHR ''?'' then s_req_query_string_start
               else if ch = CHR ''@'' then s_req_server_with_at
               else if IS_USERINFO_CHAR ch \<or> ch = CHR ''['' \<or> ch = CHR '']'' then s_req_server
               else s_dead);
            at_query =
              (if IS_URL_CHAR ch then s_req_query_string
               else if ch = CHR ''?'' then s_req_query_string
               else if ch = CHR ''#'' then s_req_fragment_start
               else s_dead)
        in case s of
          s_req_spaces_before_url \<Rightarrow>
            (if ch = CHR ''/'' \<or> ch = CHR ''*'' then s_req_path
             else if IS_ALPHA ch then s_req_schema else s_dead)
        | s_req_schema \<Rightarrow>
            (if IS_ALPHA ch then s else if ch = CHR '':'' then s_req_schema_slash else s_dead)
        | s_req_schema_slash \<Rightarrow> (if ch = CHR ''/'' then s_req_schema_slash_slash else s_dead)
        | s_req_schema_slash_slash \<Rightarrow> (if ch = CHR ''/'' then s_req_server_start else s_dead)
        | s_req_server_with_at \<Rightarrow> (if ch = CHR ''@'' then s_dead else at_server)
        | s_req_server_start \<Rightarrow> at_server
        | s_req_server \<Rightarrow> at_server
        | s_req_path \<Rightarrow>
            (if IS_URL_CHAR ch then s
             else if ch = CHR ''?'' then s_req_query_string_start
             else if ch = CHR ''#'' then s_req_fragment_start
             else s_dead)
        | s_req_query_string_start \<Rightarrow> at_query
        | s_req_query_string \<Rightarrow> at_query
        | s_req_fragment_start \<Rightarrow>
            (if IS_URL_CHAR ch then s_req_fragment
             else if ch = CHR ''?'' then s_req_fragment
             else if ch = CHR ''#'' then s
             else s_dead)
        | s_req_fragment \<Rightarrow>
            (if IS_URL_CHAR ch then s else if ch = CHR ''?'' \<or> ch = CHR ''#'' then s else s_dead)
        | _ \<Rightarrow> s_dead)"

datatype http_host_state =
    s_http_host_dead | s_http_userinfo_start | s_http_userinfo | s_http_host_start | s_http_host_v6_start
  | s_http_host | s_http_host_v6 | s_http_host_v6_end | s_http_host_v6_zone_start | s_http_host_v6_zone
  | s_http_host_port_start | s_http_host_port

definition http_parse_host_char :: "http_host_state \<Rightarrow> char \<Rightarrow> http_host_state" where
  "http_parse_host_char s ch =
     (let at_userinfo =
            (if ch = CHR ''@'' then s_http_host_start
             else if IS_USERINFO_CHAR ch then s_http_userinfo else s_http_host_dead);
          at_v6_end = (if ch = CHR '':'' then s_http_host_port_start else s_http_host_dead);
          at_v6_start =
            (if IS_HEX ch \<or> ch = CHR '':'' \<or> ch = CHR ''.'' then s_http_host_v6
             else if s = s_http_host_v6 \<and> ch = CHR ''%'' then s_http_host_v6_zone_start
             else s_http_host_dead);
          at_zone_start =
            (if IS_ALPHANUM ch \<or> ch = CHR ''%'' \<or> ch = CHR ''.'' \<or> ch = CHR ''-'' \<or> ch = CHR ''_'' \<or> ch = CHR ''~''
             then s_http_host_v6_zone else s_http_host_dead);
          at_port = (if IS_NUM ch then s_http_host_port else s_http_host_dead)
      in case s of
        s_http_userinfo \<Rightarrow> at_userinfo
      | s_http_userinfo_start \<Rightarrow> at_userinfo
      | s_http_host_start \<Rightarrow>
          (if ch = CHR ''['' then s_http_host_v6_start
           else if IS_HOST_CHAR ch then s_http_host else s_http_host_dead)
      | s_http_host \<Rightarrow> (if IS_HOST_CHAR ch then s_http_host else at_v6_end)
      | s_http_host_v6_end \<Rightarrow> at_v6_end
      | s_http_host_v6 \<Rightarrow> (if ch = CHR '']'' then s_http_host_v6_end else at_v6_start)
      | s_http_host_v6_start \<Rightarrow> at_v6_start
      | s_http_host_v6_zone \<Rightarrow> (if ch = CHR '']'' then s_http_host_v6_end else at_zone_start)
      | s_http_host_v6_zone_start \<Rightarrow> at_zone_start
      | s_http_host_port \<Rightarrow> at_port
      | s_http_host_port_start \<Rightarrow> at_port
      | s_http_host_dead \<Rightarrow> s_http_host_dead)"

section \<open>The URL struct\<close>

datatype http_parser_url_fields =
  UF_SCHEMA | UF_HOST | UF_PORT | UF_PATH | UF_QUERY | UF_FRAGMENT | UF_USERINFO | UF_MAX

definition uf_num :: "http_parser_url_fields \<Rightarrow> nat" where
  "uf_num uf =
     (case uf of UF_SCHEMA \<Rightarrow> 0 | UF_HOST \<Rightarrow> 1 | UF_PORT \<Rightarrow> 2 | UF_PATH \<Rightarrow> 3 | UF_QUERY \<Rightarrow> 4
      | UF_FRAGMENT \<Rightarrow> 5 | UF_USERINFO \<Rightarrow> 6 | UF_MAX \<Rightarrow> 7)"

record http_parser_url =
  field_set :: u16
  port :: nat
  field_off :: "http_parser_url_fields \<Rightarrow> nat"
  field_len :: "http_parser_url_fields \<Rightarrow> nat"

definition http_parser_url_init :: http_parser_url where
  "http_parser_url_init = \<lparr>field_set = 0, port = 0, field_off = (\<lambda>_. 0), field_len = (\<lambda>_. 0)\<rparr>"

abbreviation has_field :: "http_parser_url_fields \<Rightarrow> http_parser_url \<Rightarrow> bool" where
  "has_field uf u \<equiv> bit (field_set u) (uf_num uf)"

definition set_field :: "http_parser_url_fields \<Rightarrow> http_parser_url \<Rightarrow> http_parser_url" where
  "set_field uf u = u\<lparr>field_set := field_set u OR push_bit (uf_num uf) 1\<rparr>"

definition set_off :: "http_parser_url_fields \<Rightarrow> nat \<Rightarrow> http_parser_url \<Rightarrow> http_parser_url" where
  "set_off uf n u = u\<lparr>field_off := (field_off u)(uf := n mod 2 ^ 16)\<rparr>"

definition set_len :: "http_parser_url_fields \<Rightarrow> nat \<Rightarrow> http_parser_url \<Rightarrow> http_parser_url" where
  "set_len uf n u = u\<lparr>field_len := (field_len u)(uf := n mod 2 ^ 16)\<rparr>"

definition incr_len :: "http_parser_url_fields \<Rightarrow> http_parser_url \<Rightarrow> http_parser_url" where
  "incr_len uf u = set_len uf (field_len u uf + 1) u"

section \<open>Parsing the host\<close>

text \<open>One round of the loop, at offset \<open>i\<close>, from state \<open>s\<close> to \<open>new_s\<close>.\<close>

definition host_field_step :: "nat \<Rightarrow> http_host_state \<Rightarrow> http_host_state \<Rightarrow> http_parser_url \<Rightarrow> http_parser_url" where
  "host_field_step i s new_s u =
     (case new_s of
        s_http_host \<Rightarrow> incr_len UF_HOST (if s \<noteq> s_http_host then set_off UF_HOST i u else u)
      | s_http_host_v6 \<Rightarrow> incr_len UF_HOST (if s \<noteq> s_http_host_v6 then set_off UF_HOST i u else u)
      | s_http_host_v6_zone_start \<Rightarrow> incr_len UF_HOST u
      | s_http_host_v6_zone \<Rightarrow> incr_len UF_HOST u
      | s_http_host_port \<Rightarrow>
          incr_len UF_PORT
            (if s \<noteq> s_http_host_port then set_field UF_PORT (set_len UF_PORT 0 (set_off UF_PORT i u)) else u)
      | s_http_userinfo \<Rightarrow>
          incr_len UF_USERINFO
            (if s \<noteq> s_http_userinfo then set_field UF_USERINFO (set_len UF_USERINFO 0 (set_off UF_USERINFO i u)) else u)
      | _ \<Rightarrow> u)"

fun http_parse_host_loop ::
  "string \<Rightarrow> nat \<Rightarrow> http_host_state \<Rightarrow> http_parser_url \<Rightarrow> bool \<times> http_host_state \<times> http_parser_url" where
  "http_parse_host_loop [] i s u = (True, s, u)"
| "http_parse_host_loop (ch # xs) i s u =
     (let new_s = http_parse_host_char s ch in
      if new_s = s_http_host_dead then (False, s, u)
      else http_parse_host_loop xs (Suc i) new_s (host_field_step i s new_s u))"

definition host_end_ok :: "http_host_state \<Rightarrow> bool" where
  "host_end_ok s =
     (case s of
        s_http_host_start \<Rightarrow> False | s_http_host_v6_start \<Rightarrow> False | s_http_host_v6 \<Rightarrow> False
      | s_http_host_v6_zone_start \<Rightarrow> False | s_http_host_v6_zone \<Rightarrow> False | s_http_host_port_start \<Rightarrow> False
      | s_http_userinfo \<Rightarrow> False | s_http_userinfo_start \<Rightarrow> False | _ \<Rightarrow> True)"

text \<open>The result is whether the host parses (the C function answers 0) and the struct.\<close>

definition http_parse_host :: "string \<Rightarrow> http_parser_url \<Rightarrow> bool \<Rightarrow> (bool \<times> http_parser_url) option" where
  "http_parse_host buf u found_at =
     (if \<not> has_field UF_HOST u then None
      else let off = field_off u UF_HOST;
               len = field_len u UF_HOST;
               s = (if found_at then s_http_userinfo_start else s_http_host_start);
               (ok, s', u') = http_parse_host_loop (take len (drop off buf)) off s (set_len UF_HOST 0 u)
           in Some (ok \<and> host_end_ok s', u'))"

section \<open>Parsing the URL\<close>

definition url_field :: "state \<Rightarrow> http_parser_url_fields option" where
  "url_field s =
     (case s of
        s_req_schema \<Rightarrow> Some UF_SCHEMA | s_req_server_with_at \<Rightarrow> Some UF_HOST | s_req_server \<Rightarrow> Some UF_HOST
      | s_req_path \<Rightarrow> Some UF_PATH | s_req_query_string \<Rightarrow> Some UF_QUERY | s_req_fragment \<Rightarrow> Some UF_FRAGMENT
      | _ \<Rightarrow> None)"

definition url_delimiter :: "state \<Rightarrow> bool" where
  "url_delimiter s =
     (case s of
        s_req_schema_slash \<Rightarrow> True | s_req_schema_slash_slash \<Rightarrow> True | s_req_server_start \<Rightarrow> True
      | s_req_query_string_start \<Rightarrow> True | s_req_fragment_start \<Rightarrow> True | _ \<Rightarrow> False)"

text \<open>The loop over the buffer: whether it ends without an error, \<^verbatim>\<open>found_at\<close> and the struct.\<close>

fun parse_url_loop ::
  "string \<Rightarrow> nat \<Rightarrow> state \<Rightarrow> http_parser_url_fields \<Rightarrow> bool \<Rightarrow> http_parser_url
     \<Rightarrow> (bool \<times> bool \<times> http_parser_url) option" where
  "parse_url_loop [] i s old_uf found_at u = Some (True, found_at, u)"
| "parse_url_loop (ch # xs) i s old_uf found_at u =
     (let s' = parse_url_char s ch in
      if s' = s_dead then Some (False, found_at, u)
      else if url_delimiter s' then parse_url_loop xs (Suc i) s' old_uf found_at u
      else case url_field s' of
        None \<Rightarrow> None
      | Some uf \<Rightarrow>
          (let found_at' = (found_at \<or> s' = s_req_server_with_at) in
           if uf = old_uf then parse_url_loop xs (Suc i) s' old_uf found_at' (incr_len uf u)
           else parse_url_loop xs (Suc i) s' uf found_at' (set_field uf (set_len uf 1 (set_off uf i u)))))"

text \<open>\<^verbatim>\<open>*p - '0'\<close> for a signed \<^verbatim>\<open>char\<close>, added to an \<^verbatim>\<open>unsigned long\<close>.\<close>

fun parse_port :: "string \<Rightarrow> nat \<Rightarrow> nat option" where
  "parse_port [] v = Some v"
| "parse_port (ch # xs) v =
     (let d = (if code ch < 128 then int (code ch) else int (code ch) - 256) - 48;
          v' = nat ((int v * 10 + d) mod 2 ^ 64)
      in if 65535 < v' then None else parse_port xs v')"

definition http_parser_parse_url ::
  "string \<Rightarrow> bool \<Rightarrow> http_parser_url \<Rightarrow> (nat \<times> http_parser_url) option" where
  "http_parser_parse_url buf is_connect u0 =
     (let u1 = u0\<lparr>port := 0, field_set := 0\<rparr>;
          s = (if is_connect then s_req_server_start else s_req_spaces_before_url)
      in case parse_url_loop buf 0 s UF_MAX False u1 of
           None \<Rightarrow> None
         | Some (False, _, u2) \<Rightarrow> Some (1, u2)
         | Some (True, found_at, u2) \<Rightarrow>
             if has_field UF_SCHEMA u2 \<and> \<not> has_field UF_HOST u2 then Some (1, u2)
             else case (if has_field UF_HOST u2 then http_parse_host buf u2 found_at else Some (True, u2)) of
               None \<Rightarrow> None
             | Some (False, u3) \<Rightarrow> Some (1, u3)
             | Some (True, u3) \<Rightarrow>
                 if is_connect \<and> field_set u3 \<noteq> (push_bit (uf_num UF_HOST) 1 OR push_bit (uf_num UF_PORT) 1)
                 then Some (1, u3)
                 else if has_field UF_PORT u3
                 then let off = field_off u3 UF_PORT; len = field_len u3 UF_PORT in
                   if length buf < off + len then None
                   else (case parse_port (take len (drop off buf)) 0 of
                           None \<Rightarrow> Some (1, u3)
                         | Some v \<Rightarrow> Some (0, u3\<lparr>port := v mod 2 ^ 16\<rparr>))
                 else Some (0, u3))"

section \<open>The fields of the struct\<close>

lemma uf_num_eq [simp]: "uf_num a = uf_num b \<longleftrightarrow> a = b"
  by (cases a; cases b) (simp_all add: uf_num_def)

lemma uf_num_lt: "uf_num uf < 16"
  by (cases uf) (simp_all add: uf_num_def)

lemma has_set_field [simp]: "has_field uf (set_field uf' u) \<longleftrightarrow> has_field uf u \<or> uf = uf'"
  using uf_num_lt [of uf] by (auto simp: set_field_def bit_or_iff bit_push_bit_iff bit_exp_iff possible_bit_word)

lemma url_field_simps [simp]:
  "has_field uf (set_off uf' n u) = has_field uf u" "has_field uf (set_len uf' n u) = has_field uf u"
  "has_field uf (incr_len uf' u) = has_field uf u"
  "field_off (set_field uf u) = field_off u" "field_off (set_len uf n u) = field_off u"
  "field_off (incr_len uf u) = field_off u"
  "field_len (set_field uf u) = field_len u" "field_len (set_off uf n u) = field_len u"
  "port (set_field uf u) = port u" "port (set_off uf n u) = port u" "port (set_len uf n u) = port u"
  "port (incr_len uf u) = port u"
  "field_off (set_off uf n u) = (field_off u)(uf := n mod 2 ^ 16)"
  "field_len (set_len uf n u) = (field_len u)(uf := n mod 2 ^ 16)"
  "field_len (incr_len uf u) = (field_len u)(uf := (field_len u uf + 1) mod 2 ^ 16)"
  by (simp_all add: set_off_def set_len_def incr_len_def set_field_def)

text \<open>Every field that is set ends at or before offset \<open>i\<close>.\<close>

definition fields_within :: "nat \<Rightarrow> http_parser_url \<Rightarrow> bool" where
  "fields_within i u \<longleftrightarrow> (\<forall>uf. has_field uf u \<longrightarrow> field_off u uf + field_len u uf \<le> i)"

lemma fields_within_mono: "fields_within i u \<Longrightarrow> i \<le> j \<Longrightarrow> fields_within j u"
  by (auto simp: fields_within_def intro: le_trans)

lemma fields_within_incr:
  "fields_within i u \<Longrightarrow> has_field uf u \<Longrightarrow> Suc i < 2 ^ 16 \<Longrightarrow> fields_within (Suc i) (incr_len uf u)"
  by (fastforce simp: fields_within_def)

lemma fields_within_new:
  "fields_within i u \<Longrightarrow> Suc i < 2 ^ 16 \<Longrightarrow> fields_within (Suc i) (set_field uf (set_len uf 1 (set_off uf i u)))"
  by (auto simp: fields_within_def intro: le_SucI)

lemma parse_url_char_field:
  "parse_url_char s ch = s_dead \<or> url_delimiter (parse_url_char s ch) \<or> url_field (parse_url_char s ch) \<noteq> None"
  by (cases s) (simp_all add: parse_url_char_def url_delimiter_def url_field_def Let_def)

text \<open>The first loop never meets an unexpected state and keeps the fields within the bytes it has read.\<close>

lemma parse_url_loop_ok:
  assumes "fields_within i u" and "i + length xs < 2 ^ 16" and "old_uf = UF_MAX \<or> has_field old_uf u"
    and "\<not> has_field UF_PORT u" and "\<not> has_field UF_USERINFO u" and "port u = 0"
  shows "\<exists>ok at u'. parse_url_loop xs i s old_uf found_at u = Some (ok, at, u') \<and>
      fields_within (i + length xs) u' \<and> \<not> has_field UF_PORT u' \<and> \<not> has_field UF_USERINFO u' \<and> port u' = 0"
  using assms
proof (induction xs i s old_uf found_at u rule: parse_url_loop.induct)
  case (1 i s old_uf found_at u)
  then show ?case by auto
next
  case (2 ch xs i s old_uf found_at u)
  let ?s = "parse_url_char s ch"
  have mono: "fields_within (Suc i) u" "fields_within (Suc (i + length xs)) u"
    using 2(4) by (auto intro: fields_within_mono)
  consider (dead) "?s = s_dead" | (delim) "?s \<noteq> s_dead" "url_delimiter ?s"
    | (field) uf where "?s \<noteq> s_dead" "\<not> url_delimiter ?s" "url_field ?s = Some uf"
    using parse_url_char_field [of s ch] by blast
  then show ?case
  proof cases
    case dead
    then show ?thesis using 2(4-) mono by auto
  next
    case delim
    then show ?thesis using 2(1) [OF refl delim] 2(4-) mono by simp
  next
    case field
    have uf: "uf \<noteq> UF_PORT" "uf \<noteq> UF_USERINFO" "uf \<noteq> UF_MAX" using field(3) by (auto simp: url_field_def split: state.splits)
    show ?thesis
    proof (cases "uf = old_uf")
      case True
      have "has_field uf u" using 2(6) True uf by simp
      with 2(4,5) have "fields_within (Suc i) (incr_len uf u)" by (intro fields_within_incr) auto
      then show ?thesis using 2(2) [OF refl field refl True] 2(5-) field True uf by (simp add: Let_def)
    next
      case False
      have "fields_within (Suc i) (set_field uf (set_len uf 1 (set_off uf i u)))"
        using 2(4,5) by (intro fields_within_new) auto
      then show ?thesis using 2(3) [OF refl field refl False] 2(5-) field False uf by (simp add: Let_def)
    qed
  qed
qed


text \<open>The loop over the host, at offset \<open>i\<close> of the buffer in state \<open>s\<close>.\<close>

definition host_inv :: "string \<Rightarrow> nat \<Rightarrow> http_host_state \<Rightarrow> http_parser_url \<Rightarrow> bool" where
  "host_inv buf i s u \<longleftrightarrow>
     port u = 0 \<and> has_field UF_HOST u \<and> field_off u UF_HOST + field_len u UF_HOST \<le> i \<and>
     (s \<in> {s_http_userinfo_start, s_http_userinfo, s_http_host_start, s_http_host_v6_start} \<longrightarrow> field_len u UF_HOST = 0) \<and>
     fields_within (length buf) u \<and>
     (s = s_http_userinfo \<longrightarrow> has_field UF_USERINFO u \<and> field_off u UF_USERINFO + field_len u UF_USERINFO \<le> i) \<and>
     (has_field UF_PORT u \<longleftrightarrow> s = s_http_host_port) \<and>
     (has_field UF_PORT u \<longrightarrow> field_off u UF_PORT + field_len u UF_PORT = i \<and>
        list_all IS_NUM (take (field_len u UF_PORT) (drop (field_off u UF_PORT) buf)))"

lemma fields_within_grow:
  assumes "fields_within n u" and "field_off u uf + field_len u uf \<le> i" and "i < n" and "n < 2 ^ 16"
  shows "fields_within n (incr_len uf u)"
  using assms by (auto simp: fields_within_def)

lemma fields_within_start:
  assumes "fields_within n u" and "i < n" and "n < 2 ^ 16"
  shows "fields_within n (set_field uf (set_len uf 0 (set_off uf i u)))"
  using assms by (auto simp: fields_within_def)

lemma fields_within_off:
  assumes "fields_within n u" and "field_len u uf = 0" and "i < n" and "n < 2 ^ 16"
  shows "fields_within n (set_off uf i u)"
  using assms by (auto simp: fields_within_def)

lemma slice_grow:
  "off + len = i \<Longrightarrow> i < length buf \<Longrightarrow> take (Suc len) (drop off buf) = take len (drop off buf) @ [buf ! i]"
  by (simp add: take_Suc_conv_app_nth)

lemma host_step:
  assumes "host_inv buf i s u" and "i < length buf" and "length buf < 2 ^ 16"
    and "http_parse_host_char s (buf ! i) = s'" and "s' \<noteq> s_http_host_dead"
  shows "host_inv buf (Suc i) s' (host_field_step i s s' u)"
  using assms
  by (cases s)
    (auto simp: http_parse_host_char_def host_field_step_def host_inv_def Let_def slice_grow
      intro!: fields_within_grow [where i = i] fields_within_start fields_within_off split: if_splits)


lemma host_loop:
  assumes "host_inv buf i s u" and "xs = take (length xs) (drop i buf)" and "i + length xs \<le> length buf"
    and "length buf < 2 ^ 16"
  shows "\<exists>ok s' u' j. http_parse_host_loop xs i s u = (ok, s', u') \<and> j \<le> length buf \<and> host_inv buf j s' u'"
  using assms
proof (induction xs i s u rule: http_parse_host_loop.induct)
  case (1 i s u)
  then show ?case by auto
next
  case (2 ch xs i s u)
  have lt: "i < length buf" using 2(4) by simp
  have ch: "ch = buf ! i"
    using 2(3) lt by (metis list.sel(1) hd_drop_conv_nth hd_take length_greater_0_conv list.discI)
  have rest: "xs = take (length xs) (drop (Suc i) buf)"
  proof -
    have "drop i buf = ch # drop (Suc i) buf" using lt ch by (simp add: Cons_nth_drop_Suc)
    then show ?thesis using 2(3) by simp
  qed
  let ?s = "http_parse_host_char s ch"
  show ?case
  proof (cases "?s = s_http_host_dead")
    case True
    then show ?thesis using 2(2) lt by (auto intro!: exI [of _ i])
  next
    case False
    have "host_inv buf (Suc i) ?s (host_field_step i s ?s u)"
      using 2(2) lt 2(5) _ False by (rule host_step) (simp add: ch)
    then show ?thesis using 2(1) [OF refl False] rest 2(4,5) False by (simp add: Let_def)
  qed
qed

lemma http_parse_host_ok:
  assumes "fields_within (length buf) u" and "has_field UF_HOST u" and "\<not> has_field UF_PORT u" and "port u = 0"
    and "length buf < 2 ^ 16"
  shows "\<exists>ok u' j s. http_parse_host buf u found_at = Some (ok, u') \<and> j \<le> length buf \<and> host_inv buf j s u'"
proof -
  let ?off = "field_off u UF_HOST" and ?len = "field_len u UF_HOST"
  let ?s = "if found_at then s_http_userinfo_start else s_http_host_start" and ?u = "set_len UF_HOST 0 u"
  let ?xs = "take ?len (drop ?off buf)"
  have le: "?off + ?len \<le> length buf" using assms(1,2) by (simp add: fields_within_def)
  have "host_inv buf ?off ?s ?u"
    using assms le by (auto simp: host_inv_def fields_within_def)
  moreover have "?xs = take (length ?xs) (drop ?off buf)" "?off + length ?xs \<le> length buf" using le by auto
  ultimately obtain ok s' u' j where
    "http_parse_host_loop ?xs ?off ?s ?u = (ok, s', u')" "j \<le> length buf" "host_inv buf j s' u'"
    using host_loop [of buf ?off ?s ?u ?xs] assms(5) by blast
  then show ?thesis using assms(2) by (auto simp: http_parse_host_def Let_def)
qed

text \<open>The value of the digits of a port.\<close>

definition port_value :: "nat \<Rightarrow> string \<Rightarrow> nat" where
  "port_value v ds = foldl (\<lambda>v ch. v * 10 + (code ch - 48)) v ds"

lemma port_value_ge: "v \<le> port_value v ds"
proof (induction ds arbitrary: v)
  case (Cons ch ds)
  have "v \<le> v * 10 + (code ch - 48)" by simp
  also have "\<dots> \<le> port_value (v * 10 + (code ch - 48)) ds" by (rule Cons)
  finally show ?case by (simp add: port_value_def)
qed (simp add: port_value_def)

lemma parse_port_value:
  "list_all IS_NUM ds \<Longrightarrow> v \<le> 65535 \<Longrightarrow>
   parse_port ds v = (if port_value v ds \<le> 65535 then Some (port_value v ds) else None)"
proof (induction ds arbitrary: v)
  case (Cons ch ds)
  let ?v = "v * 10 + (code ch - 48)"
  have num: "48 \<le> code ch" "code ch \<le> 57" using Cons.prems(1) by (auto simp: IS_NUM_def code_def)
  then have "nat ((int v * 10 + ((if code ch < 128 then int (code ch) else int (code ch) - 256) - 48)) mod 2 ^ 64) = ?v"
    using Cons.prems(2) by (simp add: nat_eq_iff)
  moreover have "port_value v (ch # ds) = port_value ?v ds" by (simp add: port_value_def)
  ultimately show ?case
    using Cons.IH [of ?v] Cons.prems(1) port_value_ge [of ?v ds] by (auto simp: Let_def)
qed (simp add: port_value_def)


text \<open>
  C26. On a buffer shorter than 64 KiB the URL parser always answers: no assertion fails and no byte outside the
  buffer is read. When it answers 0, every field it sets lies within the buffer, the bytes of the port are digits,
  and the port is their decimal value, at most 65535; with no port field the port is 0.
\<close>

theorem parse_url_fields:
  assumes "length buf < 2 ^ 16"
  shows "\<exists>r u. http_parser_parse_url buf is_connect u0 = Some (r, u) \<and> (r = 0 \<or> r = 1) \<and>
    (r = 0 \<longrightarrow>
       (\<forall>uf. has_field uf u \<longrightarrow> field_off u uf + field_len u uf \<le> length buf) \<and>
       (\<not> has_field UF_PORT u \<longrightarrow> port u = 0) \<and>
       (has_field UF_PORT u \<longrightarrow>
          list_all IS_NUM (take (field_len u UF_PORT) (drop (field_off u UF_PORT) buf)) \<and>
          port u = port_value 0 (take (field_len u UF_PORT) (drop (field_off u UF_PORT) buf)) \<and> port u \<le> 65535))"
proof -
  let ?u1 = "u0\<lparr>port := 0, field_set := 0\<rparr>"
  let ?s = "if is_connect then s_req_server_start else s_req_spaces_before_url"
  obtain ok at u2 where loop: "parse_url_loop buf 0 ?s UF_MAX False ?u1 = Some (ok, at, u2)"
    and u2: "fields_within (length buf) u2" "\<not> has_field UF_PORT u2" "port u2 = 0"
    using parse_url_loop_ok [of 0 ?u1 buf UF_MAX ?s False] assms by (auto simp: fields_within_def)
  show ?thesis
  proof (cases "ok \<and> has_field UF_HOST u2")
    case False
    then show ?thesis
      using loop u2 by (cases ok) (auto simp: http_parser_parse_url_def Let_def fields_within_def)
  next
    case True
    then obtain ok' u3 j s where host: "http_parse_host buf u2 at = Some (ok', u3)" "j \<le> length buf" "host_inv buf j s u3"
      using http_parse_host_ok [OF u2(1) _ u2(2,3) assms] by blast
    then have u3: "fields_within (length buf) u3" "port u3 = 0"
      "has_field UF_PORT u3 \<Longrightarrow> field_off u3 UF_PORT + field_len u3 UF_PORT \<le> length buf"
      "has_field UF_PORT u3 \<Longrightarrow> list_all IS_NUM (take (field_len u3 UF_PORT) (drop (field_off u3 UF_PORT) buf))"
      by (auto simp: host_inv_def)
    show ?thesis
    proof (cases "ok' \<and> has_field UF_PORT u3")
      case False
      then show ?thesis
        using True loop host(1) u3 by (cases ok') (auto simp: http_parser_parse_url_def Let_def fields_within_def)
    next
      case port: True
      then show ?thesis
        using True loop host(1) u3 parse_port_value [OF u3(4), of 0]
        by (auto simp: http_parser_parse_url_def Let_def fields_within_def)
    qed
  qed
qed


theorem parse_url_fields_witness:
  "length ''http://h:80/p?q'' < 2 ^ 16 \<and>
   (\<exists>r u. http_parser_parse_url ''http://h:80/p?q'' False http_parser_url_init = Some (r, u) \<and> (r = 0 \<or> r = 1))"
  using parse_url_fields [of "''http://h:80/p?q''" False http_parser_url_init] by auto

end
