(* ===== verification/HttpParser.thy ===== *)
theory HttpParser
  imports HttpUrl
begin

text \<open>
  The HTTP message parser of \<^verbatim>\<open>src/protocol/http/http_parser.c\<close>: \<^verbatim>\<open>http_parser_execute\<close> with
  one definition for each case of its state switch, \<^verbatim>\<open>http_parser_init\<close> and the queries.

  A pointer into the buffer is an offset. The locals of \<^verbatim>\<open>http_parser_execute\<close> are the record
  \<open>http_cfg\<close>: the parser, \<^verbatim>\<open>p_state\<close>, the offset \<open>pos\<close> of \<^verbatim>\<open>p\<close>, the five marks and the
  application data the callbacks work on. A callback of the application reads the parser and
  changes its own data; it answers an \<^verbatim>\<open>int\<close>. A case of the switch ends in one of four ways, the
  datatype \<open>outcome\<close>: it breaks (the loop goes on with the next byte), executes the switch again
  for the same byte, returns, or aborts. \<open>Abort\<close> stands for a failing \<^verbatim>\<open>assert\<close> and for every
  access outside the buffer or a string constant. The fields are naturals, reduced to the width
  of the C field wherever the code computes one.
\<close>

section \<open>The parser, its callbacks and its locals\<close>

record http_parser =
  type_of :: http_parser_type
  flags :: u8
  pstate :: state
  header_state :: header_states
  index :: nat
  lenient_http_headers :: bool
  nread :: nat
  content_length :: nat
  http_major :: nat
  http_minor :: nat
  status_code :: nat
  method_of :: http_method
  http_errno :: http_errno
  upgrade :: bool

type_synonym 'u http_cb = "http_parser \<Rightarrow> 'u \<Rightarrow> int \<times> 'u"
type_synonym 'u http_data_cb = "http_parser \<Rightarrow> string \<Rightarrow> 'u \<Rightarrow> int \<times> 'u"

record 'u http_parser_settings =
  on_message_begin :: "'u http_cb option"
  on_url :: "'u http_data_cb option"
  on_status :: "'u http_data_cb option"
  on_header_field :: "'u http_data_cb option"
  on_header_value :: "'u http_data_cb option"
  on_headers_complete :: "'u http_cb option"
  on_body :: "'u http_data_cb option"
  on_message_complete :: "'u http_cb option"
  on_chunk_header :: "'u http_cb option"
  on_chunk_complete :: "'u http_cb option"

datatype mark = header_field_mark | header_value_mark | url_mark | body_mark | status_mark

record 'u http_cfg =
  prs :: http_parser
  p_state :: state
  pos :: nat
  marks :: "mark \<Rightarrow> nat option"
  user :: 'u

datatype 'u outcome = Break "'u http_cfg" | Reexecute "'u http_cfg" char | Return "'u http_cfg" nat | Abort

type_synonym 'u env = "'u http_parser_settings \<times> string"

definition HTTP_MAX_HEADER_SIZE :: nat where
  "HTTP_MAX_HEADER_SIZE = 80 * 1024"

definition ULLONG_MAX :: nat where
  "ULLONG_MAX = 2 ^ 64 - 1"

section \<open>The macros\<close>

abbreviation flag :: "nat \<Rightarrow> http_parser \<Rightarrow> bool" where
  "flag f p \<equiv> bit (flags p) f"

definition set_flag :: "nat \<Rightarrow> http_parser \<Rightarrow> http_parser" where
  "set_flag f p = p\<lparr>flags := flags p OR push_bit f 1\<rparr>"

definition upd_parser :: "(http_parser \<Rightarrow> http_parser) \<Rightarrow> 'u http_cfg \<Rightarrow> 'u http_cfg" where
  "upd_parser f c = c\<lparr>prs := f (prs c)\<rparr>"

definition SET_ERRNO :: "http_errno \<Rightarrow> 'u http_cfg \<Rightarrow> 'u http_cfg" where
  "SET_ERRNO e = upd_parser (\<lambda>p. p\<lparr>http_errno := e\<rparr>)"

definition UPDATE_STATE :: "state \<Rightarrow> 'u http_cfg \<Rightarrow> 'u http_cfg" where
  "UPDATE_STATE s c = c\<lparr>p_state := s\<rparr>"

definition RETURN :: "nat \<Rightarrow> 'u http_cfg \<Rightarrow> 'u outcome" where
  "RETURN v c = Return (upd_parser (\<lambda>p. p\<lparr>pstate := p_state c\<rparr>) c) v"

definition error_label :: "'u http_cfg \<Rightarrow> 'u outcome" where
  "error_label c = RETURN (pos c) (if http_errno (prs c) = HPE_OK then SET_ERRNO HPE_UNKNOWN c else c)"

definition goto_error :: "http_errno \<Rightarrow> 'u http_cfg \<Rightarrow> 'u outcome" where
  "goto_error e c = error_label (SET_ERRNO e c)"

definition CALLBACK_NOTIFY_gen ::
  "'u http_cb option \<Rightarrow> http_errno \<Rightarrow> nat \<Rightarrow> 'u http_cfg \<Rightarrow> ('u http_cfg \<Rightarrow> 'u outcome) \<Rightarrow> 'u outcome" where
  "CALLBACK_NOTIFY_gen cb err er c k =
     (if http_errno (prs c) \<noteq> HPE_OK then Abort
      else case cb of
        None \<Rightarrow> k c
      | Some f \<Rightarrow>
          (let c1 = upd_parser (\<lambda>p. p\<lparr>pstate := p_state c\<rparr>) c;
               (r, u) = f (prs c1) (user c1);
               c2 = c1\<lparr>user := u\<rparr>;
               c3 = (if r \<noteq> 0 then SET_ERRNO err c2 else c2);
               c4 = UPDATE_STATE (pstate (prs c3)) c3
           in if http_errno (prs c4) \<noteq> HPE_OK then Return c4 er else k c4))"

definition CALLBACK_NOTIFY ::
  "'u http_cb option \<Rightarrow> http_errno \<Rightarrow> 'u http_cfg \<Rightarrow> ('u http_cfg \<Rightarrow> 'u outcome) \<Rightarrow> 'u outcome" where
  "CALLBACK_NOTIFY cb err c k = CALLBACK_NOTIFY_gen cb err (pos c + 1) c k"

definition CALLBACK_NOTIFY_NOADVANCE ::
  "'u http_cb option \<Rightarrow> http_errno \<Rightarrow> 'u http_cfg \<Rightarrow> ('u http_cfg \<Rightarrow> 'u outcome) \<Rightarrow> 'u outcome" where
  "CALLBACK_NOTIFY_NOADVANCE cb err c k = CALLBACK_NOTIFY_gen cb err (pos c) c k"

definition data_cb :: "'u http_parser_settings \<Rightarrow> mark \<Rightarrow> 'u http_data_cb option \<times> http_errno" where
  "data_cb s m =
     (case m of
        header_field_mark \<Rightarrow> (on_header_field s, HPE_CB_header_field)
      | header_value_mark \<Rightarrow> (on_header_value s, HPE_CB_header_value)
      | url_mark \<Rightarrow> (on_url s, HPE_CB_url)
      | body_mark \<Rightarrow> (on_body s, HPE_CB_body)
      | status_mark \<Rightarrow> (on_status s, HPE_CB_status))"

text \<open>The callback gets the bytes from the mark up to \<open>stop\<close>; \<open>er\<close> is returned when it fails.\<close>

definition CALLBACK_DATA_gen ::
  "'u env \<Rightarrow> mark \<Rightarrow> nat \<Rightarrow> nat \<Rightarrow> 'u http_cfg \<Rightarrow> ('u http_cfg \<Rightarrow> 'u outcome) \<Rightarrow> 'u outcome" where
  "CALLBACK_DATA_gen e m stop er c k =
     (if http_errno (prs c) \<noteq> HPE_OK then Abort
      else case marks c m of
        None \<Rightarrow> k c
      | Some at \<Rightarrow>
          (case data_cb (fst e) m of
             (None, err) \<Rightarrow> k (c\<lparr>marks := (marks c)(m := None)\<rparr>)
           | (Some f, err) \<Rightarrow>
               if stop < at \<or> length (snd e) < stop then Abort
               else let c1 = upd_parser (\<lambda>p. p\<lparr>pstate := p_state c\<rparr>) c;
                        (r, u) = f (prs c1) (take (stop - at) (drop at (snd e))) (user c1);
                        c2 = c1\<lparr>user := u\<rparr>;
                        c3 = (if r \<noteq> 0 then SET_ERRNO err c2 else c2);
                        c4 = UPDATE_STATE (pstate (prs c3)) c3
                    in if http_errno (prs c4) \<noteq> HPE_OK then Return c4 er
                       else k (c4\<lparr>marks := (marks c4)(m := None)\<rparr>)))"

definition CALLBACK_DATA ::
  "'u env \<Rightarrow> mark \<Rightarrow> 'u http_cfg \<Rightarrow> ('u http_cfg \<Rightarrow> 'u outcome) \<Rightarrow> 'u outcome" where
  "CALLBACK_DATA e m c k = CALLBACK_DATA_gen e m (pos c) (pos c + 1) c k"

definition CALLBACK_DATA_NOADVANCE ::
  "'u env \<Rightarrow> mark \<Rightarrow> 'u http_cfg \<Rightarrow> ('u http_cfg \<Rightarrow> 'u outcome) \<Rightarrow> 'u outcome" where
  "CALLBACK_DATA_NOADVANCE e m c k = CALLBACK_DATA_gen e m (pos c) (pos c) c k"

definition MARK :: "mark \<Rightarrow> 'u http_cfg \<Rightarrow> 'u http_cfg" where
  "MARK m c = (if marks c m = None then c\<lparr>marks := (marks c)(m \<mapsto> pos c)\<rparr> else c)"

definition COUNT_HEADER_SIZE :: "nat \<Rightarrow> 'u http_cfg \<Rightarrow> ('u http_cfg \<Rightarrow> 'u outcome) \<Rightarrow> 'u outcome" where
  "COUNT_HEADER_SIZE v c k =
     (let c1 = upd_parser (\<lambda>p. p\<lparr>nread := (nread p + v) mod 2 ^ 32\<rparr>) c
      in if HTTP_MAX_HEADER_SIZE < nread (prs c1) then goto_error HPE_HEADER_OVERFLOW c1 else k c1)"

definition STRICT_CHECK :: "bool \<Rightarrow> 'u http_cfg \<Rightarrow> ('u http_cfg \<Rightarrow> 'u outcome) \<Rightarrow> 'u outcome" where
  "STRICT_CHECK cond c k = (if cond then goto_error HPE_STRICT c else k c)"

definition assert :: "bool \<Rightarrow> 'u outcome \<Rightarrow> 'u outcome" where
  "assert b k = (if b then k else Abort)"

section \<open>Queries on the parser\<close>

definition http_message_needs_eof :: "http_parser \<Rightarrow> bool" where
  "http_message_needs_eof p =
     (if type_of p = HTTP_REQUEST then False
      else if status_code p div 100 = 1 \<or> status_code p = 204 \<or> status_code p = 304 \<or> flag F_SKIPBODY p then False
      else if flag F_CHUNKED p \<or> content_length p \<noteq> ULLONG_MAX then False
      else True)"

definition http_should_keep_alive :: "http_parser \<Rightarrow> bool" where
  "http_should_keep_alive p =
     (if 0 < http_major p \<and> 0 < http_minor p
      then (if flag F_CONNECTION_CLOSE p then False else \<not> http_message_needs_eof p)
      else (if \<not> flag F_CONNECTION_KEEP_ALIVE p then False else \<not> http_message_needs_eof p))"

definition start_state :: "http_parser \<Rightarrow> state" where
  "start_state p = (if type_of p = HTTP_REQUEST then s_start_req else s_start_res)"

definition NEW_MESSAGE :: "'u http_cfg \<Rightarrow> state" where
  "NEW_MESSAGE c = (if http_should_keep_alive (prs c) then start_state (prs c) else s_dead)"

definition http_parser_init :: "http_parser_type \<Rightarrow> http_parser" where
  "http_parser_init t =
     \<lparr>type_of = t, flags = 0,
      pstate = (if t = HTTP_REQUEST then s_start_req else if t = HTTP_RESPONSE then s_start_res else s_start_req_or_res),
      header_state = h_general, index = 0, lenient_http_headers = False, nread = 0, content_length = 0,
      http_major = 0, http_minor = 0, status_code = 0, method_of = HTTP_DELETE, http_errno = HPE_OK,
      upgrade = False\<rparr>"

definition http_parser_settings_init :: "'u http_parser_settings" where
  "http_parser_settings_init =
     \<lparr>on_message_begin = None, on_url = None, on_status = None, on_header_field = None, on_header_value = None,
      on_headers_complete = None, on_body = None, on_message_complete = None, on_chunk_header = None,
      on_chunk_complete = None\<rparr>"

text \<open>Pausing a parser in an error state fails an assertion.\<close>

definition http_parser_pause :: "http_parser \<Rightarrow> bool \<Rightarrow> http_parser option" where
  "http_parser_pause p paused =
     (if http_errno p = HPE_OK \<or> http_errno p = HPE_PAUSED
      then Some (p\<lparr>http_errno := (if paused then HPE_PAUSED else HPE_OK)\<rparr>)
      else None)"

definition http_body_is_final :: "http_parser \<Rightarrow> bool" where
  "http_body_is_final p = (pstate p = s_message_done)"

definition http_parser_version :: nat where
  "http_parser_version = or (or (2 * 65536) (8 * 256)) 1"

section \<open>The cases of the state switch: status line\<close>

definition at_s_dead :: "'u http_cfg \<Rightarrow> char \<Rightarrow> 'u outcome" where
  "at_s_dead c ch = (if ch = CR \<or> ch = LF then Break c else goto_error HPE_CLOSED_CONNECTION c)"

definition reset_message :: "http_parser \<Rightarrow> http_parser" where
  "reset_message p = p\<lparr>flags := 0, content_length := ULLONG_MAX\<rparr>"

definition at_s_start_req_or_res :: "'u env \<Rightarrow> 'u http_cfg \<Rightarrow> char \<Rightarrow> 'u outcome" where
  "at_s_start_req_or_res e c ch =
     (if ch = CR \<or> ch = LF then Break c
      else let c1 = upd_parser reset_message c in
        if ch = CHR ''H''
        then CALLBACK_NOTIFY (on_message_begin (fst e)) HPE_CB_message_begin (UPDATE_STATE s_res_or_resp_H c1) Break
        else Reexecute (UPDATE_STATE s_start_req (upd_parser (\<lambda>p. p\<lparr>type_of := HTTP_REQUEST\<rparr>) c1)) ch)"

definition at_s_res_or_resp_H :: "'u http_cfg \<Rightarrow> char \<Rightarrow> 'u outcome" where
  "at_s_res_or_resp_H c ch =
     (if ch = CHR ''T'' then Break (UPDATE_STATE s_res_HT (upd_parser (\<lambda>p. p\<lparr>type_of := HTTP_RESPONSE\<rparr>) c))
      else if ch \<noteq> CHR ''E'' then goto_error HPE_INVALID_CONSTANT c
      else Break (UPDATE_STATE s_req_method
             (upd_parser (\<lambda>p. p\<lparr>type_of := HTTP_REQUEST, method_of := HTTP_HEAD, index := 2\<rparr>) c)))"

definition at_s_start_res :: "'u env \<Rightarrow> 'u http_cfg \<Rightarrow> char \<Rightarrow> 'u outcome" where
  "at_s_start_res e c ch =
     (let c1 = upd_parser reset_message c in
      if ch = CHR ''H''
      then CALLBACK_NOTIFY (on_message_begin (fst e)) HPE_CB_message_begin (UPDATE_STATE s_res_H c1) Break
      else if ch = CR \<or> ch = LF
      then CALLBACK_NOTIFY (on_message_begin (fst e)) HPE_CB_message_begin c1 Break
      else goto_error HPE_INVALID_CONSTANT c1)"

text \<open>The letters of \<^verbatim>\<open>HTTP/\<close>: the expected character and the next state.\<close>

definition at_letter :: "char \<Rightarrow> state \<Rightarrow> 'u http_cfg \<Rightarrow> char \<Rightarrow> 'u outcome" where
  "at_letter x s c ch = STRICT_CHECK (ch \<noteq> x) c (\<lambda>c. Break (UPDATE_STATE s c))"

definition at_s_res_H :: "'u http_cfg \<Rightarrow> char \<Rightarrow> 'u outcome" where
  "at_s_res_H = at_letter CHR ''T'' s_res_HT"

definition at_s_res_HT :: "'u http_cfg \<Rightarrow> char \<Rightarrow> 'u outcome" where
  "at_s_res_HT = at_letter CHR ''T'' s_res_HTT"

definition at_s_res_HTT :: "'u http_cfg \<Rightarrow> char \<Rightarrow> 'u outcome" where
  "at_s_res_HTT = at_letter CHR ''P'' s_res_HTTP"

definition at_s_res_HTTP :: "'u http_cfg \<Rightarrow> char \<Rightarrow> 'u outcome" where
  "at_s_res_HTTP = at_letter CHR ''/'' s_res_http_major"

definition digit :: "char \<Rightarrow> nat" where
  "digit ch = code ch - code CHR ''0''"

definition at_s_res_http_major :: "'u http_cfg \<Rightarrow> char \<Rightarrow> 'u outcome" where
  "at_s_res_http_major c ch =
     (if \<not> IS_NUM ch then goto_error HPE_INVALID_VERSION c
      else Break (UPDATE_STATE s_res_http_dot (upd_parser (\<lambda>p. p\<lparr>http_major := digit ch\<rparr>) c)))"

definition at_s_res_http_dot :: "'u http_cfg \<Rightarrow> char \<Rightarrow> 'u outcome" where
  "at_s_res_http_dot c ch =
     (if ch \<noteq> CHR ''.'' then goto_error HPE_INVALID_VERSION c else Break (UPDATE_STATE s_res_http_minor c))"

definition at_s_res_http_minor :: "'u http_cfg \<Rightarrow> char \<Rightarrow> 'u outcome" where
  "at_s_res_http_minor c ch =
     (if \<not> IS_NUM ch then goto_error HPE_INVALID_VERSION c
      else Break (UPDATE_STATE s_res_http_end (upd_parser (\<lambda>p. p\<lparr>http_minor := digit ch\<rparr>) c)))"

definition at_s_res_http_end :: "'u http_cfg \<Rightarrow> char \<Rightarrow> 'u outcome" where
  "at_s_res_http_end c ch =
     (if ch \<noteq> SP then goto_error HPE_INVALID_VERSION c else Break (UPDATE_STATE s_res_first_status_code c))"

definition at_s_res_first_status_code :: "'u http_cfg \<Rightarrow> char \<Rightarrow> 'u outcome" where
  "at_s_res_first_status_code c ch =
     (if \<not> IS_NUM ch then (if ch = SP then Break c else goto_error HPE_INVALID_STATUS c)
      else Break (UPDATE_STATE s_res_status_code (upd_parser (\<lambda>p. p\<lparr>status_code := digit ch\<rparr>) c)))"

definition at_s_res_status_code :: "'u http_cfg \<Rightarrow> char \<Rightarrow> 'u outcome" where
  "at_s_res_status_code c ch =
     (if \<not> IS_NUM ch
      then (if ch = SP then Break (UPDATE_STATE s_res_status_start c)
            else if ch = CR \<or> ch = LF then Reexecute (UPDATE_STATE s_res_status_start c) ch
            else goto_error HPE_INVALID_STATUS c)
      else let c1 = upd_parser (\<lambda>p. p\<lparr>status_code := (status_code p * 10 mod 2 ^ 16 + digit ch) mod 2 ^ 16\<rparr>) c in
        if 999 < status_code (prs c1) then goto_error HPE_INVALID_STATUS c1 else Break c1)"

definition at_s_res_status_start :: "'u http_cfg \<Rightarrow> char \<Rightarrow> 'u outcome" where
  "at_s_res_status_start c ch =
     (let c1 = upd_parser (\<lambda>p. p\<lparr>index := 0\<rparr>) (UPDATE_STATE s_res_status (MARK status_mark c))
      in if ch = CR \<or> ch = LF then Reexecute c1 ch else Break c1)"

definition at_s_res_status :: "'u env \<Rightarrow> 'u http_cfg \<Rightarrow> char \<Rightarrow> 'u outcome" where
  "at_s_res_status e c ch =
     (if ch = CR then CALLBACK_DATA e status_mark (UPDATE_STATE s_res_line_almost_done c) Break
      else if ch = LF then CALLBACK_DATA e status_mark (UPDATE_STATE s_header_field_start c) Break
      else Break c)"

definition at_s_res_line_almost_done :: "'u http_cfg \<Rightarrow> char \<Rightarrow> 'u outcome" where
  "at_s_res_line_almost_done = at_letter LF s_header_field_start"

section \<open>The cases of the state switch: request line\<close>

definition method_of_letter :: "char \<rightharpoonup> http_method" where
  "method_of_letter =
     map_of [(CHR ''A'', HTTP_ACL), (CHR ''B'', HTTP_BIND), (CHR ''C'', HTTP_CONNECT), (CHR ''D'', HTTP_DELETE),
       (CHR ''G'', HTTP_GET), (CHR ''H'', HTTP_HEAD), (CHR ''L'', HTTP_LOCK), (CHR ''M'', HTTP_MKCOL),
       (CHR ''N'', HTTP_NOTIFY), (CHR ''O'', HTTP_OPTIONS), (CHR ''P'', HTTP_POST), (CHR ''R'', HTTP_REPORT),
       (CHR ''S'', HTTP_SUBSCRIBE), (CHR ''T'', HTTP_TRACE), (CHR ''U'', HTTP_UNLOCK)]"

definition at_s_start_req :: "'u env \<Rightarrow> 'u http_cfg \<Rightarrow> char \<Rightarrow> 'u outcome" where
  "at_s_start_req e c ch =
     (if ch = CR \<or> ch = LF then Break c
      else let c1 = upd_parser reset_message c in
        if \<not> IS_ALPHA ch then goto_error HPE_INVALID_METHOD c1
        else let c2 = upd_parser (\<lambda>p. p\<lparr>method_of := HTTP_DELETE, index := 1\<rparr>) c1 in
          case method_of_letter ch of
            None \<Rightarrow> goto_error HPE_INVALID_METHOD c2
          | Some m \<Rightarrow>
              CALLBACK_NOTIFY (on_message_begin (fst e)) HPE_CB_message_begin
                (UPDATE_STATE s_req_method (upd_parser (\<lambda>p. p\<lparr>method_of := m\<rparr>) c2)) Break)"

text \<open>A character of a string constant with its terminating zero; \<^term>\<open>None\<close> is out of bounds.\<close>

definition str_at :: "string \<Rightarrow> nat \<Rightarrow> char option" where
  "str_at s i = (if i < length s then Some (s ! i) else if i = length s then Some nul else None)"

definition next_method :: "http_method \<times> nat \<times> char \<rightharpoonup> http_method" where
  "next_method =
     map_of [((HTTP_POST, 1, CHR ''U''), HTTP_PUT), ((HTTP_POST, 1, CHR ''A''), HTTP_PATCH),
       ((HTTP_POST, 1, CHR ''R''), HTTP_PROPFIND), ((HTTP_PUT, 2, CHR ''R''), HTTP_PURGE),
       ((HTTP_CONNECT, 1, CHR ''H''), HTTP_CHECKOUT), ((HTTP_CONNECT, 2, CHR ''P''), HTTP_COPY),
       ((HTTP_MKCOL, 1, CHR ''O''), HTTP_MOVE), ((HTTP_MKCOL, 1, CHR ''E''), HTTP_MERGE),
       ((HTTP_MKCOL, 1, CHR ''-''), HTTP_MSEARCH), ((HTTP_MKCOL, 2, CHR ''A''), HTTP_MKACTIVITY),
       ((HTTP_MKCOL, 3, CHR ''A''), HTTP_MKCALENDAR), ((HTTP_SUBSCRIBE, 1, CHR ''E''), HTTP_SEARCH),
       ((HTTP_SUBSCRIBE, 1, CHR ''O''), HTTP_SOURCE), ((HTTP_REPORT, 2, CHR ''B''), HTTP_REBIND),
       ((HTTP_PROPFIND, 4, CHR ''P''), HTTP_PROPPATCH), ((HTTP_LOCK, 1, CHR ''I''), HTTP_LINK),
       ((HTTP_UNLOCK, 2, CHR ''S''), HTTP_UNSUBSCRIBE), ((HTTP_UNLOCK, 2, CHR ''B''), HTTP_UNBIND),
       ((HTTP_UNLOCK, 3, CHR ''I''), HTTP_UNLINK)]"

definition incr_index :: "http_parser \<Rightarrow> http_parser" where
  "incr_index p = p\<lparr>index := (index p + 1) mod 128\<rparr>"

definition at_s_req_method :: "'u http_cfg \<Rightarrow> char \<Rightarrow> 'u outcome" where
  "at_s_req_method c ch =
     (if ch = nul then goto_error HPE_INVALID_METHOD c
      else case str_at (http_method_str (method_of (prs c))) (index (prs c)) of
        None \<Rightarrow> Abort
      | Some x \<Rightarrow>
          if ch = SP \<and> x = nul then Break (upd_parser incr_index (UPDATE_STATE s_req_spaces_before_url c))
          else if ch = x then Break (upd_parser incr_index c)
          else if (code CHR ''A'' \<le> code ch \<and> code ch \<le> code CHR ''Z'') \<or> ch = CHR ''-''
          then (case next_method (method_of (prs c), index (prs c), ch) of
                  Some m \<Rightarrow> Break (upd_parser incr_index (upd_parser (\<lambda>p. p\<lparr>method_of := m\<rparr>) c))
                | None \<Rightarrow> goto_error HPE_INVALID_METHOD c)
          else goto_error HPE_INVALID_METHOD c)"

definition url_step :: "'u http_cfg \<Rightarrow> char \<Rightarrow> 'u outcome" where
  "url_step c ch =
     (let c1 = UPDATE_STATE (parse_url_char (p_state c) ch) c
      in if p_state c1 = s_dead then goto_error HPE_INVALID_URL c1 else Break c1)"

definition at_s_req_spaces_before_url :: "'u http_cfg \<Rightarrow> char \<Rightarrow> 'u outcome" where
  "at_s_req_spaces_before_url c ch =
     (if ch = SP then Break c
      else let c1 = MARK url_mark c;
               c2 = (if method_of (prs c1) = HTTP_CONNECT then UPDATE_STATE s_req_server_start c1 else c1)
           in url_step c2 ch)"

text \<open>\<^verbatim>\<open>s_req_schema\<close>, \<^verbatim>\<open>s_req_schema_slash\<close>, \<^verbatim>\<open>s_req_schema_slash_slash\<close> and \<^verbatim>\<open>s_req_server_start\<close>.\<close>

definition at_s_req_schema :: "'u http_cfg \<Rightarrow> char \<Rightarrow> 'u outcome" where
  "at_s_req_schema c ch =
     (if ch = SP \<or> ch = CR \<or> ch = LF then goto_error HPE_INVALID_URL c else url_step c ch)"

text \<open>\<^verbatim>\<open>s_req_server\<close>, \<^verbatim>\<open>s_req_path\<close>, the query and the fragment states.\<close>

definition at_s_req_server :: "'u env \<Rightarrow> 'u http_cfg \<Rightarrow> char \<Rightarrow> 'u outcome" where
  "at_s_req_server e c ch =
     (if ch = SP then CALLBACK_DATA e url_mark (UPDATE_STATE s_req_http_start c) Break
      else if ch = CR \<or> ch = LF
      then CALLBACK_DATA e url_mark
             (UPDATE_STATE (if ch = CR then s_req_line_almost_done else s_header_field_start)
               (upd_parser (\<lambda>p. p\<lparr>http_major := 0, http_minor := 9\<rparr>) c)) Break
      else url_step c ch)"

definition at_s_req_http_start :: "'u http_cfg \<Rightarrow> char \<Rightarrow> 'u outcome" where
  "at_s_req_http_start c ch =
     (if ch = CHR ''H'' then Break (UPDATE_STATE s_req_http_H c)
      else if ch = SP then Break c
      else goto_error HPE_INVALID_CONSTANT c)"

definition at_s_req_http_H :: "'u http_cfg \<Rightarrow> char \<Rightarrow> 'u outcome" where
  "at_s_req_http_H = at_letter CHR ''T'' s_req_http_HT"

definition at_s_req_http_HT :: "'u http_cfg \<Rightarrow> char \<Rightarrow> 'u outcome" where
  "at_s_req_http_HT = at_letter CHR ''T'' s_req_http_HTT"

definition at_s_req_http_HTT :: "'u http_cfg \<Rightarrow> char \<Rightarrow> 'u outcome" where
  "at_s_req_http_HTT = at_letter CHR ''P'' s_req_http_HTTP"

definition at_s_req_http_HTTP :: "'u http_cfg \<Rightarrow> char \<Rightarrow> 'u outcome" where
  "at_s_req_http_HTTP = at_letter CHR ''/'' s_req_http_major"

definition at_s_req_http_major :: "'u http_cfg \<Rightarrow> char \<Rightarrow> 'u outcome" where
  "at_s_req_http_major c ch =
     (if \<not> IS_NUM ch then goto_error HPE_INVALID_VERSION c
      else Break (UPDATE_STATE s_req_http_dot (upd_parser (\<lambda>p. p\<lparr>http_major := digit ch\<rparr>) c)))"

definition at_s_req_http_dot :: "'u http_cfg \<Rightarrow> char \<Rightarrow> 'u outcome" where
  "at_s_req_http_dot c ch =
     (if ch \<noteq> CHR ''.'' then goto_error HPE_INVALID_VERSION c else Break (UPDATE_STATE s_req_http_minor c))"

definition at_s_req_http_minor :: "'u http_cfg \<Rightarrow> char \<Rightarrow> 'u outcome" where
  "at_s_req_http_minor c ch =
     (if \<not> IS_NUM ch then goto_error HPE_INVALID_VERSION c
      else Break (UPDATE_STATE s_req_http_end (upd_parser (\<lambda>p. p\<lparr>http_minor := digit ch\<rparr>) c)))"

definition at_s_req_http_end :: "'u http_cfg \<Rightarrow> char \<Rightarrow> 'u outcome" where
  "at_s_req_http_end c ch =
     (if ch = CR then Break (UPDATE_STATE s_req_line_almost_done c)
      else if ch = LF then Break (UPDATE_STATE s_header_field_start c)
      else goto_error HPE_INVALID_VERSION c)"

definition at_s_req_line_almost_done :: "'u http_cfg \<Rightarrow> char \<Rightarrow> 'u outcome" where
  "at_s_req_line_almost_done c ch =
     (if ch \<noteq> LF then goto_error HPE_LF_EXPECTED c else Break (UPDATE_STATE s_header_field_start c))"

section \<open>The cases of the state switch: header fields\<close>

abbreviation CONNECTION :: string where "CONNECTION \<equiv> ''connection''"
abbreviation PROXY_CONNECTION :: string where "PROXY_CONNECTION \<equiv> ''proxy-connection''"
abbreviation CONTENT_LENGTH :: string where "CONTENT_LENGTH \<equiv> ''content-length''"
abbreviation TRANSFER_ENCODING :: string where "TRANSFER_ENCODING \<equiv> ''transfer-encoding''"
abbreviation UPGRADE :: string where "UPGRADE \<equiv> ''upgrade''"
abbreviation CHUNKED :: string where "CHUNKED \<equiv> ''chunked''"
abbreviation KEEP_ALIVE :: string where "KEEP_ALIVE \<equiv> ''keep-alive''"
abbreviation CLOSE :: string where "CLOSE \<equiv> ''close''"

definition set_header_state :: "header_states \<Rightarrow> 'u http_cfg \<Rightarrow> 'u http_cfg" where
  "set_header_state h = upd_parser (\<lambda>p. p\<lparr>header_state := h\<rparr>)"

definition at_s_header_field_start :: "'u http_cfg \<Rightarrow> char \<Rightarrow> 'u outcome" where
  "at_s_header_field_start c ch =
     (if ch = CR then Break (UPDATE_STATE s_headers_almost_done c)
      else if ch = LF then Reexecute (UPDATE_STATE s_headers_almost_done c) ch
      else let x = TOKEN ch in
        if x = nul then goto_error HPE_INVALID_HEADER_TOKEN c
        else let c1 = UPDATE_STATE s_header_field (upd_parser (\<lambda>p. p\<lparr>index := 0\<rparr>) (MARK header_field_mark c)) in
          Break (set_header_state
            (if x = CHR ''c'' then h_C
             else if x = CHR ''p'' then h_matching_proxy_connection
             else if x = CHR ''t'' then h_matching_transfer_encoding
             else if x = CHR ''u'' then h_matching_upgrade
             else h_general) c1))"

text \<open>
  One more character of a word the parser is looking for, at position \<open>i\<close> after
  \<^verbatim>\<open>parser->index++\<close>: the state after a mismatch, at the last character, or in between.
\<close>

definition match_word :: "string \<Rightarrow> nat \<Rightarrow> char \<Rightarrow> header_states \<Rightarrow> header_states \<Rightarrow> header_states \<Rightarrow> header_states" where
  "match_word w i x fail done cont =
     (if length w < i \<or> str_at w i \<noteq> Some x then fail else if i = length w - 1 then done else cont)"

text \<open>The switch on the header state for a character of a field name; \<^term>\<open>None\<close> fails its assertion.\<close>

definition header_field_step :: "char \<Rightarrow> char \<Rightarrow> header_states \<Rightarrow> nat \<Rightarrow> (header_states \<times> nat) option" where
  "header_field_step ch x h i =
     (let i' = (i + 1) mod 128 in
      case h of
        h_general \<Rightarrow> Some (h_general, i)
      | h_C \<Rightarrow> Some (if x = CHR ''o'' then h_CO else h_general, i')
      | h_CO \<Rightarrow> Some (if x = CHR ''n'' then h_CON else h_general, i')
      | h_CON \<Rightarrow>
          Some (if x = CHR ''n'' then h_matching_connection
                else if x = CHR ''t'' then h_matching_content_length else h_general, i')
      | h_matching_connection \<Rightarrow> Some (match_word CONNECTION i' x h_general h_connection h, i')
      | h_matching_proxy_connection \<Rightarrow> Some (match_word PROXY_CONNECTION i' x h_general h_connection h, i')
      | h_matching_content_length \<Rightarrow> Some (match_word CONTENT_LENGTH i' x h_general h_content_length h, i')
      | h_matching_transfer_encoding \<Rightarrow> Some (match_word TRANSFER_ENCODING i' x h_general h_transfer_encoding h, i')
      | h_matching_upgrade \<Rightarrow> Some (match_word UPGRADE i' x h_general h_upgrade h, i')
      | h_connection \<Rightarrow> Some (if ch \<noteq> SP then h_general else h, i)
      | h_content_length \<Rightarrow> Some (if ch \<noteq> SP then h_general else h, i)
      | h_transfer_encoding \<Rightarrow> Some (if ch \<noteq> SP then h_general else h, i)
      | h_upgrade \<Rightarrow> Some (if ch \<noteq> SP then h_general else h, i)
      | _ \<Rightarrow> None)"

text \<open>The loop over the field name: how far it gets, the last character read, header state and index.\<close>

fun header_field_loop :: "string \<Rightarrow> char \<Rightarrow> header_states \<Rightarrow> nat \<Rightarrow> (nat \<times> char \<times> header_states \<times> nat) option" where
  "header_field_loop [] ch h i = Some (0, ch, h, i)"
| "header_field_loop (x # xs) ch h i =
     (if TOKEN x = nul then Some (0, x, h, i)
      else case header_field_step x (TOKEN x) h i of
        None \<Rightarrow> None
      | Some (h', i') \<Rightarrow> map_option (\<lambda>(n, r). (Suc n, r)) (header_field_loop xs x h' i'))"

definition at_s_header_field :: "'u env \<Rightarrow> 'u http_cfg \<Rightarrow> char \<Rightarrow> 'u outcome" where
  "at_s_header_field e c ch =
     (case header_field_loop (drop (pos c) (snd e)) ch (header_state (prs c)) (index (prs c)) of
        None \<Rightarrow> Abort
      | Some (n, ch', h, i) \<Rightarrow>
          COUNT_HEADER_SIZE n ((upd_parser (\<lambda>p. p\<lparr>header_state := h, index := i\<rparr>) c)\<lparr>pos := pos c + n\<rparr>)
            (\<lambda>c. if pos c = length (snd e) then Break (c\<lparr>pos := pos c - 1\<rparr>)
                 else if ch' = CHR '':''
                 then CALLBACK_DATA e header_field_mark (UPDATE_STATE s_header_value_discard_ws c) Break
                 else goto_error HPE_INVALID_HEADER_TOKEN c))"

section \<open>The cases of the state switch: header values\<close>

definition at_s_header_value_start :: "'u http_cfg \<Rightarrow> char \<Rightarrow> 'u outcome" where
  "at_s_header_value_start c ch =
     (let c1 = upd_parser (\<lambda>p. p\<lparr>index := 0\<rparr>) (UPDATE_STATE s_header_value (MARK header_value_mark c));
          x = LOWER ch
      in case header_state (prs c1) of
           h_upgrade \<Rightarrow> Break (set_header_state h_general (upd_parser (set_flag F_UPGRADE) c1))
         | h_transfer_encoding \<Rightarrow>
             Break (set_header_state (if x = CHR ''c'' then h_matching_transfer_encoding_chunked else h_general) c1)
         | h_content_length \<Rightarrow>
             if \<not> IS_NUM ch then goto_error HPE_INVALID_CONTENT_LENGTH c1
             else if flag F_CONTENTLENGTH (prs c1) then goto_error HPE_UNEXPECTED_CONTENT_LENGTH c1
             else Break (set_header_state h_content_length_num
                    (upd_parser (\<lambda>p. p\<lparr>content_length := digit ch\<rparr>) (upd_parser (set_flag F_CONTENTLENGTH) c1)))
         | h_connection \<Rightarrow>
             Break (set_header_state
               (if x = CHR ''k'' then h_matching_connection_keep_alive
                else if x = CHR ''c'' then h_matching_connection_close
                else if x = CHR ''u'' then h_matching_connection_upgrade
                else h_matching_connection_token) c1)
         | h_matching_connection_token_start \<Rightarrow> Break c1
         | _ \<Rightarrow> Break (set_header_state h_general c1))"

definition at_s_header_value_discard_ws :: "'u http_cfg \<Rightarrow> char \<Rightarrow> 'u outcome" where
  "at_s_header_value_discard_ws c ch =
     (if ch = SP \<or> ch = TAB then Break c
      else if ch = CR then Break (UPDATE_STATE s_header_value_discard_ws_almost_done c)
      else if ch = LF then Break (UPDATE_STATE s_header_value_discard_lws c)
      else at_s_header_value_start c ch)"

definition memchr :: "char \<Rightarrow> string \<Rightarrow> nat \<Rightarrow> nat option" where
  "memchr x xs limit =
     (let ys = take limit xs; n = length (takeWhile (\<lambda>y. y \<noteq> x) ys) in if n < length ys then Some n else None)"

text \<open>In \<^verbatim>\<open>h_general\<close> the loop skips to the next line end within the limit, or to the end of the buffer.\<close>

definition skip_general :: "string \<Rightarrow> nat" where
  "skip_general xs =
     (let limit = min (length xs) HTTP_MAX_HEADER_SIZE
      in case (memchr CR xs limit, memchr LF xs limit) of
           (Some cr, Some lf) \<Rightarrow> if lf \<le> cr then lf else cr
         | (Some cr, None) \<Rightarrow> cr
         | (None, Some lf) \<Rightarrow> lf
         | (None, None) \<Rightarrow> length xs)"

datatype value_step = VGo header_states http_parser | VError http_errno header_states | VAbort

definition content_length_digit :: "char \<Rightarrow> header_states \<Rightarrow> http_parser \<Rightarrow> value_step" where
  "content_length_digit ch h p =
     (if ch = SP then VGo h_content_length_ws p
      else if \<not> IS_NUM ch then VError HPE_INVALID_CONTENT_LENGTH h
      else let t = (content_length p * 10 mod 2 ^ 64 + digit ch) mod 2 ^ 64 in
        if (ULLONG_MAX - 10) div 10 < content_length p then VError HPE_INVALID_CONTENT_LENGTH h
        else VGo h (p\<lparr>content_length := t\<rparr>))"

definition connection_flag :: "header_states \<Rightarrow> http_parser \<Rightarrow> http_parser" where
  "connection_flag h p =
     (case h of
        h_connection_keep_alive \<Rightarrow> set_flag F_CONNECTION_KEEP_ALIVE p
      | h_connection_close \<Rightarrow> set_flag F_CONNECTION_CLOSE p
      | h_connection_upgrade \<Rightarrow> set_flag F_CONNECTION_UPGRADE p
      | _ \<Rightarrow> p)"

definition connection_done :: "char \<Rightarrow> header_states \<Rightarrow> http_parser \<Rightarrow> value_step" where
  "connection_done ch h p =
     (if ch = CHR '','' then VGo h_matching_connection_token_start ((connection_flag h p)\<lparr>index := 0\<rparr>)
      else if ch \<noteq> SP then VGo h_matching_connection_token p
      else VGo h p)"

text \<open>
  The switch on the header state for a character of a value, \<^verbatim>\<open>h_general\<close> apart. Its default case
  also sets \<^verbatim>\<open>p_state\<close> to \<^verbatim>\<open>s_header_value\<close>, the value it has there.
\<close>

definition header_value_step :: "char \<Rightarrow> header_states \<Rightarrow> http_parser \<Rightarrow> value_step" where
  "header_value_step ch h p =
     (let x = LOWER ch; p' = incr_index p in
      case h of
        h_connection \<Rightarrow> VAbort
      | h_transfer_encoding \<Rightarrow> VAbort
      | h_content_length \<Rightarrow> if ch = SP then VGo h p else content_length_digit ch h_content_length_num p
      | h_content_length_num \<Rightarrow> content_length_digit ch h p
      | h_content_length_ws \<Rightarrow> if ch = SP then VGo h p else VError HPE_INVALID_CONTENT_LENGTH h
      | h_matching_transfer_encoding_chunked \<Rightarrow>
          VGo (match_word CHUNKED (index p') x h_general h_transfer_encoding_chunked h) p'
      | h_matching_connection_token_start \<Rightarrow>
          VGo (if x = CHR ''k'' then h_matching_connection_keep_alive
               else if x = CHR ''c'' then h_matching_connection_close
               else if x = CHR ''u'' then h_matching_connection_upgrade
               else if STRICT_TOKEN x \<noteq> nul then h_matching_connection_token
               else if x = SP \<or> x = TAB then h
               else h_general) p
      | h_matching_connection_keep_alive \<Rightarrow>
          VGo (match_word KEEP_ALIVE (index p') x h_matching_connection_token h_connection_keep_alive h) p'
      | h_matching_connection_close \<Rightarrow>
          VGo (match_word CLOSE (index p') x h_matching_connection_token h_connection_close h) p'
      | h_matching_connection_upgrade \<Rightarrow>
          VGo (match_word UPGRADE (index p') x h_matching_connection_token h_connection_upgrade h) p'
      | h_matching_connection_token \<Rightarrow>
          if ch = CHR '','' then VGo h_matching_connection_token_start (p\<lparr>index := 0\<rparr>) else VGo h p
      | h_transfer_encoding_chunked \<Rightarrow> VGo (if ch \<noteq> SP then h_general else h) p
      | h_connection_keep_alive \<Rightarrow> connection_done ch h p
      | h_connection_close \<Rightarrow> connection_done ch h p
      | h_connection_upgrade \<Rightarrow> connection_done ch h p
      | _ \<Rightarrow> VGo h_general p)"

text \<open>After the loop of \<^verbatim>\<open>s_header_value\<close>, which started at \<open>start\<close>.\<close>

definition header_value_end :: "'u env \<Rightarrow> nat \<Rightarrow> header_states \<Rightarrow> 'u http_cfg \<Rightarrow> 'u outcome" where
  "header_value_end e start h c =
     COUNT_HEADER_SIZE (pos c - start) (set_header_state h c)
       (\<lambda>c. if pos c = length (snd e) then Break (c\<lparr>pos := pos c - 1\<rparr>) else Break c)"

lemma skip_general_pos:
  "x \<noteq> CR \<Longrightarrow> x \<noteq> LF \<Longrightarrow> 0 < skip_general (x # xs)"
  by (auto simp: skip_general_def memchr_def Let_def HTTP_MAX_HEADER_SIZE_def take_Cons' split: option.splits if_splits)

function header_value_loop :: "'u env \<Rightarrow> nat \<Rightarrow> string \<Rightarrow> header_states \<Rightarrow> 'u http_cfg \<Rightarrow> 'u outcome" where
  "header_value_loop e start [] h c = header_value_end e start h c"
| "header_value_loop e start (ch # xs) h c =
     (if ch = CR
      then CALLBACK_DATA e header_value_mark (set_header_state h (UPDATE_STATE s_header_almost_done c))
             (header_value_end e start h)
      else if ch = LF
      then COUNT_HEADER_SIZE (pos c - start) (UPDATE_STATE s_header_almost_done c)
             (\<lambda>c. CALLBACK_DATA_NOADVANCE e header_value_mark (set_header_state h c) (\<lambda>c. Reexecute c ch))
      else if \<not> lenient_http_headers (prs c) \<and> \<not> IS_HEADER_CHAR ch then goto_error HPE_INVALID_HEADER_TOKEN c
      else if h = h_general
      then (let n = skip_general (ch # xs)
            in header_value_loop e start (drop n (ch # xs)) h (c\<lparr>pos := pos c + n\<rparr>))
      else case header_value_step ch h (prs c) of
        VGo h' p \<Rightarrow> header_value_loop e start xs h' (c\<lparr>prs := p, pos := pos c + 1\<rparr>)
      | VError err h' \<Rightarrow> goto_error err (set_header_state h' c)
      | VAbort \<Rightarrow> Abort)"
  by pat_completeness auto
termination
  by (relation "measure (\<lambda>(e, start, xs, h, c). length xs)") (auto intro!: diff_less skip_general_pos)

declare header_value_loop.simps(2) [simp del]

definition at_s_header_value :: "'u env \<Rightarrow> 'u http_cfg \<Rightarrow> 'u outcome" where
  "at_s_header_value e c = header_value_loop e (pos c) (drop (pos c) (snd e)) (header_state (prs c)) c"

definition at_s_header_almost_done :: "'u http_cfg \<Rightarrow> char \<Rightarrow> 'u outcome" where
  "at_s_header_almost_done c ch =
     (if ch \<noteq> LF then goto_error HPE_LF_EXPECTED c else Break (UPDATE_STATE s_header_value_lws c))"

definition finish_header :: "http_parser \<Rightarrow> http_parser" where
  "finish_header p =
     (if header_state p = h_transfer_encoding_chunked then set_flag F_CHUNKED p
      else connection_flag (header_state p) p)"

definition at_s_header_value_lws :: "'u http_cfg \<Rightarrow> char \<Rightarrow> 'u outcome" where
  "at_s_header_value_lws c ch =
     (if ch = SP \<or> ch = TAB then Reexecute (UPDATE_STATE s_header_value_start c) ch
      else Reexecute (UPDATE_STATE s_header_field_start (upd_parser finish_header c)) ch)"

definition at_s_header_value_discard_ws_almost_done :: "'u http_cfg \<Rightarrow> char \<Rightarrow> 'u outcome" where
  "at_s_header_value_discard_ws_almost_done = at_letter LF s_header_value_discard_lws"

definition at_s_header_value_discard_lws :: "'u env \<Rightarrow> 'u http_cfg \<Rightarrow> char \<Rightarrow> 'u outcome" where
  "at_s_header_value_discard_lws e c ch =
     (if ch = SP \<or> ch = TAB then Break (UPDATE_STATE s_header_value_discard_ws c)
      else CALLBACK_DATA_NOADVANCE e header_value_mark
             (UPDATE_STATE s_header_field_start (MARK header_value_mark (upd_parser finish_header c)))
             (\<lambda>c. Reexecute c ch))"

section \<open>The cases of the state switch: end of headers and body\<close>

definition announce_upgrade :: "http_parser \<Rightarrow> http_parser" where
  "announce_upgrade p =
     p\<lparr>upgrade := (if flag F_UPGRADE p \<and> flag F_CONNECTION_UPGRADE p
                   then type_of p = HTTP_REQUEST \<or> status_code p = 101
                   else method_of p = HTTP_CONNECT)\<rparr>"

text \<open>The \<^verbatim>\<open>on_headers_complete\<close> callback: 1 and 2 announce that there is no body.\<close>

definition headers_complete_callback ::
  "'u env \<Rightarrow> 'u http_cfg \<Rightarrow> ('u http_cfg \<Rightarrow> 'u outcome) \<Rightarrow> 'u outcome" where
  "headers_complete_callback e c k =
     (case on_headers_complete (fst e) of
        None \<Rightarrow> k c
      | Some f \<Rightarrow>
          (let (r, u) = f (prs c) (user c); c1 = c\<lparr>user := u\<rparr> in
           if r = 0 then k c1
           else if r = 2 then k (upd_parser (set_flag F_SKIPBODY) (upd_parser (\<lambda>p. p\<lparr>upgrade := True\<rparr>) c1))
           else if r = 1 then k (upd_parser (set_flag F_SKIPBODY) c1)
           else RETURN (pos c1) (SET_ERRNO HPE_CB_headers_complete c1)))"

definition at_s_headers_almost_done :: "'u env \<Rightarrow> 'u http_cfg \<Rightarrow> char \<Rightarrow> 'u outcome" where
  "at_s_headers_almost_done e c ch =
     STRICT_CHECK (ch \<noteq> LF) c
       (\<lambda>c. if flag F_TRAILING (prs c)
            then CALLBACK_NOTIFY_NOADVANCE (on_chunk_complete (fst e)) HPE_CB_chunk_complete
                   (UPDATE_STATE s_message_done c) (\<lambda>c. Reexecute c ch)
            else if flag F_CHUNKED (prs c) \<and> flag F_CONTENTLENGTH (prs c)
            then goto_error HPE_UNEXPECTED_CONTENT_LENGTH c
            else headers_complete_callback e (upd_parser announce_upgrade (UPDATE_STATE s_headers_done c))
                   (\<lambda>c. if http_errno (prs c) \<noteq> HPE_OK then RETURN (pos c) c else Reexecute c ch))"

definition message_complete :: "'u env \<Rightarrow> 'u http_cfg \<Rightarrow> ('u http_cfg \<Rightarrow> 'u outcome) \<Rightarrow> 'u outcome" where
  "message_complete e c k =
     CALLBACK_NOTIFY (on_message_complete (fst e)) HPE_CB_message_complete (UPDATE_STATE (NEW_MESSAGE c) c) k"

definition at_s_headers_done :: "'u env \<Rightarrow> 'u http_cfg \<Rightarrow> char \<Rightarrow> 'u outcome" where
  "at_s_headers_done e c ch =
     STRICT_CHECK (ch \<noteq> LF) c
       (\<lambda>c. let c1 = upd_parser (\<lambda>p. p\<lparr>nread := 0\<rparr>) c;
                p = prs c1;
                hasBody = (flag F_CHUNKED p \<or> (0 < content_length p \<and> content_length p \<noteq> ULLONG_MAX))
            in if upgrade p \<and> (method_of p = HTTP_CONNECT \<or> flag F_SKIPBODY p \<or> \<not> hasBody)
               then message_complete e c1 (\<lambda>c. RETURN (pos c + 1) c)
               else if flag F_SKIPBODY p then message_complete e c1 Break
               else if flag F_CHUNKED p then Break (UPDATE_STATE s_chunk_size_start c1)
               else if content_length p = 0 then message_complete e c1 Break
               else if content_length p \<noteq> ULLONG_MAX then Break (UPDATE_STATE s_body_identity c1)
               else if \<not> http_message_needs_eof p then message_complete e c1 Break
               else Break (UPDATE_STATE s_body_identity_eof c1))"

definition to_read :: "'u env \<Rightarrow> 'u http_cfg \<Rightarrow> nat" where
  "to_read e c = min (content_length (prs c)) (length (snd e) - pos c)"

text \<open>Both body states take what is there: the mark, the rest of the length, \<^verbatim>\<open>p += to_read - 1\<close>.\<close>

definition take_body :: "'u env \<Rightarrow> 'u http_cfg \<Rightarrow> 'u http_cfg" where
  "take_body e c =
     (let n = to_read e c; c1 = MARK body_mark c
      in (upd_parser (\<lambda>p. p\<lparr>content_length := content_length p - n\<rparr>) c1)\<lparr>pos := pos c1 + n - 1\<rparr>)"

definition at_s_body_identity :: "'u env \<Rightarrow> 'u http_cfg \<Rightarrow> char \<Rightarrow> 'u outcome" where
  "at_s_body_identity e c ch =
     assert (content_length (prs c) \<noteq> 0 \<and> content_length (prs c) \<noteq> ULLONG_MAX)
       (let c1 = take_body e c in
        if content_length (prs c1) = 0
        then CALLBACK_DATA_gen e body_mark (pos c1 + 1) (pos c1) (UPDATE_STATE s_message_done c1) (\<lambda>c. Reexecute c ch)
        else Break c1)"

definition at_s_body_identity_eof :: "'u env \<Rightarrow> 'u http_cfg \<Rightarrow> 'u outcome" where
  "at_s_body_identity_eof e c = Break ((MARK body_mark c)\<lparr>pos := length (snd e) - 1\<rparr>)"

definition at_s_message_done :: "'u env \<Rightarrow> 'u http_cfg \<Rightarrow> 'u outcome" where
  "at_s_message_done e c =
     message_complete e c (\<lambda>c. if upgrade (prs c) then RETURN (pos c + 1) c else Break c)"

definition at_s_chunk_size_start :: "'u http_cfg \<Rightarrow> char \<Rightarrow> 'u outcome" where
  "at_s_chunk_size_start c ch =
     assert (nread (prs c) = 1) (assert (flag F_CHUNKED (prs c))
       (let unhex_val = unhex ! code ch in
        if unhex_val = -1 then goto_error HPE_INVALID_CHUNK_SIZE c
        else Break (UPDATE_STATE s_chunk_size (upd_parser (\<lambda>p. p\<lparr>content_length := nat unhex_val\<rparr>) c))))"

definition at_s_chunk_size :: "'u http_cfg \<Rightarrow> char \<Rightarrow> 'u outcome" where
  "at_s_chunk_size c ch =
     assert (flag F_CHUNKED (prs c))
       (if ch = CR then Break (UPDATE_STATE s_chunk_size_almost_done c)
        else let unhex_val = unhex ! code ch in
          if unhex_val = -1
          then (if ch = CHR '';'' \<or> ch = SP then Break (UPDATE_STATE s_chunk_parameters c)
                else goto_error HPE_INVALID_CHUNK_SIZE c)
          else let t = (content_length (prs c) * 16 mod 2 ^ 64 + nat unhex_val) mod 2 ^ 64 in
            if (ULLONG_MAX - 16) div 16 < content_length (prs c) then goto_error HPE_INVALID_CONTENT_LENGTH c
            else Break (upd_parser (\<lambda>p. p\<lparr>content_length := t\<rparr>) c))"

definition at_s_chunk_parameters :: "'u http_cfg \<Rightarrow> char \<Rightarrow> 'u outcome" where
  "at_s_chunk_parameters c ch =
     assert (flag F_CHUNKED (prs c))
       (if ch = CR then Break (UPDATE_STATE s_chunk_size_almost_done c) else Break c)"

definition at_s_chunk_size_almost_done :: "'u env \<Rightarrow> 'u http_cfg \<Rightarrow> char \<Rightarrow> 'u outcome" where
  "at_s_chunk_size_almost_done e c ch =
     assert (flag F_CHUNKED (prs c))
       (STRICT_CHECK (ch \<noteq> LF) c
         (\<lambda>c. let c1 = upd_parser (\<lambda>p. p\<lparr>nread := 0\<rparr>) c;
                  c2 = (if content_length (prs c1) = 0
                        then UPDATE_STATE s_header_field_start (upd_parser (set_flag F_TRAILING) c1)
                        else UPDATE_STATE s_chunk_data c1)
              in CALLBACK_NOTIFY (on_chunk_header (fst e)) HPE_CB_chunk_header c2 Break))"

definition at_s_chunk_data :: "'u env \<Rightarrow> 'u http_cfg \<Rightarrow> 'u outcome" where
  "at_s_chunk_data e c =
     assert (flag F_CHUNKED (prs c))
       (assert (content_length (prs c) \<noteq> 0 \<and> content_length (prs c) \<noteq> ULLONG_MAX)
         (let c1 = take_body e c
          in Break (if content_length (prs c1) = 0 then UPDATE_STATE s_chunk_data_almost_done c1 else c1)))"

definition at_s_chunk_data_almost_done :: "'u env \<Rightarrow> 'u http_cfg \<Rightarrow> char \<Rightarrow> 'u outcome" where
  "at_s_chunk_data_almost_done e c ch =
     assert (flag F_CHUNKED (prs c))
       (assert (content_length (prs c) = 0)
         (STRICT_CHECK (ch \<noteq> CR) c (\<lambda>c. CALLBACK_DATA e body_mark (UPDATE_STATE s_chunk_data_done c) Break)))"

definition at_s_chunk_data_done :: "'u env \<Rightarrow> 'u http_cfg \<Rightarrow> char \<Rightarrow> 'u outcome" where
  "at_s_chunk_data_done e c ch =
     assert (flag F_CHUNKED (prs c))
       (STRICT_CHECK (ch \<noteq> LF) c
         (\<lambda>c. CALLBACK_NOTIFY (on_chunk_complete (fst e)) HPE_CB_chunk_complete
                (UPDATE_STATE s_chunk_size_start (upd_parser (\<lambda>p. p\<lparr>nread := 0\<rparr>) c)) Break))"

section \<open>The state switch\<close>

definition switch_state :: "'u env \<Rightarrow> 'u http_cfg \<Rightarrow> char \<Rightarrow> 'u outcome" where
  "switch_state e c ch =
     (case p_state c of
        s_dead \<Rightarrow> at_s_dead c ch
      | s_start_req_or_res \<Rightarrow> at_s_start_req_or_res e c ch
      | s_res_or_resp_H \<Rightarrow> at_s_res_or_resp_H c ch
      | s_start_res \<Rightarrow> at_s_start_res e c ch
      | s_res_H \<Rightarrow> at_s_res_H c ch
      | s_res_HT \<Rightarrow> at_s_res_HT c ch
      | s_res_HTT \<Rightarrow> at_s_res_HTT c ch
      | s_res_HTTP \<Rightarrow> at_s_res_HTTP c ch
      | s_res_http_major \<Rightarrow> at_s_res_http_major c ch
      | s_res_http_dot \<Rightarrow> at_s_res_http_dot c ch
      | s_res_http_minor \<Rightarrow> at_s_res_http_minor c ch
      | s_res_http_end \<Rightarrow> at_s_res_http_end c ch
      | s_res_first_status_code \<Rightarrow> at_s_res_first_status_code c ch
      | s_res_status_code \<Rightarrow> at_s_res_status_code c ch
      | s_res_status_start \<Rightarrow> at_s_res_status_start c ch
      | s_res_status \<Rightarrow> at_s_res_status e c ch
      | s_res_line_almost_done \<Rightarrow> at_s_res_line_almost_done c ch
      | s_start_req \<Rightarrow> at_s_start_req e c ch
      | s_req_method \<Rightarrow> at_s_req_method c ch
      | s_req_spaces_before_url \<Rightarrow> at_s_req_spaces_before_url c ch
      | s_req_schema \<Rightarrow> at_s_req_schema c ch
      | s_req_schema_slash \<Rightarrow> at_s_req_schema c ch
      | s_req_schema_slash_slash \<Rightarrow> at_s_req_schema c ch
      | s_req_server_start \<Rightarrow> at_s_req_schema c ch
      | s_req_server \<Rightarrow> at_s_req_server e c ch
      | s_req_server_with_at \<Rightarrow> at_s_req_server e c ch
      | s_req_path \<Rightarrow> at_s_req_server e c ch
      | s_req_query_string_start \<Rightarrow> at_s_req_server e c ch
      | s_req_query_string \<Rightarrow> at_s_req_server e c ch
      | s_req_fragment_start \<Rightarrow> at_s_req_server e c ch
      | s_req_fragment \<Rightarrow> at_s_req_server e c ch
      | s_req_http_start \<Rightarrow> at_s_req_http_start c ch
      | s_req_http_H \<Rightarrow> at_s_req_http_H c ch
      | s_req_http_HT \<Rightarrow> at_s_req_http_HT c ch
      | s_req_http_HTT \<Rightarrow> at_s_req_http_HTT c ch
      | s_req_http_HTTP \<Rightarrow> at_s_req_http_HTTP c ch
      | s_req_http_major \<Rightarrow> at_s_req_http_major c ch
      | s_req_http_dot \<Rightarrow> at_s_req_http_dot c ch
      | s_req_http_minor \<Rightarrow> at_s_req_http_minor c ch
      | s_req_http_end \<Rightarrow> at_s_req_http_end c ch
      | s_req_line_almost_done \<Rightarrow> at_s_req_line_almost_done c ch
      | s_header_field_start \<Rightarrow> at_s_header_field_start c ch
      | s_header_field \<Rightarrow> at_s_header_field e c ch
      | s_header_value_discard_ws \<Rightarrow> at_s_header_value_discard_ws c ch
      | s_header_value_discard_ws_almost_done \<Rightarrow> at_s_header_value_discard_ws_almost_done c ch
      | s_header_value_discard_lws \<Rightarrow> at_s_header_value_discard_lws e c ch
      | s_header_value_start \<Rightarrow> at_s_header_value_start c ch
      | s_header_value \<Rightarrow> at_s_header_value e c
      | s_header_value_lws \<Rightarrow> at_s_header_value_lws c ch
      | s_header_almost_done \<Rightarrow> at_s_header_almost_done c ch
      | s_chunk_size_start \<Rightarrow> at_s_chunk_size_start c ch
      | s_chunk_size \<Rightarrow> at_s_chunk_size c ch
      | s_chunk_parameters \<Rightarrow> at_s_chunk_parameters c ch
      | s_chunk_size_almost_done \<Rightarrow> at_s_chunk_size_almost_done e c ch
      | s_headers_almost_done \<Rightarrow> at_s_headers_almost_done e c ch
      | s_headers_done \<Rightarrow> at_s_headers_done e c ch
      | s_chunk_data \<Rightarrow> at_s_chunk_data e c
      | s_chunk_data_almost_done \<Rightarrow> at_s_chunk_data_almost_done e c ch
      | s_chunk_data_done \<Rightarrow> at_s_chunk_data_done e c ch
      | s_body_identity \<Rightarrow> at_s_body_identity e c ch
      | s_body_identity_eof \<Rightarrow> at_s_body_identity_eof e c
      | s_message_done \<Rightarrow> at_s_message_done e c)"

section \<open>Reasoning about outcomes\<close>

text \<open>
  \<open>oc B X R A out\<close>: the outcome satisfies \<open>B\<close> when the case breaks, \<open>X\<close> when it executes the
  switch again, \<open>R\<close> when it returns, and may abort only if \<open>A\<close>. The rules push it through the macros.
\<close>

primrec oc ::
  "('u http_cfg \<Rightarrow> bool) \<Rightarrow> ('u http_cfg \<Rightarrow> char \<Rightarrow> bool) \<Rightarrow> ('u http_cfg \<Rightarrow> nat \<Rightarrow> bool) \<Rightarrow> bool \<Rightarrow> 'u outcome \<Rightarrow> bool"
where
  "oc B X R A (Break c) = B c"
| "oc B X R A (Reexecute c ch) = X c ch"
| "oc B X R A (Return c n) = R c n"
| "oc B X R A Abort = A"

lemma oc_mono:
  assumes "oc B X R A out" and "\<And>c. B c \<Longrightarrow> B' c" and "\<And>c ch. X c ch \<Longrightarrow> X' c ch" and "\<And>c n. R c n \<Longrightarrow> R' c n"
    and "A \<Longrightarrow> A'"
  shows "oc B' X' R' A' out"
  using assms by (cases out) auto

lemmas state_simps = upd_parser_def UPDATE_STATE_def SET_ERRNO_def set_header_state_def

lemma oc_RETURN [simp]:
  "oc B X R A (RETURN v c) = R (c\<lparr>prs := (prs c)\<lparr>pstate := p_state c\<rparr>\<rparr>) v"
  by (simp add: RETURN_def state_simps)

lemma oc_goto_error [simp]:
  "oc B X R A (goto_error err c) =
     R (c\<lparr>prs := (prs c)\<lparr>http_errno := (if err = HPE_OK then HPE_UNKNOWN else err), pstate := p_state c\<rparr>\<rparr>) (pos c)"
  by (simp add: goto_error_def error_label_def state_simps)

lemma oc_COUNT_HEADER_SIZE [simp]:
  "oc B X R A (COUNT_HEADER_SIZE v c k) =
     (let n = (nread (prs c) + v) mod 2 ^ 32
      in if HTTP_MAX_HEADER_SIZE < n
         then R (c\<lparr>prs := (prs c)\<lparr>nread := n, http_errno := HPE_HEADER_OVERFLOW, pstate := p_state c\<rparr>\<rparr>) (pos c)
         else oc B X R A (k (c\<lparr>prs := (prs c)\<lparr>nread := n\<rparr>\<rparr>)))"
  by (simp add: COUNT_HEADER_SIZE_def Let_def state_simps)

lemma oc_STRICT_CHECK [simp]:
  "oc B X R A (STRICT_CHECK b c k) =
     (if b then R (c\<lparr>prs := (prs c)\<lparr>http_errno := HPE_STRICT, pstate := p_state c\<rparr>\<rparr>) (pos c)
      else oc B X R A (k c))"
  by (simp add: STRICT_CHECK_def)

lemma oc_assert [simp]:
  "oc B X R A (assert b k) = (if b then oc B X R A k else A)"
  by (simp add: assert_def)

text \<open>A callback that succeeds leaves everything but the application data and the saved state.\<close>

lemma oc_CALLBACK_NOTIFY_gen:
  assumes "\<And>u s. oc B X R A (k (c\<lparr>prs := (prs c)\<lparr>pstate := s\<rparr>, user := u\<rparr>))"
    and "\<And>u. R (c\<lparr>prs := (prs c)\<lparr>http_errno := err, pstate := p_state c\<rparr>, user := u\<rparr>) er"
    and "http_errno (prs c) = HPE_OK \<or> A" and "err \<noteq> HPE_OK"
  shows "oc B X R A (CALLBACK_NOTIFY_gen cb err er c k)"
proof (cases "http_errno (prs c) = HPE_OK")
  case ok: True
  show ?thesis
  proof (cases cb)
    case None
    then show ?thesis using ok assms(1) [of "user c" "pstate (prs c)"] by (simp add: CALLBACK_NOTIFY_gen_def)
  next
    case (Some f)
    obtain r u where f: "f ((prs c)\<lparr>pstate := p_state c\<rparr>) (user c) = (r, u)" by fastforce
    have "CALLBACK_NOTIFY_gen cb err er c k =
      (if r \<noteq> 0 then Return (c\<lparr>prs := (prs c)\<lparr>http_errno := err, pstate := p_state c\<rparr>, user := u\<rparr>) er
       else k (c\<lparr>prs := (prs c)\<lparr>pstate := p_state c\<rparr>, user := u\<rparr>))"
      using ok Some f assms(4) by (cases c) (simp add: CALLBACK_NOTIFY_gen_def state_simps)
    then show ?thesis using assms(1,2) by simp
  qed
next
  case False
  then show ?thesis using assms(3) by (simp add: CALLBACK_NOTIFY_gen_def)
qed

lemma oc_CALLBACK_DATA_gen:
  assumes "\<And>u s. oc B X R A (k (c\<lparr>prs := (prs c)\<lparr>pstate := s\<rparr>, user := u, marks := (marks c)(m := None)\<rparr>))"
    and "\<And>u err. err \<noteq> HPE_OK \<Longrightarrow> R (c\<lparr>prs := (prs c)\<lparr>http_errno := err, pstate := p_state c\<rparr>, user := u\<rparr>) er"
    and "http_errno (prs c) = HPE_OK \<or> A"
    and "\<And>at. marks c m = Some at \<Longrightarrow> (at \<le> stop \<and> stop \<le> length (snd e)) \<or> A"
  shows "oc B X R A (CALLBACK_DATA_gen e m stop er c k)"
proof (cases "http_errno (prs c) = HPE_OK")
  case ok: True
  obtain cb err where cb: "data_cb (fst e) m = (cb, err)" by fastforce
  then have err: "err \<noteq> HPE_OK" by (auto simp: data_cb_def split: mark.splits)
  show ?thesis
  proof (cases "marks c m")
    case None
    then have "(marks c)(m := None) = marks c" by auto
    then show ?thesis
      using None ok assms(1) [of "user c" "pstate (prs c)"] by (simp add: CALLBACK_DATA_gen_def)
  next
    case at: (Some at)
    show ?thesis
    proof (cases cb)
      case None
      then show ?thesis
        using at ok cb assms(1) [of "user c" "pstate (prs c)"] by (simp add: CALLBACK_DATA_gen_def)
    next
      case (Some f)
      obtain r u where f: "f ((prs c)\<lparr>pstate := p_state c\<rparr>) (take (stop - at) (drop at (snd e))) (user c) = (r, u)"
        by fastforce
      have "CALLBACK_DATA_gen e m stop er c k =
        (if stop < at \<or> length (snd e) < stop then Abort
         else if r \<noteq> 0 then Return (c\<lparr>prs := (prs c)\<lparr>http_errno := err, pstate := p_state c\<rparr>, user := u\<rparr>) er
         else k (c\<lparr>prs := (prs c)\<lparr>pstate := p_state c\<rparr>, user := u, marks := (marks c)(m := None)\<rparr>))"
        using at ok cb Some f err by (cases c) (simp add: CALLBACK_DATA_gen_def state_simps)
      then show ?thesis using assms(1) assms(2) [OF err] assms(4) [OF at] by auto
    qed
  qed
next
  case False
  then show ?thesis using assms(3) by (simp add: CALLBACK_DATA_gen_def)
qed

lemma oc_headers_complete:
  assumes "\<And>u p. p \<in> {prs c, set_flag F_SKIPBODY (prs c), set_flag F_SKIPBODY ((prs c)\<lparr>upgrade := True\<rparr>)} \<Longrightarrow>
      oc B X R A (k (c\<lparr>prs := p, user := u\<rparr>))"
    and "\<And>u. R (c\<lparr>prs := (prs c)\<lparr>http_errno := HPE_CB_headers_complete, pstate := p_state c\<rparr>, user := u\<rparr>) (pos c)"
  shows "oc B X R A (headers_complete_callback e c k)"
proof (cases "on_headers_complete (fst e)")
  case None
  then show ?thesis using assms(1) [of "prs c" "user c"] by (simp add: headers_complete_callback_def)
next
  case (Some f)
  obtain r u where f: "f (prs c) (user c) = (r, u)" by fastforce
  show ?thesis
    using assms(1) [of "prs c" u] assms(1) [of "set_flag F_SKIPBODY (prs c)" u]
      assms(1) [of "set_flag F_SKIPBODY ((prs c)\<lparr>upgrade := True\<rparr>)" u] assms(2) f
    by (cases c) (simp add: headers_complete_callback_def Some state_simps Let_def)
qed

lemmas oc_callbacks = oc_CALLBACK_DATA_gen oc_CALLBACK_NOTIFY_gen oc_headers_complete

lemmas at_defs =
  at_s_dead_def at_s_start_req_or_res_def at_s_res_or_resp_H_def at_s_start_res_def at_letter_def
  at_s_res_H_def at_s_res_HT_def at_s_res_HTT_def at_s_res_HTTP_def at_s_res_http_major_def
  at_s_res_http_dot_def at_s_res_http_minor_def at_s_res_http_end_def at_s_res_first_status_code_def
  at_s_res_status_code_def at_s_res_status_start_def at_s_res_status_def at_s_res_line_almost_done_def
  at_s_start_req_def at_s_req_method_def at_s_req_spaces_before_url_def at_s_req_schema_def
  at_s_req_server_def url_step_def at_s_req_http_start_def at_s_req_http_H_def at_s_req_http_HT_def
  at_s_req_http_HTT_def at_s_req_http_HTTP_def at_s_req_http_major_def at_s_req_http_dot_def
  at_s_req_http_minor_def at_s_req_http_end_def at_s_req_line_almost_done_def at_s_header_field_start_def
  at_s_header_field_def at_s_header_value_start_def at_s_header_value_discard_ws_def
  at_s_header_almost_done_def at_s_header_value_lws_def at_s_header_value_discard_ws_almost_done_def
  at_s_header_value_discard_lws_def at_s_headers_almost_done_def message_complete_def at_s_headers_done_def at_s_body_identity_def at_s_body_identity_eof_def
  at_s_message_done_def at_s_chunk_size_start_def at_s_chunk_size_def at_s_chunk_parameters_def
  at_s_chunk_size_almost_done_def at_s_chunk_data_def at_s_chunk_data_almost_done_def
  at_s_chunk_data_done_def CALLBACK_NOTIFY_def CALLBACK_NOTIFY_NOADVANCE_def CALLBACK_DATA_def
  CALLBACK_DATA_NOADVANCE_def

section \<open>The switch makes progress\<close>

text \<open>How many times the switch can still be executed for the same byte.\<close>

definition rank :: "state \<Rightarrow> nat" where
  "rank s =
     (case s of
        s_header_value_lws \<Rightarrow> 4 | s_header_value_discard_lws \<Rightarrow> 4 | s_header_field_start \<Rightarrow> 3 | s_res_status_code \<Rightarrow> 3
      | s_headers_almost_done \<Rightarrow> 2 | s_res_status_start \<Rightarrow> 2 | s_start_req_or_res \<Rightarrow> 2 | s_header_value \<Rightarrow> 2
      | s_body_identity \<Rightarrow> 2 | _ \<Rightarrow> 0)"

text \<open>Executing the switch again leads to a state of smaller rank, at the same byte or a later one.\<close>

abbreviation progress :: "'u http_cfg \<Rightarrow> 'u outcome \<Rightarrow> bool" where
  "progress c \<equiv> oc (\<lambda>c'. pos c \<le> pos c') (\<lambda>c' _. pos c \<le> pos c' \<and> rank (p_state c') < rank (p_state c)) (\<lambda>_ _. True) True"

lemma MARK_simps [simp]:
  "prs (MARK m c) = prs c" "p_state (MARK m c) = p_state c" "pos (MARK m c) = pos c" "user (MARK m c) = user c"
  by (simp_all add: MARK_def)

lemma header_value_loop_progress:
  assumes "p0 \<le> pos c"
  shows "oc (\<lambda>c'. p0 \<le> pos c' \<or> length (snd e) \<le> p0)
            (\<lambda>c' _. p0 \<le> pos c' \<and> p_state c' = s_header_almost_done) (\<lambda>_ _. True) True
            (header_value_loop e start xs h c)"
  using assms
proof (induction e start xs h c rule: header_value_loop.induct)
  case (1 e start h c)
  then show ?case by (auto simp: header_value_end_def state_simps Let_def)
next
  case (2 e start ch xs h c)
  show ?case
    using 2
    by (auto simp: header_value_loop.simps(2) CALLBACK_DATA_def CALLBACK_DATA_NOADVANCE_def header_value_end_def
        state_simps Let_def split: value_step.splits intro!: oc_CALLBACK_DATA_gen)
qed

lemma take_body_simps [simp]:
  "p_state (take_body e c) = p_state c" "user (take_body e c) = user c"
  "marks (take_body e c) = marks (MARK body_mark c)"
  "prs (take_body e c) = (prs c)\<lparr>content_length := content_length (prs c) - to_read e c\<rparr>"
  "pos (take_body e c) = pos c + to_read e c - 1"
  by (simp_all add: take_body_def Let_def state_simps)

lemma switch_progress:
  assumes "pos c < length (snd e)"
  shows "progress c (switch_state e c ch)"
proof (cases "p_state c = s_header_value")
  case True
  have "rank s_header_almost_done < rank s_header_value" by (simp add: rank_def)
  then show ?thesis
    using oc_mono [OF header_value_loop_progress [of "pos c" c e]] assms
    by (simp add: switch_state_def True at_s_header_value_def)
next
  case False
  have read: "content_length (prs c) \<noteq> 0 \<Longrightarrow> 0 < to_read e c" using assms by (simp add: to_read_def)
  show ?thesis
    using assms False read
    by (cases "p_state c")
      (auto simp: switch_state_def at_defs rank_def state_simps Let_def split: option.splits header_states.splits
        intro!: oc_callbacks)
qed

section \<open>The loops of http\_parser\_execute\<close>

function reexecute :: "'u env \<Rightarrow> 'u http_cfg \<Rightarrow> char \<Rightarrow> 'u outcome" where
  "reexecute e c ch =
     (if length (snd e) \<le> pos c then Abort
      else case switch_state e c ch of
        Reexecute c' ch' \<Rightarrow> reexecute e c' ch'
      | out \<Rightarrow> out)"
  by pat_completeness auto
termination
proof (relation "measure (\<lambda>(e, c, ch). rank (p_state c))", goal_cases)
  case (2 e c ch c' ch')
  then show ?case using switch_progress [of c e ch] by simp
qed simp

declare reexecute.simps [simp del]

lemma reexecute_progress: "reexecute e c ch = Break c' \<Longrightarrow> pos c \<le> pos c'"
proof (induction e c ch rule: reexecute.induct)
  case (1 e c ch)
  have lt: "pos c < length (snd e)" using 1(2) by (simp add: reexecute.simps [of e c ch] split: if_splits)
  with 1 switch_progress [OF lt, of ch] show ?case
    by (fastforce simp: reexecute.simps [of e c ch] split: outcome.splits)
qed

text \<open>At most one mark is set when the bytes run out; its callback is run.\<close>

definition mark_list :: "mark list" where
  "mark_list = [header_field_mark, header_value_mark, url_mark, body_mark, status_mark]"

definition finish_marks :: "'u env \<Rightarrow> 'u http_cfg \<Rightarrow> 'u outcome" where
  "finish_marks e c =
     assert (length (filter (\<lambda>m. marks c m \<noteq> None) mark_list) \<le> 1)
       (CALLBACK_DATA_NOADVANCE e header_field_mark c
         (\<lambda>c. CALLBACK_DATA_NOADVANCE e header_value_mark c
           (\<lambda>c. CALLBACK_DATA_NOADVANCE e url_mark c
             (\<lambda>c. CALLBACK_DATA_NOADVANCE e body_mark c
               (\<lambda>c. CALLBACK_DATA_NOADVANCE e status_mark c (\<lambda>c. RETURN (length (snd e)) c))))))"

text \<open>\<^verbatim>\<open>for (p = data; p != data + len; p++)\<close>. Running past the end of the buffer aborts.\<close>

definition loop_body :: "'u env \<Rightarrow> 'u http_cfg \<Rightarrow> 'u outcome" where
  "loop_body e c =
     (let ch = snd e ! pos c in
      if PARSING_HEADER (p_state c) then COUNT_HEADER_SIZE 1 c (\<lambda>c. reexecute e c ch) else reexecute e c ch)"

lemma loop_body_progress: "loop_body e c = Break c' \<Longrightarrow> pos c \<le> pos c'"
  by (auto simp: loop_body_def Let_def COUNT_HEADER_SIZE_def goto_error_def error_label_def RETURN_def upd_parser_def
      dest!: reexecute_progress split: if_splits)

function for_loop :: "'u env \<Rightarrow> 'u http_cfg \<Rightarrow> 'u outcome" where
  "for_loop e c =
     (if pos c = length (snd e) then finish_marks e c
      else if length (snd e) < pos c then Abort
      else case loop_body e c of
        Break c' \<Rightarrow> for_loop e (c'\<lparr>pos := pos c' + 1\<rparr>)
      | out \<Rightarrow> out)"
  by pat_completeness auto
termination
proof (relation "measure (\<lambda>(e, c). length (snd e) - pos c)", goal_cases)
  case (2 e c c')
  then show ?case using loop_body_progress [of e c c'] by simp
qed simp

declare for_loop.simps [simp del]

section \<open>http\_parser\_execute\<close>

definition is_url_state :: "state \<Rightarrow> bool" where
  "is_url_state s =
     (case s of
        s_req_path \<Rightarrow> True | s_req_schema \<Rightarrow> True | s_req_schema_slash \<Rightarrow> True | s_req_schema_slash_slash \<Rightarrow> True
      | s_req_server_start \<Rightarrow> True | s_req_server \<Rightarrow> True | s_req_server_with_at \<Rightarrow> True
      | s_req_query_string_start \<Rightarrow> True | s_req_query_string \<Rightarrow> True | s_req_fragment_start \<Rightarrow> True
      | s_req_fragment \<Rightarrow> True | _ \<Rightarrow> False)"

definition initial_marks :: "state \<Rightarrow> mark \<Rightarrow> nat option" where
  "initial_marks s m =
     (case m of
        header_field_mark \<Rightarrow> if s = s_header_field then Some 0 else None
      | header_value_mark \<Rightarrow> if s = s_header_value then Some 0 else None
      | url_mark \<Rightarrow> if is_url_state s then Some 0 else None
      | body_mark \<Rightarrow> None
      | status_mark \<Rightarrow> if s = s_res_status then Some 0 else None)"

definition initial_cfg :: "http_parser \<Rightarrow> 'u \<Rightarrow> 'u http_cfg" where
  "initial_cfg p u = \<lparr>prs = p, p_state = pstate p, pos = 0, marks = initial_marks (pstate p), user = u\<rparr>"

definition result_of :: "'u outcome \<Rightarrow> (http_parser \<times> 'u \<times> nat) option" where
  "result_of out =
     (case out of Return c n \<Rightarrow> Some (prs c, user c, n) | Break _ \<Rightarrow> None | Reexecute _ _ \<Rightarrow> None | Abort \<Rightarrow> None)"

text \<open>End of input: \<^verbatim>\<open>http_parser_execute\<close> called with no bytes.\<close>

definition execute_eof :: "'u http_parser_settings \<Rightarrow> http_parser \<Rightarrow> 'u \<Rightarrow> (http_parser \<times> 'u \<times> nat) option" where
  "execute_eof settings p u =
     (case pstate p of
        s_body_identity_eof \<Rightarrow>
          result_of (CALLBACK_NOTIFY_NOADVANCE (on_message_complete settings) HPE_CB_message_complete
            (initial_cfg p u) (\<lambda>c. Return c 0))
      | s_dead \<Rightarrow> Some (p, u, 0)
      | s_start_req_or_res \<Rightarrow> Some (p, u, 0)
      | s_start_res \<Rightarrow> Some (p, u, 0)
      | s_start_req \<Rightarrow> Some (p, u, 0)
      | _ \<Rightarrow> Some (p\<lparr>http_errno := HPE_INVALID_EOF_STATE\<rparr>, u, 1))"

text \<open>The parser and the application data after the call, and the value returned.\<close>

definition http_parser_execute ::
  "'u http_parser_settings \<Rightarrow> string \<Rightarrow> http_parser \<Rightarrow> 'u \<Rightarrow> (http_parser \<times> 'u \<times> nat) option" where
  "http_parser_execute settings buf p u =
     (if http_errno p \<noteq> HPE_OK then Some (p, u, 0)
      else if length buf = 0 then execute_eof settings p u
      else result_of (for_loop (settings, buf) (initial_cfg p u)))"

end
