(* ===== verification/HttpParserSafety.thy ===== *)
theory HttpParserSafety
  imports HttpParser
begin

text \<open>
  Safety of the HTTP parser: an invariant of the parser between two calls, which
  \<open>http_parser_init\<close> establishes and every call of \<open>http_parser_execute\<close> keeps, whatever the
  input and the callbacks do. Under it no assertion of the source fails and no byte outside the
  buffer is read.
\<close>

section \<open>The invariant\<close>

text \<open>The header states in which a field name is matched.\<close>

definition field_state :: "header_states \<Rightarrow> bool" where
  "field_state h =
     (case h of
        h_general \<Rightarrow> True | h_C \<Rightarrow> True | h_CO \<Rightarrow> True | h_CON \<Rightarrow> True | h_matching_connection \<Rightarrow> True
      | h_matching_proxy_connection \<Rightarrow> True | h_matching_content_length \<Rightarrow> True
      | h_matching_transfer_encoding \<Rightarrow> True | h_matching_upgrade \<Rightarrow> True | h_connection \<Rightarrow> True
      | h_content_length \<Rightarrow> True | h_transfer_encoding \<Rightarrow> True | h_upgrade \<Rightarrow> True | _ \<Rightarrow> False)"

text \<open>
  What the parser knows in each state. At the start of a chunk no header byte is counted yet
  (\<open>n = 0\<close>), or just the one being read (\<open>n = 1\<close>).
\<close>

definition st_inv :: "nat \<Rightarrow> state \<Rightarrow> http_parser \<Rightarrow> bool" where
  "st_inv n s p =
     (case s of
        s_req_method \<Rightarrow> index p \<le> length (http_method_str (method_of p))
      | s_header_field \<Rightarrow> field_state (header_state p)
      | s_header_value \<Rightarrow> header_state p \<noteq> h_connection \<and> header_state p \<noteq> h_transfer_encoding
      | s_chunk_size_start \<Rightarrow> nread p = n \<and> flag F_CHUNKED p
      | s_chunk_size \<Rightarrow> flag F_CHUNKED p \<and> content_length p < ULLONG_MAX
      | s_chunk_parameters \<Rightarrow> flag F_CHUNKED p \<and> content_length p < ULLONG_MAX
      | s_chunk_size_almost_done \<Rightarrow> flag F_CHUNKED p \<and> content_length p < ULLONG_MAX
      | s_chunk_data \<Rightarrow> flag F_CHUNKED p \<and> 0 < content_length p \<and> content_length p < ULLONG_MAX
      | s_chunk_data_almost_done \<Rightarrow> flag F_CHUNKED p \<and> content_length p = 0
      | s_chunk_data_done \<Rightarrow> flag F_CHUNKED p
      | s_body_identity \<Rightarrow> 0 < content_length p \<and> content_length p < ULLONG_MAX
      | _ \<Rightarrow> True)"

definition range_ok :: "http_parser \<Rightarrow> bool" where
  "range_ok p \<longleftrightarrow> content_length p \<le> ULLONG_MAX \<and> nread p \<le> HTTP_MAX_HEADER_SIZE \<and> status_code p \<le> 999"

definition parser_inv :: "http_parser \<Rightarrow> bool" where
  "parser_inv p \<longleftrightarrow> http_errno p = HPE_OK \<longrightarrow> st_inv 0 (pstate p) p \<and> range_ok p"

text \<open>The states in which a mark may be set.\<close>

definition mark_state :: "mark \<Rightarrow> state \<Rightarrow> bool" where
  "mark_state m s =
     (case m of
        header_field_mark \<Rightarrow> s = s_header_field
      | header_value_mark \<Rightarrow> s = s_header_value
      | url_mark \<Rightarrow> is_url_state s
      | body_mark \<Rightarrow> s = s_body_identity \<or> s = s_body_identity_eof \<or> s = s_chunk_data \<or> s = s_chunk_data_almost_done
      | status_mark \<Rightarrow> s = s_res_status)"

definition marks_ok :: "'u http_cfg \<Rightarrow> bool" where
  "marks_ok c \<longleftrightarrow> (\<forall>m at. marks c m = Some at \<longrightarrow> at \<le> pos c \<and> mark_state m (p_state c))"

definition cfg_inv :: "nat \<Rightarrow> 'u http_cfg \<Rightarrow> bool" where
  "cfg_inv n c \<longleftrightarrow>
     http_errno (prs c) = HPE_OK \<and> st_inv n (p_state c) (prs c) \<and> range_ok (prs c) \<and> marks_ok c"

text \<open>What a call returns: at most the bytes given, fewer only on an error or an upgrade.\<close>

definition return_ok :: "nat \<Rightarrow> 'u http_cfg \<Rightarrow> nat \<Rightarrow> bool" where
  "return_ok len c n \<longleftrightarrow>
     n \<le> len \<and> parser_inv (prs c) \<and> (n < len \<longrightarrow> http_errno (prs c) \<noteq> HPE_OK \<or> upgrade (prs c))"

abbreviation safe :: "nat \<Rightarrow> 'u outcome \<Rightarrow> bool" where
  "safe len \<equiv> oc (\<lambda>c. cfg_inv 0 c \<and> pos c < len) (\<lambda>c _. cfg_inv (Suc 0) c \<and> pos c < len) (return_ok len) False"

section \<open>Each case of the switch keeps it\<close>

lemma return_error [simp]:
  "http_errno (prs c) \<noteq> HPE_OK \<Longrightarrow> return_ok len c n = (n \<le> len)"
  by (simp add: return_ok_def parser_inv_def)

lemma flag_set_flag [simp]: "f < 8 \<Longrightarrow> flag g (set_flag f p) = (flag g p \<or> g = f)"
  by (auto simp: set_flag_def bit_or_iff bit_exp_iff)

lemma set_flag_simps [simp]:
  "content_length (set_flag f p) = content_length p" "nread (set_flag f p) = nread p"
  "status_code (set_flag f p) = status_code p" "http_errno (set_flag f p) = http_errno p"
  "index (set_flag f p) = index p" "header_state (set_flag f p) = header_state p"
  "method_of (set_flag f p) = method_of p" "upgrade (set_flag f p) = upgrade p"
  by (simp_all add: set_flag_def)

lemma connection_flag_simps [simp]:
  "content_length (connection_flag h p) = content_length p" "nread (connection_flag h p) = nread p"
  "status_code (connection_flag h p) = status_code p" "http_errno (connection_flag h p) = http_errno p"
  "index (connection_flag h p) = index p" "header_state (connection_flag h p) = header_state p"
  by (simp_all add: connection_flag_def split: header_states.split)

lemma finish_header_simps [simp]:
  "content_length (finish_header p) = content_length p" "nread (finish_header p) = nread p"
  "status_code (finish_header p) = status_code p" "http_errno (finish_header p) = http_errno p"
  by (simp_all add: finish_header_def)

lemma unhex_range: "unhex ! code ch \<in> {-1 .. 15}"
proof -
  have "code ch < 256" by (simp add: code_def)
  moreover have "list_all (\<lambda>x. x \<in> {-1 .. 15}) unhex" by (simp add: unhex_def list_all_iff)
  moreover have "length unhex = 256" by (simp add: unhex_def)
  ultimately show ?thesis by (metis list_all_length)
qed

lemma header_field_step_ok:
  "field_state h \<Longrightarrow> \<exists>h' i'. header_field_step ch x h i = Some (h', i') \<and> field_state h'"
  by (cases h) (auto simp: header_field_step_def field_state_def match_word_def Let_def)

lemma header_field_loop_ok:
  "field_state h \<Longrightarrow>
   \<exists>n ch' h' i'. header_field_loop xs ch h i = Some (n, ch', h', i') \<and> n \<le> length xs \<and> field_state h'"
proof (induction xs arbitrary: ch h i)
  case (Cons x xs)
  obtain h' i' where "header_field_step x (TOKEN x) h i = Some (h', i')" "field_state h'"
    using header_field_step_ok [OF Cons.prems] by blast
  with Cons.IH [of h' x i'] Cons.prems show ?case by auto
qed simp

lemma skip_general_le: "skip_general xs \<le> length xs"
proof -
  have "i \<le> length xs" if "memchr x xs k = Some i" for x k i
    using that by (auto simp: memchr_def Let_def split: if_splits)
  then show ?thesis by (auto simp: skip_general_def Let_def split: option.splits)
qed

lemma header_value_step_ok:
  assumes "h \<noteq> h_connection" and "h \<noteq> h_transfer_encoding" and "range_ok p"
  shows "case header_value_step ch h p of
      VGo h' p' \<Rightarrow> h' \<noteq> h_connection \<and> h' \<noteq> h_transfer_encoding \<and> range_ok p' \<and> http_errno p' = http_errno p
    | VError err h' \<Rightarrow> err \<noteq> HPE_OK
    | VAbort \<Rightarrow> False"
  using assms
  by (cases h)
    (auto simp: header_value_step_def content_length_digit_def connection_done_def match_word_def incr_index_def
      range_ok_def ULLONG_MAX_def Let_def split: value_step.splits)

text \<open>At the end of the loop over a header value, with no mark but the one of the value.\<close>

lemma header_value_end_safe:
  assumes "http_errno (prs c) = HPE_OK" and "p_state c = s_header_value \<or> p_state c = s_header_almost_done"
    and "range_ok (prs c)" and "h \<noteq> h_connection" and "h \<noteq> h_transfer_encoding"
    and "pos c \<le> length (snd e)" and "0 < length (snd e)"
    and "\<forall>at. marks c header_value_mark = Some at \<longrightarrow>
           at < length (snd e) \<and> at \<le> pos c \<and> p_state c = s_header_value"
    and "\<forall>m. m \<noteq> header_value_mark \<longrightarrow> marks c m = None"
  shows "safe (length (snd e)) (header_value_end e start h c)"
proof -
  have only: "m = header_value_mark" if "marks c m = Some at" for m at using assms(9) that by (cases m) auto
  have "marks_ok (c\<lparr>prs := p, pos := q\<rparr>)" if "q = pos c \<or> q = length (snd e) - 1 \<and> pos c = length (snd e)" for p q
    unfolding marks_ok_def
  proof (intro allI impI)
    fix m at assume "marks (c\<lparr>prs := p, pos := q\<rparr>) m = Some at"
    then have "marks c m = Some at" by simp
    with only [OF this] assms(8) that
    show "at \<le> pos (c\<lparr>prs := p, pos := q\<rparr>) \<and> mark_state m (p_state (c\<lparr>prs := p, pos := q\<rparr>))"
      by (auto simp: mark_state_def)
  qed
  from this [of "pos c"] this [of "length (snd e) - 1"] show ?thesis
    using assms(1-7)
    by (auto simp: header_value_end_def Let_def state_simps cfg_inv_def range_ok_def st_inv_def)
qed

lemma header_value_loop_safe:
  assumes "http_errno (prs c) = HPE_OK" and "p_state c = s_header_value" and "range_ok (prs c)"
    and "h \<noteq> h_connection" and "h \<noteq> h_transfer_encoding"
    and "pos c + length xs = length (snd e)" and "0 < length (snd e)"
    and "\<forall>at. marks c header_value_mark = Some at \<longrightarrow> at < length (snd e) \<and> at \<le> pos c"
    and "\<forall>m. m \<noteq> header_value_mark \<longrightarrow> marks c m = None"
  shows "safe (length (snd e)) (header_value_loop e start xs h c)"
  using assms
proof (induction e start xs h c rule: header_value_loop.induct)
  case (1 e start h c)
  then show ?case by (simp add: header_value_end_safe)
next
  case (2 e start ch xs h c)
  have none: "marks_ok (c\<lparr>p_state := s_header_almost_done, prs := p, user := u, marks := (marks c)(header_value_mark := None)\<rparr>)"
    for p u using 2(11) by (auto simp: marks_ok_def)
  have le: "at \<le> pos c + k" if "marks c header_value_mark = Some at" for at k
    using 2(10) that by (auto intro: trans_le_add1)
  consider (cr) "ch = CR" | (lf) "ch = LF" | (bad) "ch \<noteq> CR" "ch \<noteq> LF" "\<not> lenient_http_headers (prs c) \<and> \<not> IS_HEADER_CHAR ch"
    | (gen) "ch \<noteq> CR" "ch \<noteq> LF" "\<not> (\<not> lenient_http_headers (prs c) \<and> \<not> IS_HEADER_CHAR ch)" "h = h_general"
    | (go) "ch \<noteq> CR" "ch \<noteq> LF" "\<not> (\<not> lenient_http_headers (prs c) \<and> \<not> IS_HEADER_CHAR ch)" "h \<noteq> h_general" by blast
  then show ?case
  proof cases
    case cr
    show ?thesis
      using 2(3-) cr
      by (auto simp: header_value_loop.simps(2) CALLBACK_DATA_def state_simps range_ok_def
          intro!: oc_CALLBACK_DATA_gen header_value_end_safe)
  next
    case lf
    show ?thesis
      using 2(3-) lf none
      by (auto simp: header_value_loop.simps(2) CALLBACK_DATA_NOADVANCE_def state_simps range_ok_def Let_def
          cfg_inv_def st_inv_def intro!: oc_CALLBACK_DATA_gen)
  next
    case bad
    then show ?thesis using 2(8) by (simp add: header_value_loop.simps(2))
  next
    case gen
    show ?thesis
      using skip_general_le [of "ch # xs"] 2(1) [OF gen(1,2,3,4) refl] 2(3-) gen le
      by (auto simp: header_value_loop.simps(2) Let_def)
  next
    case go
    show ?thesis
      using 2(2) [OF go] 2(3-) go le [of _ 1] header_value_step_ok [OF 2(6,7,5), of ch]
      by (auto simp: header_value_loop.simps(2) state_simps split: value_step.splits)
  qed
qed

lemma parse_url_char_states: "parse_url_char s ch = s_dead \<or> is_url_state (parse_url_char s ch)"
  by (cases s) (simp_all add: parse_url_char_def is_url_state_def Let_def)

lemma marks_ok_none: "marks_ok c \<Longrightarrow> \<not> mark_state m (p_state c) \<Longrightarrow> marks c m = None"
  by (cases "marks c m") (auto simp: marks_ok_def)

lemma next_method_ok:
  "next_method (m, i, ch) = Some m' \<Longrightarrow> i < length (http_method_str m')"
  by (auto simp: next_method_def http_method_str_def split: if_splits)

lemma method_of_letter_ok: "method_of_letter ch = Some m \<Longrightarrow> 1 \<le> length (http_method_str m)"
  by (auto simp: method_of_letter_def http_method_str_def split: if_splits)

lemma str_at_le: "i \<le> length s \<Longrightarrow> str_at s i \<noteq> None"
  by (simp add: str_at_def)

lemma str_at_lt: "str_at s i = Some x \<Longrightarrow> x \<noteq> nul \<Longrightarrow> i < length s"
  by (auto simp: str_at_def split: if_splits)

lemma no_marks:
  assumes "cfg_inv n c" and "\<And>m. \<not> mark_state m (p_state c)"
  shows "marks c = (\<lambda>_. None)"
proof
  show "marks c m = None" for m using assms marks_ok_none by (auto simp: cfg_inv_def)
qed

lemma digit_le: "IS_NUM ch \<Longrightarrow> digit ch \<le> 9"
  by (auto simp: IS_NUM_def digit_def code_def)

lemma cfg_inv_none:
  "marks c = (\<lambda>_. None) \<Longrightarrow>
   cfg_inv n c \<longleftrightarrow> http_errno (prs c) = HPE_OK \<and> st_inv n (p_state c) (prs c) \<and> range_ok (prs c)"
  by (simp add: cfg_inv_def marks_ok_def)

lemma cfg_inv_mark:
  "marks c = [m \<mapsto> at] \<Longrightarrow>
   cfg_inv n c \<longleftrightarrow> http_errno (prs c) = HPE_OK \<and> st_inv n (p_state c) (prs c) \<and> range_ok (prs c)
     \<and> at \<le> pos c \<and> mark_state m (p_state c)"
  by (auto simp: cfg_inv_def marks_ok_def split: if_splits)

lemma reset_message_simps [simp]:
  "content_length (reset_message p) = ULLONG_MAX" "nread (reset_message p) = nread p"
  "status_code (reset_message p) = status_code p" "http_errno (reset_message p) = http_errno p"
  "method_of (reset_message p) = method_of p" "index (reset_message p) = index p"
  by (simp_all add: reset_message_def)

lemmas callback_defs =
  CALLBACK_NOTIFY_def CALLBACK_NOTIFY_NOADVANCE_def CALLBACK_DATA_def CALLBACK_DATA_NOADVANCE_def

lemma safe_s_res_or_resp_H:
  assumes "cfg_inv (Suc 0) c" and "pos c < len" and "marks c = (\<lambda>_. None)"
  shows "safe len (at_s_res_or_resp_H c ch)"
  using assms
  by (auto simp: at_s_res_or_resp_H_def state_simps cfg_inv_none st_inv_def range_ok_def http_method_str_def)

lemma safe_s_start_req:
  assumes "cfg_inv (Suc 0) c" and "pos c < len" and "marks c = (\<lambda>_. None)" and "p_state c = s_start_req"
  shows "safe len (at_s_start_req e c ch)"
  using assms
  by (auto simp: at_s_start_req_def callback_defs state_simps Let_def cfg_inv_none st_inv_def range_ok_def
      split: option.splits intro!: oc_callbacks dest: method_of_letter_ok)

lemma safe_s_req_method:
  assumes "cfg_inv (Suc 0) c" and "pos c < len" and "marks c = (\<lambda>_. None)" and "p_state c = s_req_method"
  shows "safe len (at_s_req_method c ch)"
proof -
  let ?m = "http_method_str (method_of (prs c))" and ?i = "index (prs c)"
  have inv: "http_errno (prs c) = HPE_OK" "range_ok (prs c)" "?i \<le> length ?m"
    using assms(1,4) by (simp_all add: cfg_inv_def st_inv_def)
  have l: "length (http_method_str m) < 127" for m by (cases m) (simp_all add: http_method_str_def)
  obtain x where x: "str_at ?m ?i = Some x" using str_at_le [OF inv(3)] by auto
  have i: "(?i + 1) mod 128 = Suc ?i" using inv(3) l [of "method_of (prs c)"] by simp
  have m: "Suc ?i \<le> length ?m" if "ch = x" "ch \<noteq> nul" using str_at_lt [OF x] that by simp
  have n: "Suc ?i \<le> length (http_method_str m)" if "next_method (method_of (prs c), ?i, ch) = Some m" for m
    using next_method_ok [OF that] by simp
  show ?thesis
    using assms(2,3,4) inv x i m n
    by (auto simp: at_s_req_method_def state_simps cfg_inv_none st_inv_def range_ok_def incr_index_def
        split: option.splits)
qed

text \<open>In a state that allows one kind of mark, either none is set or that one.\<close>

definition one_mark :: "mark \<Rightarrow> 'u http_cfg \<Rightarrow> bool" where
  "one_mark m c \<longleftrightarrow> marks c = (\<lambda>_. None) \<or> (\<exists>at \<le> pos c. marks c = [m \<mapsto> at])"

lemma one_markI:
  assumes "cfg_inv n c" and "\<And>m'. mark_state m' (p_state c) \<Longrightarrow> m' = m"
  shows "one_mark m c"
proof (cases "marks c m")
  case None
  then have "marks c m' = None" for m' using assms marks_ok_none [of c m'] by (cases "m' = m") (auto simp: cfg_inv_def)
  then show ?thesis by (auto simp: one_mark_def)
next
  case (Some at)
  then have "at \<le> pos c" using assms(1) by (auto simp: cfg_inv_def marks_ok_def)
  moreover have "marks c m' = [m \<mapsto> at] m'" for m'
    using assms marks_ok_none [of c m'] Some by (cases "m' = m") (auto simp: cfg_inv_def)
  then have "marks c = [m \<mapsto> at]" by (rule ext)
  ultimately show ?thesis by (auto simp: one_mark_def)
qed

lemma url_step_safe:
  assumes "http_errno (prs c) = HPE_OK" and "range_ok (prs c)" and "pos c < len" and "one_mark url_mark c"
  shows "safe len (url_step c ch)"
proof -
  let ?s = "parse_url_char (p_state c) ch"
  have st: "is_url_state s \<Longrightarrow> st_inv n s p" for s n p by (cases s) (simp_all add: is_url_state_def st_inv_def)
  show ?thesis
    using st [of ?s] parse_url_char_states [of "p_state c" ch] assms
    by (auto simp: url_step_def state_simps Let_def one_mark_def cfg_inv_none cfg_inv_mark mark_state_def)
qed

lemma safe_s_req_spaces_before_url:
  assumes "cfg_inv (Suc 0) c" and "pos c < len" and "marks c = (\<lambda>_. None)"
    and "p_state c = s_req_spaces_before_url"
  shows "safe len (at_s_req_spaces_before_url c ch)"
  using assms
  by (auto simp: at_s_req_spaces_before_url_def Let_def cfg_inv_none st_inv_def MARK_def state_simps one_mark_def
      intro!: url_step_safe split: if_splits)

lemma safe_url_state:
  assumes "cfg_inv (Suc 0) c" and "pos c < length (snd e)" and "is_url_state (p_state c)"
  shows "safe (length (snd e)) (at_s_req_schema c ch)" and "safe (length (snd e)) (at_s_req_server e c ch)"
proof -
  have one: "one_mark url_mark c"
    using assms(1) by (rule one_markI) (use assms(3) in \<open>auto simp: mark_state_def is_url_state_def split: mark.splits\<close>)
  have ok: "http_errno (prs c) = HPE_OK" "range_ok (prs c)" using assms(1) by (auto simp: cfg_inv_def)
  have step: "safe (length (snd e)) (url_step c ch)" using ok assms(2) one by (rule url_step_safe)
  show "safe (length (snd e)) (at_s_req_schema c ch)" using step assms(2) by (simp add: at_s_req_schema_def)
  show "safe (length (snd e)) (at_s_req_server e c ch)"
    using step one ok assms(2)
    by (auto simp: at_s_req_server_def callback_defs state_simps cfg_inv_none cfg_inv_mark mark_state_def
        st_inv_def one_mark_def range_ok_def intro!: oc_callbacks)
qed

lemma safe_s_res_status:
  assumes "cfg_inv (Suc 0) c" and "pos c < length (snd e)" and "p_state c = s_res_status"
  shows "safe (length (snd e)) (at_s_res_status e c ch)"
proof -
  have "one_mark status_mark c"
    using assms(1) by (rule one_markI) (use assms(3) in \<open>auto simp: mark_state_def is_url_state_def split: mark.splits\<close>)
  with assms show ?thesis
    by (auto simp: at_s_res_status_def callback_defs state_simps cfg_inv_def
        range_ok_def st_inv_def one_mark_def marks_ok_def intro!: oc_callbacks)
qed

lemma safe_s_header_field_start:
  assumes "cfg_inv (Suc 0) c" and "pos c < len" and "marks c = (\<lambda>_. None)"
  shows "safe len (at_s_header_field_start c ch)"
  using assms
  by (auto simp: at_s_header_field_start_def Let_def cfg_inv_none cfg_inv_mark st_inv_def MARK_def state_simps
      range_ok_def mark_state_def field_state_def)

lemma safe_s_header_field:
  assumes "cfg_inv (Suc 0) c" and "pos c < length (snd e)" and "p_state c = s_header_field"
  shows "safe (length (snd e)) (at_s_header_field e c ch)"
proof -
  have one: "one_mark header_field_mark c"
    using assms(1) by (rule one_markI) (use assms(3) in \<open>auto simp: mark_state_def is_url_state_def split: mark.splits\<close>)
  have ok: "http_errno (prs c) = HPE_OK" "range_ok (prs c)" using assms(1) by (auto simp: cfg_inv_def)
  obtain n ch' h' i' where
    "header_field_loop (drop (pos c) (snd e)) ch (header_state (prs c)) (index (prs c)) = Some (n, ch', h', i')"
    and n: "n \<le> length (drop (pos c) (snd e))" and h: "field_state h'"
    using assms(1,3) header_field_loop_ok [of "header_state (prs c)" "drop (pos c) (snd e)" ch "index (prs c)"]
    by (auto simp: cfg_inv_def st_inv_def)
  moreover have "pos c + n \<le> length (snd e)" using n assms(2) by simp
  ultimately show ?thesis
    using one h ok assms(2,3)
    by (auto simp: at_s_header_field_def callback_defs state_simps cfg_inv_none cfg_inv_mark Let_def
        range_ok_def st_inv_def one_mark_def mark_state_def intro!: oc_callbacks)
qed

lemma safe_s_header_value_start:
  assumes "cfg_inv (Suc 0) c" and "pos c < len" and "marks c = (\<lambda>_. None)"
  shows "safe len (at_s_header_value_start c ch)"
    and "p_state c = s_header_value_discard_ws \<Longrightarrow> safe len (at_s_header_value_discard_ws c ch)"
proof -
  show start: "safe len (at_s_header_value_start c ch)"
    using assms digit_le [of ch]
    by (cases "header_state (prs c)")
      (auto simp: at_s_header_value_start_def Let_def cfg_inv_none cfg_inv_mark st_inv_def MARK_def state_simps
        range_ok_def mark_state_def ULLONG_MAX_def)
  show "safe len (at_s_header_value_discard_ws c ch)" if "p_state c = s_header_value_discard_ws"
    using that start assms by (auto simp: at_s_header_value_discard_ws_def cfg_inv_none st_inv_def state_simps)
qed

lemma safe_s_header_value:
  assumes "cfg_inv (Suc 0) c" and "pos c < length (snd e)" and "p_state c = s_header_value"
  shows "safe (length (snd e)) (at_s_header_value e c)"
proof -
  have one: "one_mark header_value_mark c"
    using assms(1) by (rule one_markI) (use assms(3) in \<open>auto simp: mark_state_def is_url_state_def split: mark.splits\<close>)
  show ?thesis
    unfolding at_s_header_value_def
    using one assms by (intro header_value_loop_safe) (auto simp: cfg_inv_def st_inv_def one_mark_def)
qed

lemma to_read_simps:
  "pos c < length (snd e) \<Longrightarrow> content_length (prs c) \<noteq> 0 \<Longrightarrow> 0 < to_read e c"
  "to_read e c \<le> content_length (prs c)" "pos c < length (snd e) \<Longrightarrow> pos c + to_read e c \<le> length (snd e)"
  by (auto simp: to_read_def)

lemma one_mark_MARK: "one_mark m c \<Longrightarrow> \<exists>at \<le> pos c. marks (MARK m c) = [m \<mapsto> at]"
  by (auto simp: one_mark_def MARK_def)

lemma take_body_mark:
  assumes "one_mark body_mark c" and "0 < to_read e c"
  obtains at where "at \<le> pos c" and "marks (MARK body_mark c) = [body_mark \<mapsto> at]" and "at \<le> pos c + to_read e c - Suc 0"
  using one_mark_MARK [OF assms(1)] assms(2) by auto

lemma safe_body_states:
  assumes "cfg_inv (Suc 0) c" and "pos c < length (snd e)"
  shows "p_state c = s_body_identity \<Longrightarrow> safe (length (snd e)) (at_s_body_identity e c ch)"
    and "p_state c = s_body_identity_eof \<Longrightarrow> safe (length (snd e)) (at_s_body_identity_eof e c)"
    and "p_state c = s_chunk_data \<Longrightarrow> safe (length (snd e)) (at_s_chunk_data e c)"
proof -
  have ok: "http_errno (prs c) = HPE_OK" "range_ok (prs c)" using assms(1) by (auto simp: cfg_inv_def)
  have read: "content_length (prs c) \<noteq> 0 \<Longrightarrow> 0 < to_read e c" "to_read e c \<le> content_length (prs c)"
    "pos c + to_read e c \<le> length (snd e)"
    using assms(2) to_read_simps by blast+
  have one: "one_mark body_mark c" if "p_state c \<in> {s_body_identity, s_body_identity_eof, s_chunk_data}"
    using assms(1) by (rule one_markI) (use that in \<open>auto simp: mark_state_def is_url_state_def split: mark.splits\<close>)
  show "safe (length (snd e)) (at_s_body_identity e c ch)" if "p_state c = s_body_identity"
  proof -
    have len: "0 < content_length (prs c)" "content_length (prs c) < ULLONG_MAX"
      using that assms(1) by (auto simp: cfg_inv_def st_inv_def)
    then have pos: "0 < to_read e c" using read(1) by simp
    have "one_mark body_mark c" using one that by simp
    then obtain at where "marks (MARK body_mark c) = [body_mark \<mapsto> at]" "at \<le> pos c + to_read e c - Suc 0"
      using pos by (rule take_body_mark)
    then show ?thesis
      using len pos read(2,3) ok that
      by (auto simp: at_s_body_identity_def Let_def state_simps cfg_inv_none cfg_inv_mark st_inv_def range_ok_def
          mark_state_def intro!: oc_callbacks)
  qed
  show "safe (length (snd e)) (at_s_body_identity_eof e c)" if "p_state c = s_body_identity_eof"
    using one that assms(2) ok
    by (auto simp: at_s_body_identity_eof_def one_mark_def MARK_def cfg_inv_mark st_inv_def mark_state_def)
  show "safe (length (snd e)) (at_s_chunk_data e c)" if "p_state c = s_chunk_data"
  proof -
    have len: "0 < content_length (prs c)" "content_length (prs c) < ULLONG_MAX" "flag F_CHUNKED (prs c)"
      using that assms(1) by (auto simp: cfg_inv_def st_inv_def)
    then have pos: "0 < to_read e c" using read(1) by simp
    have "one_mark body_mark c" using one that by simp
    then obtain at where "marks (MARK body_mark c) = [body_mark \<mapsto> at]" "at \<le> pos c + to_read e c - Suc 0"
      using pos by (rule take_body_mark)
    then show ?thesis
      using len pos read(2,3) ok that
      by (auto simp: at_s_chunk_data_def Let_def state_simps cfg_inv_mark st_inv_def range_ok_def mark_state_def)
  qed
qed

lemma safe_s_chunk_data_almost_done:
  assumes "cfg_inv (Suc 0) c" and "pos c < length (snd e)" and "p_state c = s_chunk_data_almost_done"
  shows "safe (length (snd e)) (at_s_chunk_data_almost_done e c ch)"
proof -
  have "one_mark body_mark c"
    using assms(1) by (rule one_markI) (use assms(3) in \<open>auto simp: mark_state_def is_url_state_def split: mark.splits\<close>)
  with assms show ?thesis
    by (auto simp: at_s_chunk_data_almost_done_def callback_defs state_simps cfg_inv_def
        range_ok_def st_inv_def one_mark_def marks_ok_def intro!: oc_callbacks)
qed

lemma safe_chunk_states:
  assumes "cfg_inv (Suc 0) c" and "pos c < len" and "marks c = (\<lambda>_. None)"
  shows "p_state c = s_chunk_size_start \<Longrightarrow> safe len (at_s_chunk_size_start c ch)"
    and "p_state c = s_chunk_size \<Longrightarrow> safe len (at_s_chunk_size c ch)"
    and "p_state c = s_chunk_parameters \<Longrightarrow> safe len (at_s_chunk_parameters c ch)"
    and "p_state c = s_chunk_size_almost_done \<Longrightarrow> safe len (at_s_chunk_size_almost_done e c ch)"
    and "p_state c = s_chunk_data_done \<Longrightarrow> safe len (at_s_chunk_data_done e c ch)"
  subgoal
    using assms unhex_range [of ch]
    by (auto simp: at_s_chunk_size_start_def cfg_inv_none st_inv_def state_simps range_ok_def Let_def ULLONG_MAX_def)
  subgoal
    using assms unhex_range [of ch]
    by (auto simp: at_s_chunk_size_def cfg_inv_none st_inv_def state_simps range_ok_def Let_def ULLONG_MAX_def)
  subgoal
    using assms
    by (auto simp: at_s_chunk_parameters_def cfg_inv_none st_inv_def state_simps range_ok_def)
  subgoal
    using assms
    by (auto simp: at_s_chunk_size_almost_done_def callback_defs cfg_inv_none st_inv_def state_simps range_ok_def Let_def
        intro!: oc_callbacks)
  subgoal
    using assms
    by (auto simp: at_s_chunk_data_done_def callback_defs cfg_inv_none st_inv_def state_simps range_ok_def Let_def
        intro!: oc_callbacks)
  done

lemma announce_upgrade_simps [simp]:
  "content_length (announce_upgrade p) = content_length p" "nread (announce_upgrade p) = nread p"
  "status_code (announce_upgrade p) = status_code p" "http_errno (announce_upgrade p) = http_errno p"
  by (simp_all add: announce_upgrade_def)

lemma safe_s_headers_almost_done:
  assumes "cfg_inv (Suc 0) c" and "pos c < len" and "marks c = (\<lambda>_. None)"
  shows "safe len (at_s_headers_almost_done e c ch)"
  using assms
  by (auto simp: at_s_headers_almost_done_def callback_defs cfg_inv_none st_inv_def state_simps range_ok_def
      intro!: oc_callbacks)

lemma NEW_MESSAGE_states: "NEW_MESSAGE c \<in> {s_dead, s_start_req, s_start_res}"
  by (simp add: NEW_MESSAGE_def start_state_def)


lemma NEW_MESSAGE_st_inv: "st_inv n (NEW_MESSAGE c) p"
  using NEW_MESSAGE_states [of c] by (auto simp: st_inv_def)

lemma safe_message_complete:
  assumes "http_errno (prs c) = HPE_OK" and "range_ok (prs c)" and "pos c < len" and "marks c = (\<lambda>_. None)"
  shows "safe len (message_complete e c Break)"
    and "upgrade (prs c) \<Longrightarrow> safe len (message_complete e c (\<lambda>c. RETURN (pos c + 1) c))"
    and "safe len (at_s_message_done e c)"
  using assms
  by (auto simp: message_complete_def at_s_message_done_def callback_defs cfg_inv_none NEW_MESSAGE_st_inv state_simps
      range_ok_def return_ok_def parser_inv_def intro!: oc_callbacks)

lemma safe_s_headers_done:
  assumes "cfg_inv (Suc 0) c" and "pos c < len" and "marks c = (\<lambda>_. None)"
  shows "safe len (at_s_headers_done e c ch)"
proof -
  let ?c = "upd_parser (\<lambda>p. p\<lparr>nread := 0\<rparr>) c"
  have c: "http_errno (prs ?c) = HPE_OK" "range_ok (prs ?c)" "pos ?c < len" "marks ?c = (\<lambda>_. None)"
    using assms by (auto simp: cfg_inv_none upd_parser_def range_ok_def)
  then have le: "content_length (prs ?c) \<le> ULLONG_MAX" by (simp add: range_ok_def)
  have zero: "nread (prs ?c) = 0" by (simp add: upd_parser_def)
  show ?thesis
    using c assms(1) le zero safe_message_complete [OF c, of e] assms(2)
    by (auto simp: at_s_headers_done_def Let_def cfg_inv_none st_inv_def UPDATE_STATE_def)
qed


text \<open>The states that set no mark, that call no callback and that do no arithmetic.\<close>

definition plain_state :: "state \<Rightarrow> bool" where
  "plain_state s \<longleftrightarrow> s \<in> {s_dead, s_start_req_or_res, s_start_res, s_res_H, s_res_HT, s_res_HTT, s_res_HTTP,
     s_res_http_major, s_res_http_dot, s_res_http_minor, s_res_http_end, s_res_first_status_code, s_res_status_code,
     s_res_status_start, s_res_line_almost_done, s_req_http_start, s_req_http_H, s_req_http_HT, s_req_http_HTT,
     s_req_http_HTTP, s_req_http_major, s_req_http_dot, s_req_http_minor, s_req_http_end, s_req_line_almost_done,
     s_header_value_discard_ws_almost_done, s_header_value_discard_lws, s_header_value_lws, s_header_almost_done}"

lemma safe_plain_states:
  assumes "cfg_inv (Suc 0) c" and "pos c < length (snd e)" and "marks c = (\<lambda>_. None)" and "plain_state (p_state c)"
  shows "safe (length (snd e)) (switch_state e c ch)"
  using assms
  by (cases "p_state c")
    (auto simp: plain_state_def switch_state_def at_defs callback_defs state_simps Let_def
      cfg_inv_none cfg_inv_mark MARK_def st_inv_def range_ok_def mark_state_def
      dest!: digit_le split: option.splits intro!: oc_callbacks)

lemma ex_mark_state:
  "(\<exists>m. mark_state m s) \<longleftrightarrow> is_url_state s \<or> s \<in> {s_header_field, s_header_value, s_res_status, s_body_identity,
     s_body_identity_eof, s_chunk_data, s_chunk_data_almost_done}"
proof -
  have "(\<exists>m. P m) \<longleftrightarrow> P header_field_mark \<or> P header_value_mark \<or> P url_mark \<or> P body_mark \<or> P status_mark" for P
    using mark.exhaust by metis
  then show ?thesis by (auto simp: mark_state_def)
qed

lemma switch_safe_marked:
  assumes "cfg_inv (Suc 0) c" and "pos c < length (snd e)" and "\<exists>m. mark_state m (p_state c)"
  shows "safe (length (snd e)) (switch_state e c ch)"
proof (cases "is_url_state (p_state c)")
  case True
  then show ?thesis
    using safe_url_state [OF assms(1,2) True, of ch] by (cases "p_state c") (simp_all add: is_url_state_def switch_state_def)
next
  case False
  then show ?thesis
    using assms
    by (auto simp: ex_mark_state switch_state_def intro: safe_s_res_status safe_s_header_field safe_s_header_value
        safe_body_states safe_s_chunk_data_almost_done)
qed

lemma switch_safe_unmarked:
  assumes "cfg_inv (Suc 0) c" and "pos c < length (snd e)" and "\<nexists>m. mark_state m (p_state c)"
    and "\<not> plain_state (p_state c)"
  shows "safe (length (snd e)) (switch_state e c ch)"
proof -
  have none: "marks c = (\<lambda>_. None)" using assms(1,3) no_marks by auto
  have ok: "http_errno (prs c) = HPE_OK" "range_ok (prs c)" using assms(1) by (auto simp: cfg_inv_def)
  note facts = safe_s_res_or_resp_H safe_s_start_req safe_s_req_method safe_s_req_spaces_before_url
    safe_s_header_field_start safe_s_header_value_start safe_chunk_states safe_s_headers_almost_done safe_s_headers_done
  show ?thesis
    using facts [OF assms(1,2) none] safe_message_complete(3) [OF ok assms(2) none] assms(3,4)
    by (cases "p_state c")
      (simp_all add: switch_state_def plain_state_def ex_mark_state is_url_state_def del: oc_assert)
qed

lemma switch_safe:
  assumes "cfg_inv (Suc 0) c" and "pos c < length (snd e)"
  shows "safe (length (snd e)) (switch_state e c ch)"
proof (cases "\<exists>m. mark_state m (p_state c)")
  case True
  with assms show ?thesis by (rule switch_safe_marked)
next
  case False
  then show ?thesis
    using assms by (cases "plain_state (p_state c)") (auto intro: safe_plain_states switch_safe_unmarked no_marks)
qed


section \<open>The loops keep it\<close>

abbreviation loop_safe :: "nat \<Rightarrow> 'u outcome \<Rightarrow> bool" where
  "loop_safe len \<equiv> oc (\<lambda>c. cfg_inv 0 c \<and> pos c < len) (\<lambda>_ _. False) (return_ok len) False"

abbreviation ends_safe :: "nat \<Rightarrow> 'u outcome \<Rightarrow> bool" where
  "ends_safe len \<equiv> oc (\<lambda>_. False) (\<lambda>_ _. False) (return_ok len) False"

lemma reexecute_safe:
  "cfg_inv (Suc 0) c \<Longrightarrow> pos c < length (snd e) \<Longrightarrow> loop_safe (length (snd e)) (reexecute e c ch)"
proof (induction e c ch rule: reexecute.induct)
  case (1 e c ch)
  have "safe (length (snd e)) (switch_state e c ch)" using 1(2,3) by (rule switch_safe)
  then show ?case
    using 1 by (cases "switch_state e c ch") (simp_all add: reexecute.simps [of e c ch])
qed

lemma chunk_start_parses: "PARSING_HEADER s_chunk_size_start" by (simp add: PARSING_HEADER_def)

lemma st_inv_nread:
  "s \<noteq> s_chunk_size_start \<Longrightarrow> st_inv m s (p\<lparr>nread := k\<rparr>) = st_inv n s p"
  by (cases s) (simp_all add: st_inv_def)

lemma loop_body_safe:
  assumes "cfg_inv 0 c" and "pos c < length (snd e)"
  shows "loop_safe (length (snd e)) (loop_body e c)"
proof (cases "PARSING_HEADER (p_state c)")
  case True
  have "st_inv (Suc 0) (p_state c) ((prs c)\<lparr>nread := Suc (nread (prs c)) mod 2 ^ 32\<rparr>)"
    using assms(1) st_inv_nread [of "p_state c" "Suc 0" _ "prs c" 0]
    by (cases "p_state c = s_chunk_size_start") (auto simp: cfg_inv_def, simp add: st_inv_def)
  then have "cfg_inv (Suc 0) (c\<lparr>prs := (prs c)\<lparr>nread := Suc (nread (prs c)) mod 2 ^ 32\<rparr>\<rparr>)"
    if "\<not> HTTP_MAX_HEADER_SIZE < Suc (nread (prs c)) mod 2 ^ 32"
    using assms(1) that by (auto simp: cfg_inv_def range_ok_def marks_ok_def)
  then show ?thesis
    using assms(2) True by (auto simp: loop_body_def Let_def intro!: reexecute_safe)
next
  case False
  then have "p_state c \<noteq> s_chunk_size_start" using chunk_start_parses by metis
  then have "cfg_inv (Suc 0) c"
    using assms(1) st_inv_nread [of "p_state c" "Suc 0" "nread (prs c)" "prs c" 0] by (simp add: cfg_inv_def)
  then show ?thesis using False assms(2) by (simp add: loop_body_def Let_def reexecute_safe)
qed


lemma mark_state_unique: "mark_state m s \<Longrightarrow> mark_state m' s \<Longrightarrow> m = m'"
  by (auto simp: mark_state_def is_url_state_def split: mark.splits)

lemma some_one_mark:
  assumes "cfg_inv n c"
  obtains m where "one_mark m c"
proof (cases "\<exists>m. mark_state m (p_state c)")
  case True
  then obtain m where "mark_state m (p_state c)" ..
  then have "one_mark m c" using one_markI [OF assms] mark_state_unique by blast
  then show ?thesis by (rule that)
next
  case False
  then have "one_mark url_mark c" using no_marks [OF assms] by (simp add: one_mark_def)
  then show ?thesis by (rule that)
qed

lemma parser_inv_error [simp]: "http_errno p \<noteq> HPE_OK \<Longrightarrow> parser_inv p"
  by (simp add: parser_inv_def)

lemma return_ok_all: "return_ok len c len = parser_inv (prs c)"
  by (simp add: return_ok_def)

lemma cfg_inv_parser_inv: "cfg_inv 0 c \<Longrightarrow> parser_inv ((prs c)\<lparr>pstate := p_state c\<rparr>)"
  by (auto simp: cfg_inv_def parser_inv_def st_inv_def range_ok_def split: state.splits)

lemma finish_marks_safe:
  assumes "cfg_inv 0 c" and "pos c = length (snd e)"
  shows "ends_safe (length (snd e)) (finish_marks e c)"
proof -
  obtain m where m: "one_mark m c" using assms(1) by (rule some_one_mark)
  have le: "\<And>m at. marks c m = Some at \<Longrightarrow> at \<le> length (snd e)" 
    using assms by (auto simp: cfg_inv_def marks_ok_def)
  have ok: "http_errno (prs c) = HPE_OK" using assms(1) by (simp add: cfg_inv_def)
  have "length (filter (\<lambda>m. marks c m \<noteq> None) mark_list) \<le> 1"
    using m by (cases m) (auto simp: one_mark_def mark_list_def)
  then show ?thesis
    using le ok assms(2) cfg_inv_parser_inv [OF assms(1)]
    by (auto simp: finish_marks_def callback_defs return_ok_all intro!: oc_callbacks)
qed

lemma for_loop_safe:
  assumes "cfg_inv 0 c" and "pos c \<le> length (snd e)"
  shows "ends_safe (length (snd e)) (for_loop e c)"
  using assms
proof (induction e c rule: for_loop.induct)
  case (1 e c)
  show ?case
  proof (cases "pos c = length (snd e)")
    case True
    then show ?thesis using finish_marks_safe [OF 1(2)] by (simp add: for_loop.simps [of e c])
  next
    case False
    then have lt: "pos c < length (snd e)" using 1(3) by simp
    have "cfg_inv 0 (c'\<lparr>pos := pos c' + 1\<rparr>)" if "cfg_inv 0 c'" for c' :: "'a http_cfg"
      using that by (auto simp: cfg_inv_def marks_ok_def intro: le_SucI)
    with lt False 1(1) loop_body_safe [OF 1(2) lt] show ?thesis
      by (cases "loop_body e c") (simp_all add: for_loop.simps [of e c])
  qed
qed

lemma initial_cfg_inv:
  "parser_inv p \<Longrightarrow> http_errno p = HPE_OK \<Longrightarrow> cfg_inv 0 (initial_cfg p u)"
  by (auto simp: parser_inv_def cfg_inv_def initial_cfg_def marks_ok_def initial_marks_def mark_state_def
      split: mark.splits if_splits)

lemma execute_eof_ok:
  assumes "parser_inv p" and "http_errno p = HPE_OK"
  shows "\<exists>p' u' n. execute_eof settings p u = Some (p', u', n) \<and> n \<le> 1 \<and> parser_inv p'"
proof (cases "pstate p = s_body_identity_eof")
  case True
  show ?thesis
  proof (cases "on_message_complete settings")
    case None
    then show ?thesis
      using assms by (simp add: execute_eof_def True callback_defs CALLBACK_NOTIFY_gen_def initial_cfg_def result_of_def)
  next
    case (Some f)
    obtain r u' where "f (p\<lparr>pstate := s_body_identity_eof\<rparr>) u = (r, u')" by fastforce
    then show ?thesis
      using assms
      by (simp add: execute_eof_def True Some callback_defs CALLBACK_NOTIFY_gen_def initial_cfg_def result_of_def
          state_simps Let_def RETURN_def parser_inv_def st_inv_def range_ok_def)
  qed
next
  case False
  then show ?thesis using assms(1) by (auto simp: execute_eof_def parser_inv_def split: state.split)
qed

section \<open>Whole calls\<close>

lemma execute_ok:
  assumes "parser_inv p"
  shows "\<exists>p' u' n. http_parser_execute settings buf p u = Some (p', u', n) \<and> parser_inv p' \<and>
      n \<le> max 1 (length buf) \<and> (n < length buf \<longrightarrow> http_errno p' \<noteq> HPE_OK \<or> upgrade p')"
proof (cases "http_errno p = HPE_OK \<and> buf \<noteq> []")
  case True
  then have "ends_safe (length buf) (for_loop (settings, buf) (initial_cfg p u))"
    using for_loop_safe [OF initial_cfg_inv [OF assms], of u "(settings, buf)"] by (simp add: initial_cfg_def)
  then show ?thesis
    using True
    by (cases "for_loop (settings, buf) (initial_cfg p u)") (auto simp: http_parser_execute_def result_of_def return_ok_def)
next
  case False
  then show ?thesis
    using assms execute_eof_ok [OF assms, of settings u] by (cases "http_errno p = HPE_OK") (auto simp: http_parser_execute_def)
qed

lemma init_inv: "parser_inv (http_parser_init t)"
  by (simp add: parser_inv_def http_parser_init_def st_inv_def range_ok_def)

text \<open>A stream fed to the parser in pieces, until it is used up.\<close>

primrec execute_all ::
  "'u http_parser_settings \<Rightarrow> string list \<Rightarrow> http_parser \<Rightarrow> 'u \<Rightarrow> (http_parser \<times> 'u) option" where
  "execute_all settings [] p u = Some (p, u)"
| "execute_all settings (buf # bufs) p u =
     (case http_parser_execute settings buf p u of
        None \<Rightarrow> None
      | Some (p', u', _) \<Rightarrow> execute_all settings bufs p' u')"

lemma execute_all_ok:
  "parser_inv p \<Longrightarrow> \<exists>p' u'. execute_all settings bufs p u = Some (p', u') \<and> parser_inv p'"
proof (induction bufs arbitrary: p u)
  case (Cons buf bufs)
  obtain p' u' n where "http_parser_execute settings buf p u = Some (p', u', n)" "parser_inv p'"
    using execute_ok [OF Cons.prems, of settings buf u] by blast
  with Cons.IH show ?case by simp
qed simp

section \<open>Bodies\<close>

lemma execute_body:
  assumes "pstate p = s_body_identity" and "http_errno p = HPE_OK" and "content_length p < ULLONG_MAX"
    and "buf \<noteq> []" and "length buf < content_length p"
    and "on_body settings = Some f" and "f (p\<lparr>content_length := content_length p - length buf\<rparr>) buf u = (0, u')"
  shows "http_parser_execute settings buf p u =
    Some (p\<lparr>content_length := content_length p - length buf\<rparr>, u', length buf)"
proof -
  let ?e = "(settings, buf)" and ?c = "initial_cfg p u"
  let ?p = "p\<lparr>content_length := content_length p - length buf\<rparr>"
  let ?c' = "\<lparr>prs = ?p, p_state = s_body_identity, pos = length buf - 1, marks = [body_mark \<mapsto> 0], user = u\<rparr>"
  have f: "f (?p\<lparr>pstate := s_body_identity\<rparr>) buf u = (0, u')" 
  proof -
    have "?p\<lparr>pstate := s_body_identity\<rparr> = ?p" using assms(1) by simp
    then show ?thesis using assms(7) by (rule ssubst)
  qed
  have clear: "[body_mark \<mapsto> 0 :: nat](body_mark := None) = (\<lambda>_. None)" by auto
  have marks: "initial_marks s_body_identity = (\<lambda>_. None)"
    by (auto simp: initial_marks_def is_url_state_def fun_eq_iff split: mark.splits)
  have len: "0 < length buf" using assms(4) by simp
  have read: "to_read ?e ?c = length buf" using assms(5) by (simp add: to_read_def initial_cfg_def)
  have pos0: "pos ?c = 0" by (simp add: initial_cfg_def)
  have body: "loop_body ?e ?c = Break ?c'"
    using len assms(1,3,5) read marks
    by (simp add: loop_body_def PARSING_HEADER_def reexecute.simps switch_state_def at_s_body_identity_def assert_def
        initial_cfg_def take_body_def MARK_def upd_parser_def Let_def)
  have "finish_marks ?e (?c'\<lparr>pos := length buf\<rparr>) =
      Return \<lparr>prs = ?p, p_state = s_body_identity, pos = length buf, marks = (\<lambda>_. None), user = u'\<rparr> (length buf)"
    using assms(1,2,6) f clear
    by (simp add: finish_marks_def mark_list_def assert_def callback_defs CALLBACK_DATA_gen_def data_cb_def state_simps
        RETURN_def Let_def)
  then have "for_loop ?e (?c'\<lparr>pos := length buf\<rparr>) =
      Return \<lparr>prs = ?p, p_state = s_body_identity, pos = length buf, marks = (\<lambda>_. None), user = u'\<rparr> (length buf)"
    by (simp add: for_loop.simps)
  moreover have "for_loop ?e ?c = for_loop ?e (?c'\<lparr>pos := length buf\<rparr>)"
    using body len pos0 by (simp add: for_loop.simps [of ?e ?c])
  ultimately show ?thesis
    using assms(2,4) by (simp add: http_parser_execute_def result_of_def)
qed

lemma execute_all_body:
  assumes "pstate p = s_body_identity" and "http_errno p = HPE_OK" and "content_length p < ULLONG_MAX"
    and "[] \<notin> set bufs" and "length (concat bufs) < content_length p"
    and "on_body settings = Some (\<lambda>p s u. (0, u @ s))"
  shows "execute_all settings bufs p u = Some (p\<lparr>content_length := content_length p - length (concat bufs)\<rparr>, u @ concat bufs)"
  using assms(1-5)
proof (induction bufs arbitrary: p u)
  case (Cons buf bufs)
  have "http_parser_execute settings buf p u =
      Some (p\<lparr>content_length := content_length p - length buf\<rparr>, u @ buf, length buf)"
    by (rule execute_body) (use Cons.prems assms(6) in auto)
  with Cons show ?case by simp
qed simp

text \<open>The parser after a body of known length: ready for the next message, or for none when the connection is to be closed.\<close>

definition after_body :: "http_parser \<Rightarrow> http_parser" where
  "after_body p = (let p0 = p\<lparr>content_length := 0\<rparr> in p0\<lparr>pstate := if http_should_keep_alive p0 then start_state p0 else s_dead\<rparr>)"

lemma keep_alive_pstate [simp]: "http_should_keep_alive (p\<lparr>pstate := x\<rparr>) = http_should_keep_alive p" "start_state (p\<lparr>pstate := x\<rparr>) = start_state p"
  by (simp_all add: http_should_keep_alive_def http_message_needs_eof_def start_state_def)

lemma execute_body_done:
  assumes "pstate p = s_body_identity" and "http_errno p = HPE_OK" and "content_length p < ULLONG_MAX"
    and "buf \<noteq> []" and "length buf = content_length p" and "\<not> upgrade p"
    and "on_body settings = Some f" and "\<And>p. f p buf u = (0, u1)"
    and "on_message_complete settings = Some g" and "\<And>p. g p u1 = (0, u2)"
  shows "http_parser_execute settings buf p u = Some (after_body p, u2, length buf)"
proof -
  let ?e = "(settings, buf)" and ?c = "initial_cfg p u" and ?ch = "hd buf"
  let ?p1 = "p\<lparr>content_length := 0, pstate := s_message_done\<rparr>"
  let ?c1 = "\<lparr>prs = ?p1, p_state = s_message_done, pos = length buf - 1, marks = (\<lambda>_. None), user = u1\<rparr>"
  let ?c2 = "\<lparr>prs = after_body p, p_state = pstate (after_body p), pos = length buf - 1, marks = (\<lambda>_. None), user = u2\<rparr>"
  have marks: "initial_marks s_body_identity = (\<lambda>_. None)"
    by (auto simp: initial_marks_def is_url_state_def fun_eq_iff split: mark.splits)
  have clear: "[body_mark \<mapsto> 0 :: nat](body_mark := None) = (\<lambda>_. None)" by auto
  have len: "0 < length buf" "\<not> length buf \<le> length buf - Suc 0" using assms(4) by (cases buf; simp)+
  have read: "to_read ?e ?c = length buf" using assms(5) by (simp add: to_read_def initial_cfg_def)
  have ch: "snd ?e ! pos ?c = ?ch" and pos0: "pos ?c = 0" using assms(4) by (simp_all add: initial_cfg_def hd_conv_nth)
  have 1: "switch_state ?e ?c ?ch = Reexecute ?c1 ?ch"
    using len assms(1-3,5,7,8) read marks clear
    by (simp add: switch_state_def at_s_body_identity_def assert_def initial_cfg_def take_body_def MARK_def upd_parser_def Let_def
        CALLBACK_DATA_gen_def data_cb_def state_simps)
  have 2: "switch_state ?e ?c1 ?ch = Break ?c2"
    using assms(2,6,9,10)
    by (simp add: switch_state_def at_s_message_done_def message_complete_def callback_defs CALLBACK_NOTIFY_gen_def state_simps Let_def
        after_body_def NEW_MESSAGE_def)
  have "loop_body ?e ?c = Break ?c2"
    using 1 2 len assms(1) ch by (simp add: loop_body_def PARSING_HEADER_def reexecute.simps initial_cfg_def)
  then have "for_loop ?e ?c = for_loop ?e (?c2\<lparr>pos := length buf\<rparr>)"
    using len pos0 by (simp add: for_loop.simps [of ?e ?c])
  also have "\<dots> = Return (?c2\<lparr>pos := length buf\<rparr>) (length buf)"
    using assms(2)
    by (simp add: for_loop.simps finish_marks_def mark_list_def assert_def callback_defs CALLBACK_DATA_gen_def RETURN_def state_simps after_body_def Let_def)
  finally show ?thesis
    using assms(2,4) by (simp add: http_parser_execute_def result_of_def)
qed

lemma execute_all_body_done:
  assumes "pstate p = s_body_identity" and "http_errno p = HPE_OK" and "content_length p < ULLONG_MAX" and "0 < content_length p"
    and "\<not> upgrade p" and "[] \<notin> set bufs" and "length (concat bufs) = content_length p"
    and "on_body settings = Some (\<lambda>p s u. (0, u @ s))" and "on_message_complete settings = Some (\<lambda>p u. (0, fin u))"
  shows "execute_all settings bufs p u = Some (after_body p, fin (u @ concat bufs))"
  using assms(1-7)
proof (induction bufs arbitrary: p u)
  case (Cons buf bufs)
  show ?case
  proof (cases "bufs = []")
    case True
    then have "http_parser_execute settings buf p u = Some (after_body p, fin (u @ buf), length buf)"
      using Cons.prems assms(8,9) by (intro execute_body_done [where ?u1.0 = "u @ buf"]) auto
    then show ?thesis
      using True by simp
  next
    case False
    let ?p = "p\<lparr>content_length := content_length p - length buf\<rparr>"
    have l: "0 < length (concat bufs)"
      using False Cons.prems(6) by (cases bufs) auto
    then have less: "length buf < content_length p"
      using Cons.prems(7) unfolding concat.simps length_append by linarith
    then have "http_parser_execute settings buf p u = Some (?p, u @ buf, length buf)"
      using Cons.prems assms(8) by (intro execute_body) auto
    moreover have "after_body ?p = after_body p"
      by (simp add: after_body_def)
    moreover have "execute_all settings bufs ?p (u @ buf) = Some (after_body ?p, fin ((u @ buf) @ concat bufs))"
      using Cons.prems less by (intro Cons.IH) auto
    ultimately show ?thesis
      by simp
  qed
qed simp

section \<open>Numbers\<close>

text \<open>The digits of a content length, taken one after the other, and their value.\<close>

primrec content_length_run :: "string \<Rightarrow> header_states \<Rightarrow> http_parser \<Rightarrow> value_step" where
  "content_length_run [] h p = VGo h p"
| "content_length_run (ch # ds) h p =
     (case content_length_digit ch h p of VGo h' p' \<Rightarrow> content_length_run ds h' p' | out \<Rightarrow> out)"

definition decimal :: "nat \<Rightarrow> string \<Rightarrow> nat" where
  "decimal v ds = foldl (\<lambda>v ch. v * 10 + digit ch) v ds"

lemma decimal_ge: "v \<le> decimal v ds"
proof (induction ds arbitrary: v)
  case (Cons ch ds)
  have "v \<le> v * 10 + digit ch" by simp
  also have "\<dots> \<le> decimal (v * 10 + digit ch) ds" by (rule Cons)
  finally show ?case by (simp add: decimal_def)
qed (simp add: decimal_def)

lemma content_length_digit_num:
  assumes "IS_NUM ch" and "content_length p \<le> 18446744073709551609"
  shows "content_length_digit ch h p =
    (if content_length p * 10 + digit ch \<le> 18446744073709551609
     then VGo h (p\<lparr>content_length := content_length p * 10 + digit ch\<rparr>)
     else VError HPE_INVALID_CONTENT_LENGTH h)"
proof -
  have "ch \<noteq> SP" using assms(1) by (auto simp: IS_NUM_def code_def)
  with assms digit_le [OF assms(1)] show ?thesis
    by (auto simp: content_length_digit_def ULLONG_MAX_def Let_def)
qed

lemma content_length_run_value:
  assumes "\<forall>ch \<in> set ds. IS_NUM ch" and "content_length p \<le> 18446744073709551609"
  shows "content_length_run ds h p =
    (if decimal (content_length p) ds \<le> 18446744073709551609
     then VGo h (p\<lparr>content_length := decimal (content_length p) ds\<rparr>)
     else VError HPE_INVALID_CONTENT_LENGTH h)"
  using assms
proof (induction ds arbitrary: p)
  case (Cons ch ds)
  have "decimal (content_length p) (ch # ds) = decimal (content_length p * 10 + digit ch) ds" by (simp add: decimal_def)
  moreover have "content_length p * 10 + digit ch \<le> decimal (content_length p * 10 + digit ch) ds" by (rule decimal_ge)
  ultimately show ?case
    using Cons content_length_digit_num [of ch p h] by auto
qed (simp add: decimal_def)

lemma chunk_digit:
  assumes "flag F_CHUNKED (prs c)" and "0 \<le> unhex ! code ch" and "content_length (prs c) \<le> ULLONG_MAX" and "ch \<noteq> CR"
  shows "at_s_chunk_size c ch =
    (let v = content_length (prs c) * 16 + nat (unhex ! code ch) in
     if v \<le> 2 ^ 64 - 17 then Break (upd_parser (\<lambda>p. p\<lparr>content_length := v\<rparr>) c)
     else goto_error HPE_INVALID_CONTENT_LENGTH c)"
  using assms unhex_range [of ch]
  by (auto simp: at_s_chunk_size_def assert_def Let_def ULLONG_MAX_def)

section \<open>Properties\<close>

text \<open>
  C1. A call of \<^verbatim>\<open>http_parser_execute\<close> on a parser in a consistent state always returns: no assertion
  fails, no byte outside the buffer is read and no callback gets a range outside it. It leaves the parser in a consistent
  state, consumes at most the bytes given (an empty buffer, which announces the end of the stream, may answer 1), and
  consumes fewer only on an error or an upgrade. The application's callbacks are arbitrary.
\<close>

theorem http_parser_execute_safe:
  assumes "parser_inv p"
  shows "\<exists>p' u' n. http_parser_execute settings buf p u = Some (p', u', n) \<and> parser_inv p' \<and>
      n \<le> max 1 (length buf) \<and> (n < length buf \<longrightarrow> http_errno p' \<noteq> HPE_OK \<or> upgrade p')"
  using assms by (rule execute_ok)

theorem http_parser_execute_safe_witness:
  "parser_inv (http_parser_init HTTP_REQUEST) \<and>
   (\<exists>p' u' n. http_parser_execute http_parser_settings_init ''GET / HTTP/1.1'' (http_parser_init HTTP_REQUEST) () =
      Some (p', u', n) \<and> parser_inv p' \<and> n \<le> 14)"
  using init_inv [of HTTP_REQUEST]
    http_parser_execute_safe [OF init_inv [of HTTP_REQUEST], of http_parser_settings_init "''GET / HTTP/1.1''" "()"]
  by auto

text \<open>
  C2. From its initial state, whatever the bytes, however they are cut into buffers and whatever the callbacks do, the
  parser takes every buffer, and while it reports no error it has counted at most \<^verbatim>\<open>HTTP_MAX_HEADER_SIZE\<close>
  bytes of the headers, has a status code of at most three digits and a content length that fits its 64 bits.
\<close>

theorem streams_keep_bounds:
  "\<exists>p u'. execute_all settings bufs (http_parser_init t) u = Some (p, u') \<and>
     (http_errno p \<noteq> HPE_OK \<or>
      (nread p \<le> HTTP_MAX_HEADER_SIZE \<and> status_code p \<le> 999 \<and> content_length p \<le> ULLONG_MAX))"
  using execute_all_ok [OF init_inv, of settings bufs t u] by (auto simp: parser_inv_def range_ok_def)

theorem streams_keep_bounds_witness:
  "\<exists>p u'. execute_all http_parser_settings_init [''GET / '', ''HTTP/1.1''] (http_parser_init HTTP_REQUEST) () = Some (p, u')"
  using streams_keep_bounds [of http_parser_settings_init "[''GET / '', ''HTTP/1.1'']" HTTP_REQUEST "()"] by blast

text \<open>
  C3. A body of known length that arrives in any number of pieces is handed to \<^verbatim>\<open>on_body\<close> byte for byte in order. With a callback
  that collects the bytes, pieces that do not complete the body end up concatenated, and the length still missing is what was
  announced less what has arrived; pieces that make up the whole body, the last byte included, end up concatenated too, then
  \<^verbatim>\<open>on_message_complete\<close> is called once, and the parser is ready for the next message, or for none if the connection is to be closed.
\<close>

theorem body_pieces_delivered:
  assumes "pstate p = s_body_identity" and "http_errno p = HPE_OK" and "content_length p < ULLONG_MAX" and "0 < content_length p"
    and "\<not> upgrade p" and "[] \<notin> set bufs" and "length (concat bufs) \<le> content_length p"
    and "on_body settings = Some (\<lambda>p s u. (0, u @ s))" and "on_message_complete settings = Some (\<lambda>p u. (0, fin u))"
  shows "execute_all settings bufs p u =
    (if length (concat bufs) < content_length p
     then Some (p\<lparr>content_length := content_length p - length (concat bufs)\<rparr>, u @ concat bufs)
     else Some (after_body p, fin (u @ concat bufs)))"
  using execute_all_body [OF assms(1-3,6) _ assms(8)] execute_all_body_done [OF assms(1-6) _ assms(8,9)] assms(7) by simp

theorem body_pieces_delivered_witness:
  "execute_all (http_parser_settings_init\<lparr>on_body := Some (\<lambda>p s u. (0, u @ s)), on_message_complete := Some (\<lambda>p u. (0, u @ ''!''))\<rparr>) [''he'', ''llo'']
     ((http_parser_init HTTP_RESPONSE)\<lparr>pstate := s_body_identity, content_length := 5, http_major := 1, http_minor := 1\<rparr>) ''> '' =
   Some ((http_parser_init HTTP_RESPONSE)\<lparr>content_length := 0, http_major := 1, http_minor := 1\<rparr>, ''> hello!'')"
  using body_pieces_delivered [of "(http_parser_init HTTP_RESPONSE)\<lparr>pstate := s_body_identity, content_length := 5, http_major := 1, http_minor := 1\<rparr>"
      "[''he'', ''llo'']" "http_parser_settings_init\<lparr>on_body := Some (\<lambda>p s u. (0, u @ s)), on_message_complete := Some (\<lambda>p u. (0, u @ ''!''))\<rparr>"
      "\<lambda>u. u @ ''!''" "''> ''"]
  by (simp add: http_parser_init_def ULLONG_MAX_def after_body_def http_should_keep_alive_def http_message_needs_eof_def start_state_def Let_def)

text \<open>
  C28. The digits of a \<^verbatim>\<open>Content-Length\<close> give their decimal value, never a wrapped one: a value of at most
  18446744073709551609 is taken, any larger one is refused as an invalid content length.
\<close>

theorem content_length_exact:
  assumes "\<forall>ch \<in> set ds. IS_NUM ch" and "content_length p \<le> 18446744073709551609"
  shows "content_length_run ds h p =
    (if decimal (content_length p) ds \<le> 18446744073709551609
     then VGo h (p\<lparr>content_length := decimal (content_length p) ds\<rparr>)
     else VError HPE_INVALID_CONTENT_LENGTH h)"
  using assms by (rule content_length_run_value)

theorem content_length_exact_witness:
  "content_length_run ''120'' h_content_length_num (http_parser_init HTTP_RESPONSE) =
     VGo h_content_length_num ((http_parser_init HTTP_RESPONSE)\<lparr>content_length := 120\<rparr>)"
  using content_length_exact [of "''120''" "http_parser_init HTTP_RESPONSE" h_content_length_num]
  by (simp add: IS_NUM_def code_def decimal_def digit_def http_parser_init_def)

text \<open>
  A digit of a chunk size multiplies the size by 16 and adds its value, exactly: a size of at most
  2 to the power 64 less 17 is taken, any larger one is refused.
\<close>

theorem chunk_size_exact:
  assumes "flag F_CHUNKED (prs c)" and "0 \<le> unhex ! code ch" and "content_length (prs c) \<le> ULLONG_MAX" and "ch \<noteq> CR"
  shows "at_s_chunk_size c ch =
    (let v = content_length (prs c) * 16 + nat (unhex ! code ch) in
     if v \<le> 2 ^ 64 - 17 then Break (upd_parser (\<lambda>p. p\<lparr>content_length := v\<rparr>) c)
     else goto_error HPE_INVALID_CONTENT_LENGTH c)"
  using assms by (rule chunk_digit)

theorem chunk_size_exact_witness:
  "at_s_chunk_size (initial_cfg (set_flag F_CHUNKED ((http_parser_init HTTP_RESPONSE)\<lparr>content_length := 1\<rparr>)) ()) CHR ''A'' =
   Break (upd_parser (\<lambda>p. p\<lparr>content_length := 26\<rparr>)
     (initial_cfg (set_flag F_CHUNKED ((http_parser_init HTTP_RESPONSE)\<lparr>content_length := 1\<rparr>)) ()))"
  using chunk_size_exact [of "initial_cfg (set_flag F_CHUNKED ((http_parser_init HTTP_RESPONSE)\<lparr>content_length := 1\<rparr>)) ()"
      "CHR ''A''"]
  by (simp add: initial_cfg_def unhex_def code_def ULLONG_MAX_def)

text \<open>
  Pausing a parser stops it: it consumes nothing and changes nothing until it is resumed, and resuming gives back
  the parser as it was.
\<close>

theorem pause_resume:
  assumes "http_errno p = HPE_OK"
  shows "\<exists>q. http_parser_pause p True = Some q \<and> http_parser_execute settings buf q u = Some (q, u, 0) \<and>
      http_parser_pause q False = Some p"
  using assms by (simp add: http_parser_pause_def http_parser_execute_def)

theorem pause_resume_witness:
  "\<exists>q. http_parser_pause (http_parser_init HTTP_BOTH) True = Some q \<and>
     http_parser_execute http_parser_settings_init ''GET'' q () = Some (q, (), 0) \<and>
     http_parser_pause q False = Some (http_parser_init HTTP_BOTH)"
  by (rule pause_resume) (simp add: http_parser_init_def)

text \<open>
  The state switch makes progress on every byte: the position never moves back, and when a case asks for the
  switch to run again on the same byte the state it leads to has a smaller rank, of which there are five. So every byte
  costs at most five runs of the switch, whatever the callbacks do.
\<close>

theorem switch_makes_progress:
  assumes "pos c < length (snd e)"
  shows "progress c (switch_state e c ch) \<and> rank (p_state c) \<le> 4"
  using switch_progress [OF assms, of ch] by (simp add: rank_def split: state.split)

theorem switch_makes_progress_witness:
  "progress (initial_cfg (http_parser_init HTTP_BOTH) ())
     (switch_state (http_parser_settings_init, ''HTTP'') (initial_cfg (http_parser_init HTTP_BOTH) ()) CHR ''H'')"
  using switch_makes_progress [of "initial_cfg (http_parser_init HTTP_BOTH) ()" "(http_parser_settings_init, ''HTTP'')"
      "CHR ''H''"]
  by (simp add: initial_cfg_def)

end
