(* ===== verification/IOBuffer.thy ===== *)
theory IOBuffer
  imports Prelude
begin

text \<open>
  The I/O buffer of \<^verbatim>\<open>src/common/io_buffer.h\<close> and \<^verbatim>\<open>src/common/io_buffer.cpp\<close>:
  reference-counted blocks, the thread-local chain of blocks with free space, and the
  \<^verbatim>\<open>IOBuffer\<close> class, a vector of slices into shared blocks.

  The heap is an explicit store: \<open>blocks\<close> maps block addresses to blocks, the addresses
  below \<open>next_block\<close> are the allocated ones. A \<^verbatim>\<open>shared_ptr\<close> is an address; a block
  that some slice or the chain still refers to is never reclaimed, so the store only grows.
  The \<open>n\<close>-th call of \<^verbatim>\<open>malloc\<close> succeeds when \<open>malloc_ok n\<close> holds, and the fresh
  memory has arbitrary contents (\<open>junk\<close>). The two-word header in front of a block's data is
  24 bytes on the 64-bit hosts the library is built for.

  Several loops of the source follow \<^verbatim>\<open>next\<close> pointers and stop only when the chain
  does; they are partial functions, with \<^term>\<open>None\<close> for a loop that does not stop or for an
  access through a null pointer. The invariants \<open>heap_ok\<close> and \<open>buf_ok\<close> exclude both.
\<close>

section \<open>Blocks and the thread-local chain\<close>

record block =
  bnext :: "nat option"
  bsize :: nat
  bcapacity :: nat
  bdata :: "nat \<Rightarrow> u8"

record slice =
  sblock :: nat
  soffset :: nat
  slength :: nat

record iobuf =
  refs :: "slice list"
  ref_offset :: nat

record heap =
  blocks :: "nat \<Rightarrow> block"
  next_block :: nat
  tls_chain :: "nat option"
  attempts :: nat
  malloc_ok :: "nat \<Rightarrow> bool"
  junk :: "nat \<Rightarrow> nat \<Rightarrow> u8"

definition BUFFER_DEFAULT_BLOCK_SIZE :: nat where
  "BUFFER_DEFAULT_BLOCK_SIZE = 8192"

definition offsetof_block_data :: nat where
  "offsetof_block_data = 24"

definition freeSpace :: "block \<Rightarrow> nat" where
  "freeSpace b = bcapacity b - bsize b"

definition new_block :: "(nat \<Rightarrow> u8) \<Rightarrow> nat \<Rightarrow> block" where
  "new_block mem hint_size =
     \<lparr>bnext = None, bsize = 0, bcapacity = hint_size - offsetof_block_data, bdata = mem\<rparr>"

definition upd_block :: "nat \<Rightarrow> (block \<Rightarrow> block) \<Rightarrow> heap \<Rightarrow> heap" where
  "upd_block i f h = h\<lparr>blocks := (blocks h)(i := f (blocks h i))\<rparr>"

definition createBlock :: "heap \<Rightarrow> heap \<times> nat option" where
  "createBlock h =
     (let n = attempts h; i = next_block h; h1 = h\<lparr>attempts := Suc n\<rparr>
      in if malloc_ok h n
         then (h1\<lparr>blocks := (blocks h)(i := new_block (junk h n) BUFFER_DEFAULT_BLOCK_SIZE),
                  next_block := Suc i\<rparr>, Some i)
         else (h1, None))"

partial_function (option) shareBlockFromTLSChain :: "heap \<Rightarrow> (heap \<times> nat option) option" where
  "shareBlockFromTLSChain h =
     (case tls_chain h of
        Some i \<Rightarrow>
          if 0 < freeSpace (blocks h i) then Some (h, Some i)
          else shareBlockFromTLSChain (h\<lparr>tls_chain := bnext (blocks h i)\<rparr>)
      | None \<Rightarrow>
          (let (h1, r) = createBlock h in Some (h1\<lparr>tls_chain := r\<rparr>, r)))"

definition releaseBlockToTLSChain :: "nat \<Rightarrow> heap \<Rightarrow> heap" where
  "releaseBlockToTLSChain i h =
     (if freeSpace (blocks h i) = 0 then h
      else (upd_block i (\<lambda>b. b\<lparr>bnext := tls_chain h\<rparr>) h)\<lparr>tls_chain := Some i\<rparr>)"

partial_function (option) acquireBlockFromTLSChain :: "heap \<Rightarrow> (heap \<times> nat option) option" where
  "acquireBlockFromTLSChain h =
     (case tls_chain h of
        Some i \<Rightarrow>
          if 0 < freeSpace (blocks h i)
          then Some (upd_block i (\<lambda>b. b\<lparr>bnext := None\<rparr>) (h\<lparr>tls_chain := bnext (blocks h i)\<rparr>), Some i)
          else acquireBlockFromTLSChain (h\<lparr>tls_chain := bnext (blocks h i)\<rparr>)
      | None \<Rightarrow> Some (createBlock h))"

definition write_mem :: "nat \<Rightarrow> bytes \<Rightarrow> block \<Rightarrow> block" where
  "write_mem off xs b =
     b\<lparr>bdata := (\<lambda>j. if off \<le> j \<and> j < off + length xs then xs ! (j - off) else bdata b j)\<rparr>"

section \<open>Construction, assignment, observers\<close>

definition IO_BUFFER_DEFAULT_SLICE_REF_SIZE :: nat where
  "IO_BUFFER_DEFAULT_SLICE_REF_SIZE = 4"

definition buf_new :: iobuf where
  "buf_new = \<lparr>refs = [], ref_offset = 0\<rparr>"

definition buf_clear :: "iobuf \<Rightarrow> iobuf" where
  "buf_clear b = b\<lparr>refs := [], ref_offset := 0\<rparr>"

definition buf_copy :: "iobuf \<Rightarrow> iobuf" where
  "buf_copy right = \<lparr>refs = refs right, ref_offset = ref_offset right\<rparr>"

text \<open>Move construction: the new buffer and what is left of the source.\<close>

definition buf_move :: "iobuf \<Rightarrow> iobuf \<times> iobuf" where
  "buf_move right =
     (\<lparr>refs = refs right, ref_offset = ref_offset right\<rparr>, buf_clear (right\<lparr>refs := []\<rparr>))"

definition buf_assign :: "iobuf \<Rightarrow> iobuf \<Rightarrow> iobuf" where
  "buf_assign this right = this\<lparr>refs := refs right, ref_offset := ref_offset right\<rparr>"

text \<open>Move assignment moves the slices and leaves the target's own \<^verbatim>\<open>_ref_offset\<close>.\<close>

definition buf_move_assign :: "iobuf \<Rightarrow> iobuf \<Rightarrow> iobuf \<times> iobuf" where
  "buf_move_assign this right = (this\<lparr>refs := refs right\<rparr>, buf_clear (right\<lparr>refs := []\<rparr>))"

definition buf_swap :: "iobuf \<Rightarrow> iobuf \<Rightarrow> iobuf \<times> iobuf" where
  "buf_swap this right =
     (this\<lparr>refs := refs right, ref_offset := ref_offset right\<rparr>,
      right\<lparr>refs := refs this, ref_offset := ref_offset this\<rparr>)"

definition slice_bytes :: "heap \<Rightarrow> slice \<Rightarrow> bytes" where
  "slice_bytes h s = map (bdata (blocks h (sblock s))) [soffset s ..< soffset s + slength s]"

definition to_string :: "heap \<Rightarrow> iobuf \<Rightarrow> bytes" where
  "to_string h b = concat (map (slice_bytes h) (drop (ref_offset b) (refs b)))"

definition buf_length :: "iobuf \<Rightarrow> nat" where
  "buf_length b = sum_list (map slength (drop (ref_offset b) (refs b)))"

definition buf_empty :: "iobuf \<Rightarrow> bool" where
  "buf_empty b \<longleftrightarrow> buf_length b = 0"

definition slice_num :: "iobuf \<Rightarrow> nat" where
  "slice_num b = length (refs b) - ref_offset b"

definition slice_at :: "heap \<Rightarrow> iobuf \<Rightarrow> nat \<Rightarrow> bytes option" where
  "slice_at h b i =
     (if ref_offset b + i < length (refs b) then Some (slice_bytes h (refs b ! (ref_offset b + i)))
      else None)"

definition block_at :: "heap \<Rightarrow> iobuf \<Rightarrow> nat \<Rightarrow> bytes option" where
  "block_at h b i =
     (if ref_offset b + i < length (refs b)
      then let k = blocks h (sblock (refs b ! (ref_offset b + i))) in Some (map (bdata k) [0 ..< bsize k])
      else None)"

section \<open>Releasing consumed slices\<close>

function move_slices_down :: "slice list \<Rightarrow> nat \<Rightarrow> nat \<Rightarrow> slice list \<times> nat" where
  "move_slices_down rs itr i =
     (if i < length rs then move_slices_down (rs[itr := rs ! i]) (Suc itr) (Suc i) else (rs, itr))"
  by pat_completeness auto
termination
  by (relation "measure (\<lambda>(rs, itr, i). length rs - i)") auto

definition tryReleaseBlock :: "iobuf \<Rightarrow> iobuf" where
  "tryReleaseBlock b =
     (if ref_offset b > IO_BUFFER_DEFAULT_SLICE_REF_SIZE
      then if length (refs b) - ref_offset b = 0 then b\<lparr>refs := [], ref_offset := 0\<rparr>
           else let (rs, itr) = move_slices_down (refs b) 0 (ref_offset b)
                in b\<lparr>refs := take itr rs, ref_offset := 0\<rparr>
      else b)"

section \<open>Removing bytes\<close>

definition skip_front :: "nat \<Rightarrow> slice \<Rightarrow> slice" where
  "skip_front n s = s\<lparr>soffset := soffset s + n, slength := slength s - n\<rparr>"

function pop_front_loop :: "nat \<Rightarrow> slice list \<Rightarrow> nat \<Rightarrow> nat \<Rightarrow> slice list \<times> nat \<times> nat" where
  "pop_front_loop n rs idx cur =
     (if cur < n then
        if idx \<ge> length rs then (rs, idx, cur)
        else let pop_size = n - cur in
          if pop_size < slength (rs ! idx)
          then pop_front_loop n (rs[idx := skip_front pop_size (rs ! idx)]) idx (cur + pop_size)
          else pop_front_loop n rs (Suc idx) (cur + slength (rs ! idx))
      else (rs, idx, cur))"
  by pat_completeness auto
termination
  by (relation "measure (\<lambda>(n, rs, idx, cur). (n - cur) + (length rs - idx))") auto

definition pop_front :: "nat \<Rightarrow> iobuf \<Rightarrow> iobuf \<times> nat" where
  "pop_front n b =
     (let (rs, idx, cur) = pop_front_loop n (refs b) (ref_offset b) 0
      in (tryReleaseBlock (b\<lparr>refs := rs, ref_offset := idx\<rparr>), cur))"

text \<open>The index of \<^verbatim>\<open>pop_back\<close> always names the last slice, so it is left implicit.\<close>

function pop_back_loop :: "nat \<Rightarrow> slice list \<Rightarrow> nat \<Rightarrow> nat \<Rightarrow> slice list \<times> nat" where
  "pop_back_loop n rs lo cur =
     (if cur < n then
        if length rs \<le> lo then (rs, cur)
        else let pop_size = n - cur; s = last rs in
          if pop_size < slength s
          then pop_back_loop n (butlast rs @ [s\<lparr>slength := slength s - pop_size\<rparr>]) lo (cur + pop_size)
          else pop_back_loop n (butlast rs) lo (cur + slength s)
      else (rs, cur))"
  by pat_completeness auto
termination
  by (relation "measure (\<lambda>(n, rs, lo, cur). (n - cur) + length rs)") auto

definition pop_back :: "nat \<Rightarrow> iobuf \<Rightarrow> iobuf \<times> nat" where
  "pop_back n b =
     (let (rs, cur) = pop_back_loop n (refs b) (ref_offset b) 0 in (b\<lparr>refs := rs\<rparr>, cur))"

declare move_slices_down.simps [simp del] pop_front_loop.simps [simp del] pop_back_loop.simps [simp del]

section \<open>Adding bytes\<close>

definition append_copy :: "iobuf \<Rightarrow> iobuf \<Rightarrow> iobuf" where
  "append_copy b other = b\<lparr>refs := refs b @ refs other\<rparr>"

definition append_move :: "iobuf \<Rightarrow> iobuf \<Rightarrow> iobuf \<times> iobuf" where
  "append_move b other = (b\<lparr>refs := refs b @ refs other\<rparr>, buf_clear other)"

text \<open>The slice for \<open>n\<close> new bytes at the end of block \<open>i\<close>: the last slice grows when it ends there.\<close>

definition push_slice :: "heap \<Rightarrow> nat \<Rightarrow> nat \<Rightarrow> iobuf \<Rightarrow> iobuf" where
  "push_slice h i n b =
     (if ref_offset b < length (refs b) \<and> sblock (last (refs b)) = i
         \<and> soffset (last (refs b)) + slength (last (refs b)) = bsize (blocks h i)
      then b\<lparr>refs := butlast (refs b) @ [(last (refs b))\<lparr>slength := slength (last (refs b)) + n\<rparr>]\<rparr>
      else b\<lparr>refs := refs b @ [\<lparr>sblock = i, soffset = bsize (blocks h i), slength = n\<rparr>]\<rparr>)"

text \<open>One block's worth of an append: copy the bytes, record the slice, advance the block's size.\<close>

definition append_chunk :: "heap \<Rightarrow> iobuf \<Rightarrow> nat \<Rightarrow> bytes \<Rightarrow> heap \<times> iobuf" where
  "append_chunk h b i xs =
     (let h1 = upd_block i (write_mem (bsize (blocks h i)) xs) h;
          b1 = push_slice h1 i (length xs) b
      in (upd_block i (\<lambda>k. k\<lparr>bsize := bsize k + length xs\<rparr>) h1, b1))"

definition append_char :: "heap \<Rightarrow> iobuf \<Rightarrow> u8 \<Rightarrow> (heap \<times> iobuf) option" where
  "append_char h b c =
     do { (h1, r) \<leftarrow> shareBlockFromTLSChain h;
          Some (case r of None \<Rightarrow> (h1, b) | Some i \<Rightarrow> append_chunk h1 b i [c]) }"

partial_function (option) append_loop ::
  "heap \<Rightarrow> iobuf \<Rightarrow> bytes \<Rightarrow> nat \<Rightarrow> (heap \<times> iobuf) option" where
  "append_loop h b data cur =
     (if cur < length data
      then Option.bind (shareBlockFromTLSChain h) (\<lambda>(h1, r).
        (case r of
           None \<Rightarrow> Some (h1, b)
         | Some i \<Rightarrow>
             (let push_size = min (length data - cur) (freeSpace (blocks h1 i));
                  (h2, b2) = append_chunk h1 b i (take push_size (drop cur data))
              in append_loop h2 b2 data (cur + push_size))))
      else Some (h, b))"

text \<open>\<^term>\<open>None\<close> is the null pointer, \<^term>\<open>Some xs\<close> a pointer to the bytes \<open>xs\<close> with their count.\<close>

definition append_data :: "heap \<Rightarrow> iobuf \<Rightarrow> bytes option \<Rightarrow> (heap \<times> iobuf) option" where
  "append_data h b data =
     (case data of
        None \<Rightarrow> Some (h, b)
      | Some xs \<Rightarrow> if length xs = 0 then Some (h, b) else append_loop h b xs 0)"

definition append_cstr :: "heap \<Rightarrow> iobuf \<Rightarrow> bytes \<Rightarrow> (heap \<times> iobuf) option" where
  "append_cstr h b s = append_data h b (Some (takeWhile (\<lambda>c. c \<noteq> 0) s))"

section \<open>Cutting and copying out\<close>

text \<open>\<^verbatim>\<open>cut(IOBuffer*, n)\<close>: whole slices move to the other buffer, the last one is shared.\<close>

function cut_buf_loop ::
  "nat \<Rightarrow> slice list \<Rightarrow> slice list \<Rightarrow> nat \<Rightarrow> nat \<Rightarrow> nat \<Rightarrow> slice list \<times> slice list \<times> nat \<times> nat" where
  "cut_buf_loop n rs out off idx cur =
     (if cur < n then
        if idx \<ge> length rs then (rs, out, off, cur)
        else let cut_size = n - cur in
          if cut_size < slength (rs ! idx)
          then cut_buf_loop n (rs[idx := skip_front cut_size (rs ! idx)])
                 (out @ [(rs ! idx)\<lparr>slength := cut_size\<rparr>]) off idx (cur + cut_size)
          else cut_buf_loop n rs (out @ [rs ! idx]) (Suc off) (Suc idx) (cur + slength (rs ! idx))
      else (rs, out, off, cur))"
  by pat_completeness auto
termination
  by (relation "measure (\<lambda>(n, rs, out, off, idx, cur). (n - cur) + (length rs - idx))") auto

definition cut_buf :: "nat \<Rightarrow> iobuf \<Rightarrow> iobuf \<Rightarrow> iobuf \<times> iobuf \<times> nat" where
  "cut_buf n b out =
     (let (rs, os, off, cur) = cut_buf_loop n (refs b) (refs out) (ref_offset b) (ref_offset b) 0
      in (tryReleaseBlock (b\<lparr>refs := rs, ref_offset := off\<rparr>), out\<lparr>refs := os\<rparr>, cur))"

text \<open>\<^verbatim>\<open>cut(void*, n)\<close>: the bytes stored at the destination, in the order they are stored.\<close>

function cut_mem_loop ::
  "heap \<Rightarrow> nat \<Rightarrow> slice list \<Rightarrow> bytes \<Rightarrow> nat \<Rightarrow> nat \<Rightarrow> nat \<Rightarrow> slice list \<times> bytes \<times> nat \<times> nat" where
  "cut_mem_loop h n rs out off idx cur =
     (if cur < n then
        if idx \<ge> length rs then (rs, out, off, cur)
        else let cut_size = n - cur in
          if cut_size < slength (rs ! idx)
          then cut_mem_loop h n (rs[idx := skip_front cut_size (rs ! idx)])
                 (out @ slice_bytes h ((rs ! idx)\<lparr>slength := cut_size\<rparr>)) off idx (cur + cut_size)
          else cut_mem_loop h n rs (out @ slice_bytes h (rs ! idx)) (Suc off) (Suc idx)
                 (cur + slength (rs ! idx))
      else (rs, out, off, cur))"
  by pat_completeness auto
termination
  by (relation "measure (\<lambda>(h, n, rs, out, off, idx, cur). (n - cur) + (length rs - idx))") auto

definition cut_mem :: "heap \<Rightarrow> nat \<Rightarrow> iobuf \<Rightarrow> iobuf \<times> bytes \<times> nat" where
  "cut_mem h n b =
     (let (rs, out, off, cur) = cut_mem_loop h n (refs b) [] (ref_offset b) (ref_offset b) 0
      in (tryReleaseBlock (b\<lparr>refs := rs, ref_offset := off\<rparr>), out, cur))"

definition cut_str :: "heap \<Rightarrow> nat \<Rightarrow> iobuf \<Rightarrow> bytes \<Rightarrow> iobuf \<times> bytes \<times> nat" where
  "cut_str h n b out =
     (if n = 0 then (b, out, 0)
      else let (b1, xs, k) = cut_mem h (min n (buf_length b)) b in (b1, out @ xs, k))"

function copy_to_loop :: "heap \<Rightarrow> nat \<Rightarrow> slice list \<Rightarrow> bytes \<Rightarrow> nat \<Rightarrow> nat \<Rightarrow> bytes \<times> nat" where
  "copy_to_loop h n rs out idx cur =
     (if cur < n then
        if idx \<ge> length rs then (out, cur)
        else let cut_size = n - cur in
          if cut_size < slength (rs ! idx)
          then copy_to_loop h n rs (out @ slice_bytes h ((rs ! idx)\<lparr>slength := cut_size\<rparr>)) idx (cur + cut_size)
          else copy_to_loop h n rs (out @ slice_bytes h (rs ! idx)) (Suc idx) (cur + slength (rs ! idx))
      else (out, cur))"
  by pat_completeness auto
termination
  by (relation "measure (\<lambda>(h, n, rs, out, idx, cur). (n - cur) + (length rs - idx))") auto

definition copy_to :: "heap \<Rightarrow> nat \<Rightarrow> iobuf \<Rightarrow> bytes \<times> nat" where
  "copy_to h n b = copy_to_loop h n (refs b) [] (ref_offset b) 0"

declare cut_buf_loop.simps [simp del] cut_mem_loop.simps [simp del] copy_to_loop.simps [simp del]

section \<open>File descriptors\<close>

text \<open>
  \<^verbatim>\<open>writev\<close> is a parameter: given the byte vectors it answers how many bytes the kernel
  took, or a negative number. The loop reads the first slice before it tests how many there
  are; on a buffer without slices that is an access out of range, \<^term>\<open>None\<close>.
\<close>

definition IOBUF_IOV_MAX :: nat where
  "IOBUF_IOV_MAX = 256"

function gather :: "heap \<Rightarrow> iobuf \<Rightarrow> nat \<Rightarrow> nat \<Rightarrow> nat \<Rightarrow> nat \<Rightarrow> bytes list option" where
  "gather h b nref size_hint nvec cur =
     (case slice_at h b nvec of
        None \<Rightarrow> None
      | Some xs \<Rightarrow>
          if Suc nvec < nref \<and> cur + length xs < size_hint
          then map_option ((#) xs) (gather h b nref size_hint (Suc nvec) (cur + length xs))
          else Some [xs])"
  by pat_completeness auto
termination
  by (relation "measure (\<lambda>(h, b, nref, size_hint, nvec, cur). nref - nvec)") auto

declare gather.simps [simp del]

definition cut_into_file_descriptor ::
  "heap \<Rightarrow> (bytes list \<Rightarrow> int) \<Rightarrow> nat \<Rightarrow> iobuf \<Rightarrow> (iobuf \<times> int) option" where
  "cut_into_file_descriptor h writev size_hint b =
     do { vec \<leftarrow> gather h b (min (length (refs b) - ref_offset b) IOBUF_IOV_MAX) size_hint 0 0;
          let nw = writev vec;
          Some (if 0 < nw then fst (pop_front (nat nw) b) else b, nw) }"

text \<open>
  \<^verbatim>\<open>readv\<close> is a parameter too: from the lengths of the vectors to the byte count and
  the bytes received, which the kernel stores into the vectors in order.
\<close>

definition MAX_APPEND_IOVEC :: nat where
  "MAX_APPEND_IOVEC = 64"

type_synonym iovec = "nat \<times> nat \<times> nat"  \<comment> \<open>block, offset of the base, length\<close>

text \<open>
  The first loop chains acquired blocks through \<^verbatim>\<open>next\<close>; the result is the heap, the
  head of the chain and the vectors, or \<open>Inl\<close> of the heap when an allocation failed.
\<close>

function acquire_vecs ::
  "heap \<Rightarrow> nat \<Rightarrow> nat option \<Rightarrow> nat option \<Rightarrow> iovec list \<Rightarrow> nat
     \<Rightarrow> (heap + heap \<times> nat option \<times> iovec list) option" where
  "acquire_vecs h max_size block_head block_tail vec space =
     (case acquireBlockFromTLSChain h of
        None \<Rightarrow> None
      | Some (h1, None) \<Rightarrow> Some (Inl h1)
      | Some (h1, Some i) \<Rightarrow>
          (let (h2, head) = (case block_tail of
                               Some t \<Rightarrow> (upd_block t (\<lambda>b. b\<lparr>bnext := Some i\<rparr>) h1, block_head)
                             | None \<Rightarrow> (h1, Some i));
               len = min (freeSpace (blocks h2 i)) (max_size - space);
               vec' = vec @ [(i, bsize (blocks h2 i), len)];
               space' = space + len
           in if space' \<ge> max_size \<or> length vec' \<ge> MAX_APPEND_IOVEC then Some (Inr (h2, head, vec'))
              else acquire_vecs h2 max_size head (Some i) vec' space'))"
  by pat_completeness auto
termination
  by (relation "measure (\<lambda>(h, m, hd, tl, vec, space). MAX_APPEND_IOVEC - length vec)")
    (auto simp: MAX_APPEND_IOVEC_def)

declare acquire_vecs.simps [simp del]

fun scatter :: "iovec list \<Rightarrow> bytes \<Rightarrow> heap \<Rightarrow> heap" where
  "scatter [] xs h = h"
| "scatter ((i, off, len) # vs) xs h =
     scatter vs (drop len xs) (upd_block i (write_mem off (take len xs)) h)"

text \<open>The received bytes become slices, block by block along the chain.\<close>

partial_function (option) claim_slices ::
  "heap \<Rightarrow> iobuf \<Rightarrow> nat option \<Rightarrow> nat \<Rightarrow> (heap \<times> iobuf \<times> nat option) option" where
  "claim_slices h b block_head total_len =
     (case block_head of
        None \<Rightarrow> None
      | Some i \<Rightarrow>
          (let len = min total_len (freeSpace (blocks h i));
               b1 = b\<lparr>refs := refs b @ [\<lparr>sblock = i, soffset = bsize (blocks h i), slength = len\<rparr>]\<rparr>;
               h1 = upd_block i (\<lambda>k. k\<lparr>bsize := bsize k + len\<rparr>) h;
               head = (if freeSpace (blocks h1 i) = 0 then bnext (blocks h1 i) else Some i)
           in if 0 < total_len - len then claim_slices h1 b1 head (total_len - len)
              else Some (h1, b1, head)))"

text \<open>
  The last loop hands the chain back. \<^verbatim>\<open>releaseBlockToTLSChain\<close> takes the pointer by
  reference and overwrites the block's \<^verbatim>\<open>next\<close>, so the loop goes on along the
  thread-local chain, not along the acquired blocks.
\<close>

partial_function (option) release_chain :: "heap \<Rightarrow> nat option \<Rightarrow> heap option" where
  "release_chain h block_head =
     (case block_head of
        None \<Rightarrow> Some h
      | Some i \<Rightarrow>
          (let h1 = releaseBlockToTLSChain i h in release_chain h1 (bnext (blocks h1 i))))"

definition append_from_file_descriptor ::
  "heap \<Rightarrow> (nat list \<Rightarrow> int \<times> bytes) \<Rightarrow> nat \<Rightarrow> iobuf \<Rightarrow> (heap \<times> iobuf \<times> int) option" where
  "append_from_file_descriptor h readv max_size b =
     do { r \<leftarrow> acquire_vecs h max_size None None [] 0;
          (case r of
             Inl h1 \<Rightarrow> Some (h1, b, -1)
           | Inr (h1, head, vec) \<Rightarrow>
               (let (nr, xs) = readv (map (\<lambda>(i, off, len). len) vec);
                    h2 = scatter vec xs h1
                in do { (h3, b3, head3) \<leftarrow>
                          (if 0 < nr then claim_slices h2 b head (nat nr) else Some (h2, b, head));
                        h4 \<leftarrow> release_chain h3 head3;
                        Some (h4, b3, nr) })) }"

section \<open>Invariants\<close>

text \<open>
  A slice lies in the written part of its block. The blocks have the default capacity. The
  thread-local chain has at most one block: its head has no successor. Everything the
  operations rely on follows from these.
\<close>

definition block_ok :: "block \<Rightarrow> bool" where
  "block_ok k \<longleftrightarrow> bsize k \<le> bcapacity k \<and> bcapacity k = BUFFER_DEFAULT_BLOCK_SIZE - offsetof_block_data"

definition heap_ok :: "heap \<Rightarrow> bool" where
  "heap_ok h \<longleftrightarrow>
     (\<forall>i < next_block h. block_ok (blocks h i))
     \<and> (\<forall>i. tls_chain h = Some i \<longrightarrow> i < next_block h \<and> bnext (blocks h i) = None)"

definition slice_ok :: "heap \<Rightarrow> slice \<Rightarrow> bool" where
  "slice_ok h s \<longleftrightarrow>
     sblock s < next_block h \<and> soffset s + slength s \<le> bsize (blocks h (sblock s))"

definition buf_ok :: "heap \<Rightarrow> iobuf \<Rightarrow> bool" where
  "buf_ok h b \<longleftrightarrow> ref_offset b \<le> length (refs b) \<and> (\<forall>s \<in> set (refs b). slice_ok h s)"

text \<open>
  The heap after an operation extends the heap before it: the bytes already written to a
  block, and with them the contents of every other buffer that shares it, stay.
\<close>

definition grows :: "heap \<Rightarrow> heap \<Rightarrow> bool" where
  "grows h h' \<longleftrightarrow>
     next_block h \<le> next_block h' \<and> malloc_ok h' = malloc_ok h
     \<and> (\<forall>i < next_block h. bsize (blocks h i) \<le> bsize (blocks h' i)
          \<and> (\<forall>j < bsize (blocks h i). bdata (blocks h' i) j = bdata (blocks h i) j))"

lemma grows_refl [simp, intro]: "grows h h"
  by (simp add: grows_def)

lemma grows_trans [trans]: "grows h1 h2 \<Longrightarrow> grows h2 h3 \<Longrightarrow> grows h1 h3"
  unfolding grows_def by (auto; metis order.trans order.strict_trans2)

lemma slice_ok_ext: "grows h h' \<Longrightarrow> slice_ok h s \<Longrightarrow> slice_ok h' s"
  unfolding grows_def slice_ok_def by (meson order.strict_trans2 order.trans)

lemma buf_ok_ext: "grows h h' \<Longrightarrow> buf_ok h b \<Longrightarrow> buf_ok h' b"
  unfolding buf_ok_def by (blast intro: slice_ok_ext)

lemma length_slice_bytes [simp]: "length (slice_bytes h s) = slength s"
  by (simp add: slice_bytes_def)

lemma slice_bytes_ext: "grows h h' \<Longrightarrow> slice_ok h s \<Longrightarrow> slice_bytes h' s = slice_bytes h s"
  unfolding grows_def slice_ok_def slice_bytes_def by auto

text \<open>The frame property: no operation that extends the heap changes what another buffer holds.\<close>

lemma to_string_ext: "grows h h' \<Longrightarrow> buf_ok h b \<Longrightarrow> to_string h' b = to_string h b"
  unfolding to_string_def buf_ok_def
  by (auto intro!: arg_cong [where f = concat] slice_bytes_ext dest!: in_set_dropD)

lemma length_concat_slices:
  "length (concat (map (slice_bytes h) rs)) = sum_list (map slength rs)"
  by (simp add: length_concat comp_def)

lemma length_to_string [simp]: "length (to_string h b) = buf_length b"
  by (simp add: to_string_def buf_length_def length_concat_slices)

section \<open>Removing bytes: correctness\<close>

lemma slice_bytes_skip_front [simp]:
  "n \<le> slength s \<Longrightarrow> slice_bytes h (skip_front n s) = drop n (slice_bytes h s)"
  by (simp add: slice_bytes_def skip_front_def drop_map)

lemma slice_bytes_shorten [simp]:
  "n \<le> slength s \<Longrightarrow> slice_bytes h (s\<lparr>slength := n\<rparr>) = take n (slice_bytes h s)"
  by (simp add: slice_bytes_def take_map)

lemma slice_ok_skip_front: "n \<le> slength s \<Longrightarrow> slice_ok h s \<Longrightarrow> slice_ok h (skip_front n s)"
  by (simp add: slice_ok_def skip_front_def)

lemma slice_ok_shorten: "n \<le> slength s \<Longrightarrow> slice_ok h s \<Longrightarrow> slice_ok h (s\<lparr>slength := n\<rparr>)"
  by (simp add: slice_ok_def)

lemma move_slices_down_spec:
  "itr \<le> i \<Longrightarrow> i \<le> length rs \<Longrightarrow> move_slices_down rs itr i = (rs', itr') \<Longrightarrow>
   itr' = itr + (length rs - i) \<and> take itr' rs' = take itr rs @ drop i rs"
proof (induction rs itr i rule: move_slices_down.induct)
  case (1 rs itr i)
  show ?case
  proof (cases "i < length rs")
    case True
    with 1 have "itr' = Suc itr + (length (rs[itr := rs ! i]) - Suc i)"
      and "take itr' rs' = take (Suc itr) (rs[itr := rs ! i]) @ drop (Suc i) (rs[itr := rs ! i])"
      by (auto simp: move_slices_down.simps [of rs itr i])
    with True 1(2) show ?thesis
      by (simp add: take_Suc_conv_app_nth drop_Suc_nth)
  next
    case False
    then have "move_slices_down rs itr i = (rs, itr)" by (simp add: move_slices_down.simps [of rs itr i])
    with 1(3,4) False show ?thesis by simp
  qed
qed

lemma tryReleaseBlock_refs:
  assumes "ref_offset b \<le> length (refs b)"
  shows "drop (ref_offset (tryReleaseBlock b)) (refs (tryReleaseBlock b)) = drop (ref_offset b) (refs b)"
    and "ref_offset (tryReleaseBlock b) \<le> length (refs (tryReleaseBlock b))"
    and "set (refs (tryReleaseBlock b)) \<subseteq> set (refs b)"
proof -
  obtain rs itr where m: "move_slices_down (refs b) 0 (ref_offset b) = (rs, itr)"
    by (cases "move_slices_down (refs b) 0 (ref_offset b)")
  with assms have *: "take itr rs = drop (ref_offset b) (refs b)"
    by (auto dest: move_slices_down_spec [rotated 2])
  show "drop (ref_offset (tryReleaseBlock b)) (refs (tryReleaseBlock b)) = drop (ref_offset b) (refs b)"
    and "ref_offset (tryReleaseBlock b) \<le> length (refs (tryReleaseBlock b))"
    and "set (refs (tryReleaseBlock b)) \<subseteq> set (refs b)"
    using assms by (auto simp: tryReleaseBlock_def m * dest: in_set_dropD)
qed

lemma tryReleaseBlock_to_string:
  "ref_offset b \<le> length (refs b) \<Longrightarrow> to_string h (tryReleaseBlock b) = to_string h b"
  by (simp add: to_string_def tryReleaseBlock_refs)

lemma tryReleaseBlock_ok: "buf_ok h b \<Longrightarrow> buf_ok h (tryReleaseBlock b)"
  unfolding buf_ok_def by (meson tryReleaseBlock_refs subset_iff)

lemma pop_front_loop_spec:
  assumes "idx \<le> length rs" and "cur \<le> n" and "pop_front_loop n rs idx cur = (rs', idx', cur')"
  shows "concat (map (slice_bytes h) (drop idx' rs')) =
           drop (n - cur) (concat (map (slice_bytes h) (drop idx rs)))
         \<and> cur' = min n (cur + length (concat (map (slice_bytes h) (drop idx rs))))
         \<and> idx' \<le> length rs'"
  using assms
proof (induction n rs idx cur rule: pop_front_loop.induct)
  case (1 n rs idx cur)
  let ?s = "rs ! idx"
  show ?case
  proof (cases "cur < n \<and> idx < length rs")
    case False
    with 1(3-) show ?thesis by (auto simp: pop_front_loop.simps [of n rs idx cur] split: if_splits)
  next
    case True
    then have d: "drop idx rs = ?s # drop (Suc idx) rs" by (simp add: drop_Suc_nth)
    show ?thesis
    proof (cases "n - cur < slength ?s")
      case small: True
      let ?rs = "rs[idx := skip_front (n - cur) ?s]"
      have "pop_front_loop n ?rs idx n = (rs', idx', cur')"
        using True small 1(5) by (simp add: pop_front_loop.simps [of n rs idx cur])
      then have "rs' = ?rs" "idx' = idx" "cur' = n"
        by (auto simp: pop_front_loop.simps [of n ?rs idx n])
      moreover have "drop idx ?rs = skip_front (n - cur) ?s # drop (Suc idx) rs"
        using True by (simp add: drop_Suc_nth [of idx ?rs])
      ultimately show ?thesis using True small by (simp add: d)
    next
      case large: False
      then have le: "cur + slength ?s \<le> n" using True by linarith
      have "pop_front_loop n rs (Suc idx) (cur + slength ?s) = (rs', idx', cur')"
        using True large 1(5) by (simp add: pop_front_loop.simps [of n rs idx cur])
      then show ?thesis using 1(2) [OF _ _ refl _ _ le] True large by (auto simp: d)
    qed
  qed
qed

lemma pop_front_loop_ok:
  assumes "pop_front_loop n rs idx cur = (rs', idx', cur')" and "\<forall>s \<in> set rs. slice_ok h s"
  shows "\<forall>s \<in> set rs'. slice_ok h s"
  using assms
proof (induction n rs idx cur rule: pop_front_loop.induct)
  case (1 n rs idx cur)
  let ?s = "rs ! idx"
  have *: "\<forall>s \<in> set (rs[idx := skip_front k ?s]). slice_ok h s" if "idx < length rs" "k < slength ?s" for k
    using that 1(4) set_update_subset_insert [of rs idx] by (force intro: slice_ok_skip_front)
  consider (stop) "\<not> (cur < n \<and> idx < length rs)"
    | (small) "cur < n" "idx < length rs" "n - cur < slength ?s"
    | (large) "cur < n" "idx < length rs" "\<not> n - cur < slength ?s" by blast
  then show ?case
  proof cases
    case stop
    then have "pop_front_loop n rs idx cur = (rs, idx, cur)"
      by (auto simp: pop_front_loop.simps [of n rs idx cur])
    with 1(3,4) show ?thesis by simp
  next
    case small
    then have "pop_front_loop n rs idx cur = pop_front_loop n (rs[idx := skip_front (n - cur) ?s]) idx (cur + (n - cur))"
      by (simp add: pop_front_loop.simps [of n rs idx cur] Let_def)
    with 1(3) show ?thesis using small by (intro 1(1) [OF _ _ refl _ _ * [OF small(2,3)]]) simp_all
  next
    case large
    then have "pop_front_loop n rs idx cur = pop_front_loop n rs (Suc idx) (cur + slength ?s)"
      by (simp add: pop_front_loop.simps [of n rs idx cur])
    with 1(3) show ?thesis using large by (intro 1(2) [OF _ _ refl _ _ 1(4)]) simp_all
  qed
qed

lemma pop_front_spec:
  assumes "buf_ok h b" and "pop_front n b = (b', k)"
  shows "to_string h b' = drop n (to_string h b)" and "k = min n (buf_length b)" and "buf_ok h b'"
proof -
  obtain rs idx cur where l: "pop_front_loop n (refs b) (ref_offset b) 0 = (rs, idx, cur)"
    by (rule prod_cases3)
  let ?b = "b\<lparr>refs := rs, ref_offset := idx\<rparr>"
  have r: "b' = tryReleaseBlock ?b" "k = cur" using assms(2) l by (auto simp: pop_front_def)
  have ok: "buf_ok h ?b"
    using assms(1) pop_front_loop_spec [OF _ _ l, of h] pop_front_loop_ok [OF l, of h]
    by (simp add: buf_ok_def)
  have spec: "to_string h ?b = drop n (to_string h b)" "cur = min n (length (to_string h b))"
    using assms(1) pop_front_loop_spec [OF _ _ l, of h] by (simp_all add: buf_ok_def to_string_def)
  show "to_string h b' = drop n (to_string h b)" "k = min n (buf_length b)" "buf_ok h b'"
    using ok spec tryReleaseBlock_ok [OF ok] tryReleaseBlock_to_string [of ?b h]
    by (simp_all add: r buf_ok_def)
qed

text \<open>The loop of \<^verbatim>\<open>cut(IOBuffer*, n)\<close> removes what \<^verbatim>\<open>pop_front\<close> removes and hands it over.\<close>

lemma cut_buf_loop_spec:
  assumes "idx \<le> length rs" and "cur \<le> n" and "cut_buf_loop n rs out idx idx cur = (rs', out', off', cur')"
    and "\<forall>s \<in> set out. slice_ok h s" and "\<forall>s \<in> set rs. slice_ok h s"
  shows "pop_front_loop n rs idx cur = (rs', off', cur')
         \<and> (\<forall>s \<in> set out'. slice_ok h s)
         \<and> (\<exists>more. out' = out @ more \<and>
              concat (map (slice_bytes h) more) = take (n - cur) (concat (map (slice_bytes h) (drop idx rs))))"
  using assms
proof (induction n rs idx cur arbitrary: out rule: pop_front_loop.induct)
  case (1 n rs idx cur)
  let ?s = "rs ! idx"
  show ?case
  proof (cases "cur < n \<and> idx < length rs")
    case False
    have "cut_buf_loop n rs out idx idx cur = (rs, out, idx, cur)" "pop_front_loop n rs idx cur = (rs, idx, cur)"
      using False by (auto simp: pop_front_loop.simps [of n rs idx cur] cut_buf_loop.simps [of n rs out idx idx cur])
    with 1(3-) False show ?thesis by auto
  next
    case True
    then have d: "drop idx rs = ?s # drop (Suc idx) rs" by (simp add: drop_Suc_nth)
    have ok: "slice_ok h ?s" using True 1(7) by simp
    show ?thesis
    proof (cases "n - cur < slength ?s")
      case small: True
      let ?rs = "rs[idx := skip_front (n - cur) ?s]" and ?o = "?s\<lparr>slength := n - cur\<rparr>"
      have "cut_buf_loop n ?rs (out @ [?o]) idx idx n = (rs', out', off', cur')"
        using True small 1(5) by (simp add: cut_buf_loop.simps [of n rs out idx idx cur] Let_def)
      then have "rs' = ?rs" "off' = idx" "cur' = n" "out' = out @ [?o]"
        by (auto simp: cut_buf_loop.simps [of n ?rs _ idx idx n])
      moreover have "pop_front_loop n rs idx cur = (?rs, idx, n)"
        using True small by (simp add: pop_front_loop.simps [of n rs idx cur] pop_front_loop.simps [of n ?rs idx n])
      moreover have "slice_ok h ?o" using small ok by (simp add: slice_ok_shorten)
      ultimately show ?thesis using True small 1(6) by (simp add: d)
    next
      case large: False
      then have le: "cur + slength ?s \<le> n" using True by linarith
      have call: "cut_buf_loop n rs (out @ [?s]) (Suc idx) (Suc idx) (cur + slength ?s) = (rs', out', off', cur')"
        using True large 1(5) by (simp add: cut_buf_loop.simps [of n rs out idx idx cur])
      have step: "pop_front_loop n rs idx cur = pop_front_loop n rs (Suc idx) (cur + slength ?s)"
        using True large by (simp add: pop_front_loop.simps [of n rs idx cur])
      have out: "\<forall>s \<in> set (out @ [?s]). slice_ok h s" using 1(6) ok by simp
      have lt: "cur < n" "\<not> idx \<ge> length rs" "Suc idx \<le> length rs" using True by auto
      from 1(2) [OF lt(1,2) refl large lt(3) le call out 1(7)] obtain more where
        *: "pop_front_loop n rs idx cur = (rs', off', cur')" "\<forall>s \<in> set out'. slice_ok h s"
        "out' = (out @ [?s]) @ more" "concat (map (slice_bytes h) more) =
           take (n - (cur + slength ?s)) (concat (map (slice_bytes h) (drop (Suc idx) rs)))"
        unfolding step by blast
      have "take (n - cur) (concat (map (slice_bytes h) (drop idx rs))) = slice_bytes h ?s @ concat (map (slice_bytes h) more)"
        unfolding *(4) d using le by simp
      with * show ?thesis by simp
    qed
  qed
qed

lemma cut_buf_spec:
  assumes "buf_ok h b" and "buf_ok h out" and "cut_buf n b out = (b', out', k)"
  shows "pop_front n b = (b', k)" and "buf_ok h out'"
    and "to_string h out' = to_string h out @ take n (to_string h b)"
proof -
  obtain rs os off cur
    where l: "cut_buf_loop n (refs b) (refs out) (ref_offset b) (ref_offset b) 0 = (rs, os, off, cur)"
    by (rule prod_cases4)
  have r: "b' = tryReleaseBlock (b\<lparr>refs := rs, ref_offset := off\<rparr>)" "out' = out\<lparr>refs := os\<rparr>" "k = cur"
    using assms(3) l by (auto simp: cut_buf_def)
  have "ref_offset b \<le> length (refs b)" "\<forall>s \<in> set (refs out). slice_ok h s" "\<forall>s \<in> set (refs b). slice_ok h s"
    using assms(1,2) by (simp_all add: buf_ok_def)
  from cut_buf_loop_spec [OF this(1) _ l this(2,3)] obtain more where
    *: "pop_front_loop n (refs b) (ref_offset b) 0 = (rs, off, cur)"
    "\<forall>s \<in> set os. slice_ok h s" "os = refs out @ more"
    "concat (map (slice_bytes h) more) = take n (to_string h b)"
    unfolding to_string_def by auto
  show "pop_front n b = (b', k)" by (simp add: pop_front_def * r)
  show "buf_ok h out'" using assms(2) * by (simp add: buf_ok_def r)
  show "to_string h out' = to_string h out @ take n (to_string h b)"
    using assms(2) * by (simp add: to_string_def buf_ok_def r)
qed

lemma cut_mem_loop_spec:
  assumes "idx \<le> length rs" and "cur \<le> n"
  shows "cut_mem_loop h n rs out idx idx cur =
           (let (rs', idx', cur') = pop_front_loop n rs idx cur
            in (rs', out @ take (n - cur) (concat (map (slice_bytes h) (drop idx rs))), idx', cur'))"
  using assms
proof (induction n rs idx cur arbitrary: out rule: pop_front_loop.induct)
  case (1 n rs idx cur)
  let ?s = "rs ! idx"
  show ?case
  proof (cases "cur < n \<and> idx < length rs")
    case False
    with 1(3-) show ?thesis
      by (auto simp: pop_front_loop.simps [of n rs idx cur] cut_mem_loop.simps [of h n rs out idx idx cur])
  next
    case True
    then have d: "drop idx rs = ?s # drop (Suc idx) rs" by (simp add: drop_Suc_nth)
    show ?thesis
    proof (cases "n - cur < slength ?s")
      case small: True
      let ?rs = "rs[idx := skip_front (n - cur) ?s]"
      show ?thesis
        using True small
        by (simp add: d Let_def pop_front_loop.simps [of n rs idx cur] cut_mem_loop.simps [of h n rs out idx idx cur]
            pop_front_loop.simps [of n ?rs idx n] cut_mem_loop.simps [of h n ?rs _ idx idx n])
    next
      case large: False
      then have le: "cur + slength ?s \<le> n" using True by linarith
      have "pop_front_loop n rs idx cur = pop_front_loop n rs (Suc idx) (cur + slength ?s)"
        "cut_mem_loop h n rs out idx idx cur =
           cut_mem_loop h n rs (out @ slice_bytes h ?s) (Suc idx) (Suc idx) (cur + slength ?s)"
        using True large
        by (simp_all add: pop_front_loop.simps [of n rs idx cur] cut_mem_loop.simps [of h n rs out idx idx cur])
      then show ?thesis
        using 1(2) [OF _ _ refl _ _ le] True large by (simp add: d Let_def split: prod.splits)
    qed
  qed
qed

lemma cut_mem_spec:
  "ref_offset b \<le> length (refs b) \<Longrightarrow>
   cut_mem h n b = (fst (pop_front n b), take n (to_string h b), snd (pop_front n b))"
  by (simp add: cut_mem_def cut_mem_loop_spec pop_front_def to_string_def split: prod.split)

lemma copy_to_loop_spec:
  assumes "idx \<le> length rs" and "cur \<le> n"
  shows "copy_to_loop h n rs out idx cur =
           (let xs = concat (map (slice_bytes h) (drop idx rs))
            in (out @ take (n - cur) xs, min n (cur + length xs)))"
  using assms
proof (induction h n rs out idx cur rule: copy_to_loop.induct)
  case (1 h n rs out idx cur)
  let ?s = "rs ! idx"
  show ?case
  proof (cases "cur < n \<and> idx < length rs")
    case False
    then have "copy_to_loop h n rs out idx cur = (out, cur)"
      by (auto simp: copy_to_loop.simps [of h n rs out idx cur])
    with 1(3-) False show ?thesis by (cases "cur = n") (simp_all add: Let_def)
  next
    case True
    then have d: "drop idx rs = ?s # drop (Suc idx) rs" by (simp add: drop_Suc_nth)
    show ?thesis
    proof (cases "n - cur < slength ?s")
      case small: True
      then show ?thesis
        using True
        by (simp add: d Let_def copy_to_loop.simps [of h n rs out idx cur] copy_to_loop.simps [of h n rs _ idx n])
    next
      case large: False
      then have le: "cur + slength ?s \<le> n" using True by linarith
      have "copy_to_loop h n rs out idx cur = copy_to_loop h n rs (out @ slice_bytes h ?s) (Suc idx) (cur + slength ?s)"
        using True large by (simp add: copy_to_loop.simps [of h n rs out idx cur])
      then show ?thesis using 1(2) [OF _ _ refl _ _ le] True large by (simp add: d Let_def add.assoc)
    qed
  qed
qed

lemma copy_to_spec:
  "ref_offset b \<le> length (refs b) \<Longrightarrow> copy_to h n b = (take n (to_string h b), min n (buf_length b))"
  by (simp add: copy_to_def copy_to_loop_spec Let_def length_concat_slices to_string_def buf_length_def)

lemma pop_back_loop_spec:
  assumes "lo \<le> length rs" and "cur \<le> n" and "pop_back_loop n rs lo cur = (rs', cur')"
    and "\<forall>s \<in> set rs. slice_ok h s"
  shows "concat (map (slice_bytes h) (drop lo rs')) =
           (let xs = concat (map (slice_bytes h) (drop lo rs)) in take (length xs - (n - cur)) xs)
         \<and> cur' = min n (cur + length (concat (map (slice_bytes h) (drop lo rs))))
         \<and> lo \<le> length rs' \<and> (\<forall>s \<in> set rs'. slice_ok h s)"
  using assms
proof (induction n rs lo cur rule: pop_back_loop.induct)
  case (1 n rs lo cur)
  let ?s = "last rs"
  show ?case
  proof (cases "cur < n \<and> lo < length rs")
    case False
    then have "pop_back_loop n rs lo cur = (rs, cur)"
      by (auto simp: pop_back_loop.simps [of n rs lo cur])
    with 1(3-) False show ?thesis by (cases "cur = n") (simp_all add: Let_def)
  next
    case True
    then have ne: "rs \<noteq> []" by auto
    then have rs: "rs = butlast rs @ [?s]" by simp
    then have d: "drop lo rs = drop lo (butlast rs) @ [?s]"
      using True by (metis drop_append length_butlast diff_is_0_eq' less_Suc_eq_le One_nat_def
          Suc_pred drop0 length_greater_0_conv ne)
    have ok: "slice_ok h ?s" "\<forall>s \<in> set (butlast rs). slice_ok h s"
      using 1(6) ne by (auto dest: in_set_butlastD)
    show ?thesis
    proof (cases "n - cur < slength ?s")
      case small: True
      let ?t = "?s\<lparr>slength := slength ?s - (n - cur)\<rparr>"
      let ?rs = "butlast rs @ [?t]"
      have "pop_back_loop n rs lo cur = (?rs, n)"
        using True small by (simp add: pop_back_loop.simps [of n rs lo cur] pop_back_loop.simps [of n _ lo n] Let_def)
      then have "rs' = ?rs" "cur' = n" using 1(5) by auto
      moreover have "drop lo ?rs = drop lo (butlast rs) @ [?t]"
        using True by simp
      moreover have "slice_ok h ?t" using ok small by (simp add: slice_ok_shorten)
      ultimately show ?thesis
        using True [THEN conjunct1] True [THEN conjunct2] small ok by (simp add: d Let_def)
    next
      case large: False
      then have le: "cur + slength ?s \<le> n" using True by linarith
      have "pop_back_loop n (butlast rs) lo (cur + slength ?s) = (rs', cur')"
        using True large 1(5) by (simp add: pop_back_loop.simps [of n rs lo cur])
      then show ?thesis
        using 1(2) [OF _ _ refl refl _ _ le] True [THEN conjunct1] True [THEN conjunct2] large le ok
        by (simp add: d Let_def ac_simps)
    qed
  qed
qed

lemma pop_back_spec:
  assumes "buf_ok h b" and "pop_back n b = (b', k)"
  shows "to_string h b' = take (buf_length b - n) (to_string h b)" and "k = min n (buf_length b)" and "buf_ok h b'"
proof -
  obtain rs cur where l: "pop_back_loop n (refs b) (ref_offset b) 0 = (rs, cur)"
    by (cases "pop_back_loop n (refs b) (ref_offset b) 0")
  with assms(2) have r: "b' = b\<lparr>refs := rs\<rparr>" "k = cur" by (auto simp: pop_back_def)
  note spec = pop_back_loop_spec [OF _ _ l, of h]
  show "to_string h b' = take (buf_length b - n) (to_string h b)" "k = min n (buf_length b)" "buf_ok h b'"
    using spec assms(1)
    by (simp_all add: r buf_ok_def to_string_def buf_length_def Let_def length_concat_slices)
qed

section \<open>Adding bytes: correctness\<close>

lemma upd_block_simps [simp]:
  "blocks (upd_block i f h) = (blocks h)(i := f (blocks h i))"
  "next_block (upd_block i f h) = next_block h"
  "tls_chain (upd_block i f h) = tls_chain h"
  "attempts (upd_block i f h) = attempts h"
  "malloc_ok (upd_block i f h) = malloc_ok h"
  by (simp_all add: upd_block_def)

lemma write_mem_simps [simp]:
  "bsize (write_mem off xs k) = bsize k"
  "bcapacity (write_mem off xs k) = bcapacity k"
  "bnext (write_mem off xs k) = bnext k"
  by (simp_all add: write_mem_def)

lemma write_mem_below [simp]: "j < off \<Longrightarrow> bdata (write_mem off xs k) j = bdata k j"
  by (simp add: write_mem_def)

lemma write_mem_read [simp]: "map (bdata (write_mem off xs k)) [off ..< off + length xs] = xs"
  by (rule nth_equalityI) (simp_all add: write_mem_def)

lemma createBlock_ok:
  assumes "heap_ok h" and "createBlock h = (h', r)"
  shows "heap_ok h'" and "grows h h'" and "tls_chain h' = tls_chain h"
    and "r = None \<Longrightarrow> \<not> malloc_ok h (attempts h)"
    and "r = Some i \<Longrightarrow> i = next_block h \<and> next_block h' = Suc i \<and> bsize (blocks h' i) = 0
                       \<and> bnext (blocks h' i) = None \<and> 0 < freeSpace (blocks h' i)"
proof -
  let ?new = "new_block (junk h (attempts h)) BUFFER_DEFAULT_BLOCK_SIZE"
  have new: "block_ok ?new" "bsize ?new = 0" "bnext ?new = None" "0 < freeSpace ?new"
    by (simp_all add: block_ok_def new_block_def freeSpace_def BUFFER_DEFAULT_BLOCK_SIZE_def offsetof_block_data_def)
  have h': "h' = (if malloc_ok h (attempts h)
      then h\<lparr>attempts := Suc (attempts h), blocks := (blocks h)(next_block h := ?new), next_block := Suc (next_block h)\<rparr>
      else h\<lparr>attempts := Suc (attempts h)\<rparr>)"
    and r: "r = (if malloc_ok h (attempts h) then Some (next_block h) else None)"
    using assms(2) by (auto simp: createBlock_def Let_def split: if_splits)
  show "heap_ok h'" using assms(1) new by (auto simp: heap_ok_def h' less_Suc_eq)
  show "grows h h'" "tls_chain h' = tls_chain h" by (simp_all add: grows_def h')
  show "r = None \<Longrightarrow> \<not> malloc_ok h (attempts h)" using r by (simp split: if_splits)
  show "r = Some i \<Longrightarrow> i = next_block h \<and> next_block h' = Suc i \<and> bsize (blocks h' i) = 0
                       \<and> bnext (blocks h' i) = None \<and> 0 < freeSpace (blocks h' i)"
    using r new by (simp add: h' split: if_splits)
qed

text \<open>Looking for a block with space stops, and finds one unless the allocation fails.\<close>

lemma shareBlockFromTLSChain_ok:
  assumes "heap_ok h"
  obtains h' r where "shareBlockFromTLSChain h = Some (h', r)" and "heap_ok h'" and "grows h h'"
    and "r = None \<Longrightarrow> \<exists>n. \<not> malloc_ok h n"
    and "\<And>i. r = Some i \<Longrightarrow> i < next_block h' \<and> 0 < freeSpace (blocks h' i) \<and> tls_chain h' = Some i"
proof (cases "\<exists>i. tls_chain h = Some i \<and> 0 < freeSpace (blocks h i)")
  case True
  then obtain i where i: "tls_chain h = Some i" "0 < freeSpace (blocks h i)" by blast
  then have "shareBlockFromTLSChain h = Some (h, Some i)" by (simp add: shareBlockFromTLSChain.simps [of h])
  with i assms show ?thesis by (intro that) (auto simp: heap_ok_def)
next
  case False
  let ?h = "h\<lparr>tls_chain := None\<rparr>"
  obtain h1 r where c: "createBlock ?h = (h1, r)" by (cases "createBlock ?h")
  have ok: "heap_ok ?h" using assms by (simp add: heap_ok_def)
  have *: "shareBlockFromTLSChain ?h = Some (h1\<lparr>tls_chain := r\<rparr>, r)"
    by (simp add: shareBlockFromTLSChain.simps [of ?h] c)
  have "shareBlockFromTLSChain h = shareBlockFromTLSChain ?h"
  proof (cases "tls_chain h")
    case None
    then have "?h = h" by simp
    then show ?thesis by simp
  next
    case (Some i)
    with False assms show ?thesis by (simp add: shareBlockFromTLSChain.simps [of h] heap_ok_def)
  qed
  with * have sh: "shareBlockFromTLSChain h = Some (h1\<lparr>tls_chain := r\<rparr>, r)" by simp
  have ext: "grows h (h1\<lparr>tls_chain := r\<rparr>)"
    using createBlock_ok(2) [OF ok c] by (simp add: grows_def)
  show ?thesis
  proof (cases r)
    case None
    with createBlock_ok(1) [OF ok c] createBlock_ok(4) [OF ok c] show ?thesis
      by (intro that [OF sh _ ext]) (auto simp: heap_ok_def)
  next
    case (Some i)
    with createBlock_ok(1) [OF ok c] createBlock_ok(5) [OF ok c Some] show ?thesis
      by (intro that [OF sh _ ext]) (auto simp: heap_ok_def)
  qed
qed

text \<open>Writing into the free space behind a block's bytes, and then claiming it.\<close>

lemma slice_bytes_cong:
  "(\<And>j. soffset s \<le> j \<Longrightarrow> j < soffset s + slength s \<Longrightarrow>
      bdata (blocks h' (sblock s)) j = bdata (blocks h (sblock s)) j) \<Longrightarrow> slice_bytes h' s = slice_bytes h s"
  by (simp add: slice_bytes_def)

lemma to_string_snoc:
  "ref_offset b \<le> length rs \<Longrightarrow>
   to_string h (b\<lparr>refs := rs @ [s]\<rparr>) = concat (map (slice_bytes h) (drop (ref_offset b) rs)) @ slice_bytes h s"
  by (simp add: to_string_def)

lemma append_chunk_heap:
  assumes "heap_ok h" and "i < next_block h" and "length xs \<le> freeSpace (blocks h i)"
    and "append_chunk h b i xs = (h', b')"
  shows "heap_ok h'" and "grows h h'" and "tls_chain h' = tls_chain h"
    and "bsize (blocks h' i) = bsize (blocks h i) + length xs"
    and "map (bdata (blocks h' i)) [bsize (blocks h i) ..< bsize (blocks h i) + length xs] = xs"
proof -
  let ?k = "(write_mem (bsize (blocks h i)) xs (blocks h i))\<lparr>bsize := bsize (blocks h i) + length xs\<rparr>"
  have h': "h' = h\<lparr>blocks := (blocks h)(i := ?k)\<rparr>"
    using assms(4) by (simp add: append_chunk_def Let_def upd_block_def)
  have "block_ok (blocks h i)" using assms(1,2) by (simp add: heap_ok_def)
  then have "block_ok ?k" using assms(3) by (auto simp: block_ok_def freeSpace_def)
  then show "heap_ok h'" using assms(1) by (simp add: heap_ok_def h')
  show "grows h h'" by (simp add: grows_def h')
  show "tls_chain h' = tls_chain h" "bsize (blocks h' i) = bsize (blocks h i) + length xs" by (simp_all add: h')
  show "map (bdata (blocks h' i)) [bsize (blocks h i) ..< bsize (blocks h i) + length xs] = xs"
    using write_mem_read [of "bsize (blocks h i)" xs "blocks h i"] by (simp add: h')
qed

lemma append_chunk_spec:
  assumes "heap_ok h" and "buf_ok h b" and "i < next_block h" and "length xs \<le> freeSpace (blocks h i)"
    and "append_chunk h b i xs = (h', b')"
  shows "buf_ok h' b'" and "to_string h' b' = to_string h b @ xs"
proof -
  let ?n = "bsize (blocks h i)" and ?s = "last (refs b)"
  note hp = append_chunk_heap [OF assms(1,3,4,5)]
  have ok: "buf_ok h' b" using hp(2) assms(2) by (rule buf_ok_ext)
  have nb: "i < next_block h'" using hp(2) assms(3) by (simp add: grows_def)
  have same: "to_string h' b = to_string h b" using hp(2) assms(2) by (rule to_string_ext)
  show "buf_ok h' b'" and "to_string h' b' = to_string h b @ xs"
  proof (atomize (full), cases "ref_offset b < length (refs b) \<and> sblock ?s = i \<and> soffset ?s + slength ?s = ?n")
    case True
    let ?t = "?s\<lparr>slength := slength ?s + length xs\<rparr>"
    have ne: "refs b \<noteq> []" using True by auto
    have lo: "ref_offset b \<le> length (butlast (refs b))" using True by auto
    have b': "b' = b\<lparr>refs := butlast (refs b) @ [?t]\<rparr>"
      using assms(5) True by (auto simp: append_chunk_def push_slice_def Let_def)
    have "[soffset ?s ..< soffset ?s + slength ?t] = [soffset ?s ..< soffset ?s + slength ?s] @ [?n ..< ?n + length xs]"
      using True upt_add_eq_append [of "soffset ?s" "soffset ?s + slength ?s" "length xs"]
      by (simp flip: add.assoc)
    then have "slice_bytes h' ?t = slice_bytes h' ?s @ xs"
      using hp(5) True by (simp add: slice_bytes_def)
    moreover have "b = b\<lparr>refs := butlast (refs b) @ [?s]\<rparr>" using ne by simp
    then have "to_string h' b = concat (map (slice_bytes h') (drop (ref_offset b) (butlast (refs b)))) @ slice_bytes h' ?s"
      using lo by (metis to_string_snoc)
    moreover have "slice_ok h' ?t" using True nb hp(4) by (simp add: slice_ok_def)
    ultimately show "buf_ok h' b' \<and> to_string h' b' = to_string h b @ xs"
      using ok lo same by (auto simp: b' to_string_snoc buf_ok_def dest: in_set_butlastD)
  next
    case False
    let ?t = "\<lparr>sblock = i, soffset = ?n, slength = length xs\<rparr>"
    have b': "b' = b\<lparr>refs := refs b @ [?t]\<rparr>"
      using assms(5) False by (auto simp: append_chunk_def push_slice_def Let_def)
    have "slice_bytes h' ?t = xs" using hp(5) by (simp add: slice_bytes_def)
    moreover have "slice_ok h' ?t" using nb hp(4) by (simp add: slice_ok_def)
    ultimately show "buf_ok h' b' \<and> to_string h' b' = to_string h b @ xs"
      using ok same by (auto simp: b' to_string_def buf_ok_def)
  qed
qed

text \<open>
  Appending always returns, keeps the invariants and every other buffer, and appends a prefix
  of the data: all of it when no allocation fails.
\<close>

lemma append_loop_spec:
  assumes "heap_ok h" and "buf_ok h b"
  shows "\<exists>h' b' k. append_loop h b data cur = Some (h', b') \<and> heap_ok h' \<and> grows h h' \<and> buf_ok h' b'
           \<and> to_string h' b' = to_string h b @ take k (drop cur data)
           \<and> ((\<forall>n. malloc_ok h n) \<longrightarrow> k = length data - cur)"
  using assms
proof (induction "length data - cur" arbitrary: h b cur rule: less_induct)
  case less
  show ?case
  proof (cases "cur < length data")
    case False
    then have "append_loop h b data cur = Some (h, b)" by (simp add: append_loop.simps [of h b data cur])
    with False less.prems show ?thesis by auto
  next
    case True
    obtain h1 r where sh: "shareBlockFromTLSChain h = Some (h1, r)" "heap_ok h1" "grows h h1"
      "r = None \<Longrightarrow> \<exists>n. \<not> malloc_ok h n"
      "\<And>i. r = Some i \<Longrightarrow> i < next_block h1 \<and> 0 < freeSpace (blocks h1 i) \<and> tls_chain h1 = Some i"
      using shareBlockFromTLSChain_ok [OF less.prems(1)] by blast
    have ok1: "buf_ok h1 b" "to_string h1 b = to_string h b"
      using sh(3) less.prems(2) by (auto intro: buf_ok_ext to_string_ext)
    show ?thesis
    proof (cases r)
      case None
      have "append_loop h b data cur = Some (h1, b)"
        using True sh(1) None by (simp add: append_loop.simps [of h b data cur])
      then show ?thesis using sh ok1 None by (intro exI [of _ h1] exI [of _ b] exI [of _ 0]) auto
    next
      case (Some i)
      let ?m = "min (length data - cur) (freeSpace (blocks h1 i))"
      obtain h2 b2 where c: "append_chunk h1 b i (take ?m (drop cur data)) = (h2, b2)"
        by (cases "append_chunk h1 b i (take ?m (drop cur data))")
      have i: "i < next_block h1" "0 < ?m" using sh(5) Some True by auto
      have fit: "length (take ?m (drop cur data)) \<le> freeSpace (blocks h1 i)" by simp
      note hp = append_chunk_heap [OF sh(2) i(1) fit c]
      note sp = append_chunk_spec [OF sh(2) ok1(1) i(1) fit c]
      have step: "append_loop h b data cur = append_loop h2 b2 data (cur + ?m)"
        using True sh(1) Some c by (simp add: append_loop.simps [of h b data cur] Let_def)
      have "length data - (cur + ?m) < length data - cur" using True i(2) by linarith
      from less.hyps [OF this hp(1) sp(1)] obtain h3 b3 k where
        *: "append_loop h2 b2 data (cur + ?m) = Some (h3, b3)" "heap_ok h3" "grows h2 h3" "buf_ok h3 b3"
          "to_string h3 b3 = to_string h2 b2 @ take k (drop (cur + ?m) data)"
          "(\<forall>n. malloc_ok h2 n) \<longrightarrow> k = length data - (cur + ?m)" by blast
      have ext: "grows h h3" using sh(3) hp(2) *(3) by (blast intro: grows_trans)
      have "to_string h3 b3 = to_string h b @ take (?m + k) (drop cur data)"
        using *(5) sp(2) ok1(2) by (simp add: take_add add.commute [of cur])
      moreover have "(\<forall>n. malloc_ok h n) \<longrightarrow> ?m + k = length data - cur"
        using *(6) sh(3) hp(2) True by (auto simp: grows_def)
      ultimately show ?thesis
        using step *(1,2,4) ext by (intro exI [of _ h3] exI [of _ b3] exI [of _ "?m + k"]) simp
    qed
  qed
qed

section \<open>Reading from a file descriptor: correctness\<close>

lemma acquireBlockFromTLSChain_ok:
  assumes "heap_ok h"
  obtains h' r where "acquireBlockFromTLSChain h = Some (h', r)" and "heap_ok h'" and "grows h h'"
    and "tls_chain h' = None"
    and "r = None \<Longrightarrow> \<exists>n. \<not> malloc_ok h n"
    and "\<And>i. r = Some i \<Longrightarrow> i < next_block h' \<and> 0 < freeSpace (blocks h' i) \<and> bnext (blocks h' i) = None"
    and "\<And>i. r = Some i \<Longrightarrow> tls_chain h = None \<Longrightarrow> i = next_block h"
    and "\<And>j. j < next_block h \<Longrightarrow> blocks h' j = blocks h j"
proof (cases "\<exists>i. tls_chain h = Some i \<and> 0 < freeSpace (blocks h i)")
  case True
  then obtain i where i: "tls_chain h = Some i" "0 < freeSpace (blocks h i)" by blast
  then have n: "i < next_block h" "bnext (blocks h i) = None" using assms by (simp_all add: heap_ok_def)
  then have "blocks h i\<lparr>bnext := None\<rparr> = blocks h i" by (metis block.surjective block.update_convs(1))
  then have "upd_block i (\<lambda>b. b\<lparr>bnext := None\<rparr>) (h\<lparr>tls_chain := None\<rparr>) = h\<lparr>tls_chain := None\<rparr>"
    by (simp add: upd_block_def)
  then have "acquireBlockFromTLSChain h = Some (h\<lparr>tls_chain := None\<rparr>, Some i)"
    using i n by (simp add: acquireBlockFromTLSChain.simps [of h])
  then show ?thesis
    by (rule that) (use i n assms in \<open>auto simp: heap_ok_def grows_def\<close>)
next
  case False
  let ?h = "h\<lparr>tls_chain := None\<rparr>"
  obtain h1 r where c: "createBlock ?h = (h1, r)" by (cases "createBlock ?h")
  have ok: "heap_ok ?h" using assms by (simp add: heap_ok_def)
  have *: "acquireBlockFromTLSChain ?h = Some (h1, r)"
    by (simp add: acquireBlockFromTLSChain.simps [of ?h] c)
  have "acquireBlockFromTLSChain h = acquireBlockFromTLSChain ?h"
  proof (cases "tls_chain h")
    case None
    then have "?h = h" by simp
    then show ?thesis by simp
  next
    case (Some i)
    with False assms show ?thesis by (simp add: acquireBlockFromTLSChain.simps [of h] heap_ok_def)
  qed
  with * have ac: "acquireBlockFromTLSChain h = Some (h1, r)" by simp
  note cb = createBlock_ok [OF ok c]
  have fr: "j < next_block h \<Longrightarrow> blocks h1 j = blocks h j" for j
    using c by (auto simp: createBlock_def Let_def split: if_splits)
  have ext: "grows h h1" using cb(2) by (simp add: grows_def)
  show ?thesis
  proof (rule that [OF ac cb(1) ext _ _ _ _ fr])
    show "tls_chain h1 = None" using cb(3) by simp
    show "r = None \<Longrightarrow> \<exists>n. \<not> malloc_ok h n" using cb(4) by auto
  next
    fix i assume "r = Some i"
    from cb(5) [OF this]
    show "i < next_block h1 \<and> 0 < freeSpace (blocks h1 i) \<and> bnext (blocks h1 i) = None"
      and "i = next_block h" by auto
  qed
qed

text \<open>The acquired blocks form a chain through their \<^verbatim>\<open>next\<close> pointers.\<close>

fun chain :: "heap \<Rightarrow> nat list \<Rightarrow> nat option \<Rightarrow> bool" where
  "chain h [] p \<longleftrightarrow> p = None"
| "chain h (i # ks) p \<longleftrightarrow> p = Some i \<and> chain h ks (bnext (blocks h i))"

lemma chain_cong:
  "(\<And>i. i \<in> set ks \<Longrightarrow> bnext (blocks h' i) = bnext (blocks h i)) \<Longrightarrow> chain h' ks p = chain h ks p"
  by (induction ks arbitrary: p) auto

lemma chain_snoc:
  assumes "chain h ks p" and "ks \<noteq> []" and "distinct (ks @ [i])" and "bnext (blocks h i) = None"
  shows "chain (upd_block (last ks) (\<lambda>b. b\<lparr>bnext := Some i\<rparr>) h) (ks @ [i]) p"
  using assms
proof (induction ks arbitrary: p)
  case (Cons k ks)
  show ?case
  proof (cases "ks = []")
    case False
    with Cons show ?thesis by (auto dest: last_in_set)
  qed (use Cons in auto)
qed simp

text \<open>What is known of the vectors handed to \<^verbatim>\<open>readv\<close>: they cover the free space of the chain.\<close>

definition vecs_ok :: "heap \<Rightarrow> iovec list \<Rightarrow> bool" where
  "vecs_ok h vec \<longleftrightarrow>
     distinct (map fst vec)
     \<and> (\<forall>i off len. (i, off, len) \<in> set vec \<longrightarrow> i < next_block h \<and> off = bsize (blocks h i)
          \<and> len \<le> freeSpace (blocks h i) \<and> 0 < freeSpace (blocks h i))
     \<and> (\<forall>i off len. (i, off, len) \<in> set (butlast vec) \<longrightarrow> len = freeSpace (blocks h i))"

definition vec_space :: "iovec list \<Rightarrow> nat" where
  "vec_space vec = sum_list (map (\<lambda>(i, off, len). len) vec)"

lemma acquire_vecs_ok:
  assumes "heap_ok h" and "vecs_ok h vec" and "chain h (map fst vec) head"
    and "\<forall>i off len. (i, off, len) \<in> set vec \<longrightarrow> len = freeSpace (blocks h i)"
    and "tail = (if vec = [] then None else Some (fst (last vec)))"
    and "vec \<noteq> [] \<Longrightarrow> tls_chain h = None" and "space = vec_space vec" and "space \<le> max_size"
  shows "\<exists>r. acquire_vecs h max_size head tail vec space = Some r \<and>
    (case r of
       Inl h' \<Rightarrow> heap_ok h' \<and> grows h h' \<and> (\<exists>n. \<not> malloc_ok h n)
     | Inr (h', head', vec') \<Rightarrow> heap_ok h' \<and> grows h h' \<and> tls_chain h' = None \<and> vecs_ok h' vec' \<and> vec' \<noteq> []
         \<and> chain h' (map fst vec') head' \<and> vec_space vec' \<le> max_size)"
  using assms
proof (induction "MAX_APPEND_IOVEC - length vec" arbitrary: h head tail vec space rule: less_induct)
  case less
  obtain h1 r where ac: "acquireBlockFromTLSChain h = Some (h1, r)" "heap_ok h1" "grows h h1"
      "tls_chain h1 = None" "r = None \<Longrightarrow> \<exists>n. \<not> malloc_ok h n"
      "\<And>i. r = Some i \<Longrightarrow> i < next_block h1 \<and> 0 < freeSpace (blocks h1 i) \<and> bnext (blocks h1 i) = None"
      "\<And>i. r = Some i \<Longrightarrow> tls_chain h = None \<Longrightarrow> i = next_block h"
      "\<And>j. j < next_block h \<Longrightarrow> blocks h1 j = blocks h j"
    using acquireBlockFromTLSChain_ok [OF less.prems(1)] by blast
  show ?case
  proof (cases r)
    case None
    then show ?thesis using ac by (simp add: acquire_vecs.simps [of h])
  next
    case (Some i)
    have old: "j < next_block h" if "j \<in> set (map fst vec)" for j
      using that less.prems(2) by (auto simp: vecs_ok_def)
    have new: "i \<notin> set (map fst vec)"
    proof
      assume i: "i \<in> set (map fst vec)"
      then have "tls_chain h = None" using less.prems(6) by force
      then show False using ac(7) [OF Some] old [OF i] by simp
    qed
    define h2 where "h2 = (if vec = [] then h1 else upd_block (fst (last vec)) (\<lambda>b. b\<lparr>bnext := Some i\<rparr>) h1)"
    define hd2 where "hd2 = (if vec = [] then Some i else head)"
    define len where "len = min (freeSpace (blocks h2 i)) (max_size - space)"
    define vec2 where "vec2 = vec @ [(i, bsize (blocks h2 i), len)]"
    have step: "acquire_vecs h max_size head tail vec space =
        (if space + len \<ge> max_size \<or> length vec2 \<ge> MAX_APPEND_IOVEC then Some (Inr (h2, hd2, vec2))
         else acquire_vecs h2 max_size hd2 (Some i) vec2 (space + len))"
      using ac(1) Some less.prems(5)
      by (cases "vec = []") (simp_all add: acquire_vecs.simps [of h] h2_def hd2_def len_def vec2_def Let_def)
    have h2: "heap_ok h2" "grows h h2" "tls_chain h2 = None"
      using ac(2,3,4) by (auto simp: h2_def heap_ok_def grows_def block_ok_def)
    have fr: "bsize (blocks h2 j) = bsize (blocks h j) \<and> freeSpace (blocks h2 j) = freeSpace (blocks h j)"
      if "j < next_block h" for j
      using ac(8) [OF that] by (auto simp: h2_def freeSpace_def)
    have i: "i < next_block h2" "0 < freeSpace (blocks h2 i)"
      using ac(6) [OF Some] by (auto simp: h2_def freeSpace_def)
    have nb: "next_block h \<le> next_block h2" using h2(2) by (simp add: grows_def)
    have full: "\<forall>j off l. (j, off, l) \<in> set vec \<longrightarrow> l = freeSpace (blocks h2 j)"
      using less.prems(2,4) fr by (auto simp: vecs_ok_def)
    have "j < next_block h2 \<and> off = bsize (blocks h2 j) \<and> l \<le> freeSpace (blocks h2 j) \<and> 0 < freeSpace (blocks h2 j)"
      if "(j, off, l) \<in> set vec" for j off l
    proof -
      have "j < next_block h \<and> off = bsize (blocks h j) \<and> l \<le> freeSpace (blocks h j) \<and> 0 < freeSpace (blocks h j)"
        using less.prems(2) that unfolding vecs_ok_def by blast
      then show ?thesis using fr [of j] nb by auto
    qed
    then have v2: "vecs_ok h2 vec2"
      using less.prems(2) new i full unfolding vecs_ok_def vec2_def len_def by simp
    have c2: "chain h2 (map fst vec2) hd2"
    proof (cases "vec = []")
      case True
      then show ?thesis using ac(6) [OF Some] by (simp add: vec2_def hd2_def h2_def)
    next
      case False
      have "chain h1 (map fst vec) head = chain h (map fst vec) head"
        by (rule chain_cong) (simp add: ac(8) old)
      then have "chain h1 (map fst vec) head" using less.prems(3) by simp
      moreover have "distinct (map fst vec @ [i])" using less.prems(2) new by (simp add: vecs_ok_def)
      ultimately show ?thesis
        using chain_snoc [of h1 "map fst vec" head i] ac(6) [OF Some] False
        by (simp add: vec2_def hd2_def h2_def last_map)
    qed
    have sp: "space + len = vec_space vec2" "space + len \<le> max_size"
      using less.prems(7,8) by (simp_all add: vec2_def vec_space_def len_def)
    show ?thesis
    proof (cases "space + len \<ge> max_size \<or> length vec2 \<ge> MAX_APPEND_IOVEC")
      case True
      then have "acquire_vecs h max_size head tail vec space = Some (Inr (h2, hd2, vec2))" using step by simp
      moreover have "vec2 \<noteq> []" by (simp add: vec2_def)
      ultimately show ?thesis using h2 v2 c2 sp by simp
    next
      case False
      then have "len = freeSpace (blocks h2 i)" unfolding len_def by linarith
      with full have "\<forall>j off l. (j, off, l) \<in> set vec2 \<longrightarrow> l = freeSpace (blocks h2 j)" by (auto simp: vec2_def)
      moreover have "MAX_APPEND_IOVEC - length vec2 < MAX_APPEND_IOVEC - length vec"
        using False by (auto simp: vec2_def)
      moreover have "vec2 \<noteq> []" "fst (last vec2) = i" by (simp_all add: vec2_def)
      ultimately have "\<exists>r'. acquire_vecs h2 max_size hd2 (Some i) vec2 (space + len) = Some r' \<and>
        (case r' of Inl h' \<Rightarrow> heap_ok h' \<and> grows h2 h' \<and> (\<exists>n. \<not> malloc_ok h2 n)
          | Inr (h', head', vec') \<Rightarrow> heap_ok h' \<and> grows h2 h' \<and> tls_chain h' = None \<and> vecs_ok h' vec'
             \<and> vec' \<noteq> [] \<and> chain h' (map fst vec') head' \<and> vec_space vec' \<le> max_size)"
        using h2 v2 c2 sp by (intro less.hyps) simp_all
      then obtain r' where r': "acquire_vecs h2 max_size hd2 (Some i) vec2 (space + len) = Some r'"
        "case r' of Inl h' \<Rightarrow> heap_ok h' \<and> grows h2 h' \<and> (\<exists>n. \<not> malloc_ok h2 n)
          | Inr (h', head', vec') \<Rightarrow> heap_ok h' \<and> grows h2 h' \<and> tls_chain h' = None \<and> vecs_ok h' vec'
             \<and> vec' \<noteq> [] \<and> chain h' (map fst vec') head' \<and> vec_space vec' \<le> max_size" by blast
      have "acquire_vecs h max_size head tail vec space = Some r'" using step False r'(1) by simp
      moreover have "malloc_ok h2 = malloc_ok h" using h2(2) by (simp add: grows_def)
      ultimately show ?thesis
        using r'(2) grows_trans [OF h2(2)] by (cases r') (simp_all add: case_prod_beta)
    qed
  qed
qed

text \<open>The free space of a block, as the kernel fills it.\<close>

definition region :: "heap \<Rightarrow> nat \<Rightarrow> bytes" where
  "region h i = map (bdata (blocks h i)) [bsize (blocks h i) ..< bcapacity (blocks h i)]"

lemma length_region [simp]: "length (region h i) = freeSpace (blocks h i)"
  by (simp add: region_def freeSpace_def)

lemma scatter_frame:
  "\<forall>i off len. (i, off, len) \<in> set vec \<longrightarrow> off = bsize (blocks h i) \<Longrightarrow>
   next_block (scatter vec xs h) = next_block h \<and> tls_chain (scatter vec xs h) = tls_chain h
   \<and> malloc_ok (scatter vec xs h) = malloc_ok h
   \<and> bsize (blocks (scatter vec xs h) j) = bsize (blocks h j)
   \<and> bcapacity (blocks (scatter vec xs h) j) = bcapacity (blocks h j)
   \<and> bnext (blocks (scatter vec xs h) j) = bnext (blocks h j)
   \<and> (\<forall>k < bsize (blocks h j). bdata (blocks (scatter vec xs h) j) k = bdata (blocks h j) k)
   \<and> (j \<notin> set (map fst vec) \<longrightarrow> blocks (scatter vec xs h) j = blocks h j)"
proof (induction vec xs h rule: scatter.induct)
  case (2 i off len vs xs h)
  have "bsize (blocks (upd_block i (write_mem off (take len xs)) h) k) = bsize (blocks h k)" for k by simp
  moreover have "\<forall>k off' len'. (k, off', len') \<in> set vs \<longrightarrow> off' = bsize (blocks h k)"
    using 2(2) by (meson list.set_intros(2))
  ultimately have "\<forall>k off' len'. (k, off', len') \<in> set vs \<longrightarrow>
      off' = bsize (blocks (upd_block i (write_mem off (take len xs)) h) k)" by metis
  from 2(1) [OF this] 2(2) show ?case by (cases "j = i") simp_all
qed simp

lemma scatter_ok:
  assumes "vecs_ok h vec" and "heap_ok h"
  shows "heap_ok (scatter vec xs h)" and "grows h (scatter vec xs h)"
    and "tls_chain (scatter vec xs h) = tls_chain h"
    and "chain (scatter vec xs h) ks p = chain h ks p"
    and "freeSpace (blocks (scatter vec xs h) j) = freeSpace (blocks h j)"
    and "next_block (scatter vec xs h) = next_block h"
proof -
  have "\<forall>i off len. (i, off, len) \<in> set vec \<longrightarrow> off = bsize (blocks h i)" using assms(1) by (auto simp: vecs_ok_def)
  note f = scatter_frame [OF this, of xs]
  show "heap_ok (scatter vec xs h)" using assms(2) f by (auto simp: heap_ok_def block_ok_def)
  show "grows h (scatter vec xs h)" using f by (simp add: grows_def)
  show "tls_chain (scatter vec xs h) = tls_chain h" "next_block (scatter vec xs h) = next_block h"
    "freeSpace (blocks (scatter vec xs h) j) = freeSpace (blocks h j)"
    using f by (simp_all add: freeSpace_def)
  show "chain (scatter vec xs h) ks p = chain h ks p" by (rule chain_cong) (simp add: f)
qed

lemma vecs_ok_Cons:
  "vecs_ok h ((i, off, len) # vs) \<longleftrightarrow>
     vecs_ok h vs \<and> i \<notin> set (map fst vs) \<and> i < next_block h \<and> off = bsize (blocks h i)
     \<and> len \<le> freeSpace (blocks h i) \<and> 0 < freeSpace (blocks h i) \<and> (vs \<noteq> [] \<longrightarrow> len = freeSpace (blocks h i))"
  by (auto simp: vecs_ok_def)

text \<open>The bytes the kernel scatters over the vectors are found in the chain's free space, in order.\<close>

lemma scatter_read:
  assumes "vecs_ok h vec" and "length xs \<le> vec_space vec"
  shows "take (length xs) (concat (map (region (scatter vec xs h)) (map fst vec))) = xs"
  using assms
proof (induction vec xs h rule: scatter.induct)
  case (2 i off len vs xs h)
  let ?h = "upd_block i (write_mem off (take len xs)) h"
  let ?g = "scatter vs (drop len xs) ?h"
  from 2(2) have v: "vecs_ok h vs" "i \<notin> set (map fst vs)" "off = bsize (blocks h i)" "len \<le> freeSpace (blocks h i)"
    "vs \<noteq> [] \<Longrightarrow> len = freeSpace (blocks h i)"
    by (simp_all add: vecs_ok_Cons)
  have vok: "vecs_ok ?h vs" using v(1) by (auto simp: vecs_ok_def freeSpace_def)
  then have "\<forall>k o' l. (k, o', l) \<in> set vs \<longrightarrow> o' = bsize (blocks ?h k)" by (auto simp: vecs_ok_def)
  from scatter_frame [OF this, of "drop len xs" i] v(2)
  have gi: "blocks ?g i = write_mem off (take len xs) (blocks h i)" by simp
  have reg: "take (length (take len xs)) (region ?g i) = take len xs"
  proof -
    have "min (length xs) len \<le> freeSpace (blocks h i)" using v(4) by simp
    then have "take (length (take len xs)) (region ?g i) =
        map (bdata (write_mem off (take len xs) (blocks h i))) [off ..< off + length (take len xs)]"
      by (simp add: region_def gi take_map freeSpace_def take_upt_diff flip: v(3))
    then show ?thesis using write_mem_read [of off "take len xs" "blocks h i"] by simp
  qed
  have lr: "length (region ?g i) = freeSpace (blocks h i)" by (simp add: gi freeSpace_def)
  show ?case
  proof (cases "length xs \<le> len")
    case True
    with reg v(4) lr show ?thesis by simp
  next
    case False
    then have "vs \<noteq> []" using 2(3) by (auto simp: vec_space_def)
    with v(5) lr reg False have r: "region ?g i = take len xs" by simp
    have "length (drop len xs) \<le> vec_space vs" using 2(3) by (simp add: vec_space_def)
    from 2(1) [OF vok this] False show ?thesis by (simp add: r)
  qed
qed (simp add: vec_space_def)

lemma claim_slices_spec:
  assumes "heap_ok h" and "buf_ok h b" and "chain h ks head" and "distinct ks" and "tls_chain h = None"
    and "\<forall>i \<in> set ks. i < next_block h \<and> 0 < freeSpace (blocks h i)"
    and "0 < n" and "n \<le> length (concat (map (region h) ks))"
  shows "\<exists>h' b' head'. claim_slices h b head n = Some (h', b', head') \<and> heap_ok h' \<and> grows h h' \<and> buf_ok h' b'
    \<and> tls_chain h' = None \<and> to_string h' b' = to_string h b @ take n (concat (map (region h) ks))
    \<and> (\<forall>i. head' = Some i \<longrightarrow> i < next_block h' \<and> 0 < freeSpace (blocks h' i))"
  using assms
proof (induction ks arbitrary: h b head n)
  case (Cons i ks)
  let ?len = "min n (freeSpace (blocks h i))" and ?o = "bsize (blocks h i)"
  define h1 where "h1 = upd_block i (\<lambda>k. k\<lparr>bsize := bsize k + ?len\<rparr>) h"
  define s where "s = \<lparr>sblock = i, soffset = ?o, slength = ?len\<rparr>"
  define b1 where "b1 = b\<lparr>refs := refs b @ [s]\<rparr>"
  define hd1 where "hd1 = (if freeSpace (blocks h1 i) = 0 then bnext (blocks h i) else head)"
  have head: "head = Some i" "chain h ks (bnext (blocks h i))" and i: "i < next_block h" "0 < freeSpace (blocks h i)"
    and ni: "i \<notin> set ks" using Cons.prems by auto
  have fs: "freeSpace (blocks h1 i) = freeSpace (blocks h i) - ?len"
    by (auto simp: h1_def freeSpace_def)
  have step: "claim_slices h b head n =
      (if 0 < n - ?len then claim_slices h1 b1 hd1 (n - ?len) else Some (h1, b1, hd1))"
    unfolding head(1) hd1_def
    by (subst claim_slices.simps) (simp add: Let_def h1_def b1_def s_def cong: if_cong split del: if_split)
  have "block_ok (blocks h i)" using Cons.prems(1) i by (simp add: heap_ok_def)
  then have "block_ok ((blocks h i)\<lparr>bsize := ?o + ?len\<rparr>)" by (auto simp: block_ok_def freeSpace_def)
  then have h1: "heap_ok h1" using Cons.prems(1) by (simp add: heap_ok_def h1_def)
  have ext: "grows h h1" by (simp add: grows_def h1_def)
  have tls: "tls_chain h1 = None" using Cons.prems(5) by (simp add: h1_def)
  have "slice_ok h1 s" using i by (simp add: slice_ok_def s_def h1_def)
  then have b1: "buf_ok h1 b1" using buf_ok_ext [OF ext Cons.prems(2)] by (auto simp: b1_def buf_ok_def)
  have "slice_bytes h1 s = take ?len (region h i)"
    by (simp add: slice_bytes_def region_def s_def h1_def take_map take_upt_diff freeSpace_def)
  then have str: "to_string h1 b1 = to_string h b @ take ?len (region h i)"
    using Cons.prems(2) to_string_ext [OF ext Cons.prems(2)]
    by (simp add: b1_def to_string_def buf_ok_def)
  have others: "blocks h1 j = blocks h j" if "j \<in> set ks" for j using that ni by (auto simp: h1_def)
  have nb: "next_block h1 = next_block h" by (simp add: h1_def)
  have ch: "chain h1 ks (bnext (blocks h i))" using head(2) chain_cong others by metis
  show ?case
  proof (cases "n \<le> freeSpace (blocks h i)")
    case True
    have "\<forall>j. hd1 = Some j \<longrightarrow> j < next_block h1 \<and> 0 < freeSpace (blocks h1 j)"
    proof (cases "freeSpace (blocks h1 i) = 0")
      case z: True
      show ?thesis
      proof (cases ks)
        case Nil
        then show ?thesis using head z by (simp add: hd1_def)
      next
        case (Cons k ks')
        then show ?thesis using head z Cons.prems(6) others nb by (auto simp: hd1_def)
      qed
    next
      case False
      then show ?thesis using head i nb by (simp add: hd1_def)
    qed
    then show ?thesis using True step h1 ext b1 tls str by simp
  next
    case False
    then have l: "?len = freeSpace (blocks h i)" by simp
    then have hd1: "hd1 = bnext (blocks h i)" by (simp add: hd1_def fs)
    have reg: "map (region h1) ks = map (region h) ks" using others by (simp add: region_def)
    have "n - ?len \<le> length (concat (map (region h1) ks))" using Cons.prems(8) l by (simp add: reg)
    moreover have "\<forall>j \<in> set ks. j < next_block h1 \<and> 0 < freeSpace (blocks h1 j)"
      using Cons.prems(6) others nb by simp
    ultimately obtain h' b' head' where
      *: "claim_slices h1 b1 hd1 (n - ?len) = Some (h', b', head')" "heap_ok h'" "grows h1 h'" "buf_ok h' b'"
        "tls_chain h' = None" "to_string h' b' = to_string h1 b1 @ take (n - ?len) (concat (map (region h1) ks))"
        "\<forall>i. head' = Some i \<longrightarrow> i < next_block h' \<and> 0 < freeSpace (blocks h' i)"
      using Cons.IH [OF h1 b1, of hd1 "n - ?len"] ch hd1 tls False Cons.prems(4) by auto
    have "claim_slices h b head n = Some (h', b', head')" using step False * by simp
    moreover have "to_string h' b' = to_string h b @ take n (concat (map (region h) (i # ks)))"
      using *(6) str l reg False by simp
    ultimately show ?thesis using * grows_trans [OF ext] by blast
  qed
qed simp

text \<open>Handing the rest of the chain back stops, because the thread-local chain is empty then.\<close>

lemma release_chain_ok:
  assumes "heap_ok h" and "tls_chain h = None"
    and "\<forall>i. head = Some i \<longrightarrow> i < next_block h \<and> 0 < freeSpace (blocks h i)"
  shows "\<exists>h'. release_chain h head = Some h' \<and> heap_ok h' \<and> grows h h'"
proof (cases head)
  case None
  then show ?thesis using assms(1) by (simp add: release_chain.simps [of h])
next
  case (Some i)
  let ?h = "(upd_block i (\<lambda>b. b\<lparr>bnext := None\<rparr>) h)\<lparr>tls_chain := Some i\<rparr>"
  have "release_chain h head = Some ?h"
    using assms(2,3) Some
    by (simp add: release_chain.simps [of h] release_chain.simps [of _ None] releaseBlockToTLSChain_def)
  moreover have "heap_ok ?h" using assms(1,3) Some by (auto simp: heap_ok_def block_ok_def)
  moreover have "grows h ?h" by (simp add: grows_def)
  ultimately show ?thesis by blast
qed

section \<open>The operations of the class\<close>

text \<open>The heap at start: nothing allocated, fresh memory zeroed, every allocation succeeds.\<close>

definition heap0 :: heap where
  "heap0 = \<lparr>blocks = (\<lambda>_. new_block (\<lambda>_. 0) 0), next_block = 0, tls_chain = None, attempts = 0,
            malloc_ok = (\<lambda>_. True), junk = (\<lambda>_ _. 0)\<rparr>"

lemma heap0_ok [simp]: "heap_ok heap0" "malloc_ok heap0 n"
  by (simp_all add: heap0_def heap_ok_def)

lemma buf_new_ok [simp]: "buf_ok h buf_new" "to_string h buf_new = []" "buf_length buf_new = 0"
  by (simp_all add: buf_new_def buf_ok_def to_string_def buf_length_def)

lemma buf_copy_id [simp]: "buf_copy b = b" "fst (buf_move b) = b"
  by (simp_all add: buf_copy_def buf_move_def)

text \<open>
  Appending bytes. Whatever the allocator does, the call returns, every other buffer keeps its
  contents and the buffer gains a prefix of the data; when memory is available it gains all of it.
\<close>

lemma append_data_spec:
  assumes "heap_ok h" and "buf_ok h b"
  obtains h' b' k where "append_data h b (Some xs) = Some (h', b')" and "heap_ok h'" and "grows h h'"
    and "buf_ok h' b'" and "to_string h' b' = to_string h b @ take k xs"
    and "(\<forall>n. malloc_ok h n) \<longrightarrow> k = length xs"
proof (cases "length xs = 0")
  case True
  with assms show ?thesis by (intro that [of h b 0]) (auto simp: append_data_def)
next
  case False
  from append_loop_spec [OF assms, of xs 0] obtain h' b' k where
    "append_loop h b xs 0 = Some (h', b')" "heap_ok h'" "grows h h'" "buf_ok h' b'"
    "to_string h' b' = to_string h b @ take k xs" "(\<forall>n. malloc_ok h n) \<longrightarrow> k = length xs" by auto
  with False show ?thesis by (intro that [of h' b' k]) (auto simp: append_data_def)
qed

lemma append_data_total:
  assumes "heap_ok h" and "buf_ok h b" and "\<forall>n. malloc_ok h n"
  obtains h' b' where "append_data h b (Some xs) = Some (h', b')" and "heap_ok h'" and "grows h h'"
    and "\<forall>n. malloc_ok h' n" and "buf_ok h' b'" and "to_string h' b' = to_string h b @ xs"
proof (rule append_data_spec [OF assms(1,2), of xs])
  fix h' b' k
  assume *: "append_data h b (Some xs) = Some (h', b')" "heap_ok h'" "grows h h'" "buf_ok h' b'"
    "to_string h' b' = to_string h b @ take k xs" "(\<forall>n. malloc_ok h n) \<longrightarrow> k = length xs"
  moreover have "\<forall>n. malloc_ok h' n" using *(3) assms(3) by (simp add: grows_def)
  ultimately show ?thesis using assms(3) by (intro that [of h' b']) auto
qed

lemma gather_spec:
  assumes "nvec < nref" and "nref \<le> length (refs b) - ref_offset b"
  shows "\<exists>m \<le> nref - nvec.
           gather h b nref hint nvec cur = Some (map (slice_bytes h) (take m (drop (ref_offset b + nvec) (refs b))))"
  using assms
proof (induction h b nref hint nvec cur rule: gather.induct)
  case (1 h b nref hint nvec cur)
  let ?i = "ref_offset b + nvec"
  have lt: "?i < length (refs b)" using 1(2,3) by linarith
  then have s: "slice_at h b nvec = Some (slice_bytes h (refs b ! ?i))" by (simp add: slice_at_def)
  have d: "drop ?i (refs b) = (refs b ! ?i) # drop (Suc ?i) (refs b)" using lt by (simp add: drop_Suc_nth)
  show ?case
  proof (cases "Suc nvec < nref \<and> cur + slength (refs b ! ?i) < hint")
    case True
    then obtain m where m: "m \<le> nref - Suc nvec"
      "gather h b nref hint (Suc nvec) (cur + slength (refs b ! ?i)) =
         Some (map (slice_bytes h) (take m (drop (Suc ?i) (refs b))))"
      using 1(1) [OF s] 1(3) by auto
    then have "gather h b nref hint nvec cur = Some (map (slice_bytes h) (take (Suc m) (drop ?i (refs b))))"
      using True s by (simp add: gather.simps [of h b nref hint nvec cur] d)
    then show ?thesis using m(1) True by (intro exI [of _ "Suc m"]) linarith
  next
    case False
    then have "gather h b nref hint nvec cur = Some (map (slice_bytes h) (take 1 (drop ?i (refs b))))"
      using s by (auto simp: gather.simps [of h b nref hint nvec cur] d)
    then show ?thesis using 1(2) by (intro exI [of _ 1]) linarith
  qed
qed

lemma cut_into_file_descriptor_spec:
  assumes "buf_ok h b" and "ref_offset b < length (refs b)"
  obtains vec b' where "cut_into_file_descriptor h writev hint b = Some (b', writev vec)"
    and "length vec \<le> IOBUF_IOV_MAX" and "concat vec = take (length (concat vec)) (to_string h b)"
    and "to_string h b' = drop (nat (writev vec)) (to_string h b)" and "buf_ok h b'"
proof -
  let ?n = "min (length (refs b) - ref_offset b) IOBUF_IOV_MAX"
  have "0 < ?n" using assms(2) by (simp add: IOBUF_IOV_MAX_def)
  then obtain m where m: "m \<le> ?n" "gather h b ?n hint 0 0 = Some (map (slice_bytes h) (take m (drop (ref_offset b) (refs b))))"
    using gather_spec [of 0 ?n b h hint 0] by auto
  define vec where "vec = map (slice_bytes h) (take m (drop (ref_offset b) (refs b)))"
  have "to_string h b = concat vec @ concat (map (slice_bytes h) (drop m (drop (ref_offset b) (refs b))))"
    unfolding to_string_def vec_def by (metis append_take_drop_id concat_append map_append)
  then have pre: "concat vec = take (length (concat vec)) (to_string h b)" by simp
  obtain b1 k where p: "pop_front (nat (writev vec)) b = (b1, k)" by (cases "pop_front (nat (writev vec)) b")
  let ?b = "if 0 < writev vec then b1 else b"
  have "cut_into_file_descriptor h writev hint b = Some (?b, writev vec)"
    using m(2) p by (simp add: cut_into_file_descriptor_def Let_def vec_def)
  moreover have "length vec \<le> IOBUF_IOV_MAX" using m(1) by (simp add: vec_def)
  moreover have "to_string h ?b = drop (nat (writev vec)) (to_string h b)" "buf_ok h ?b"
    using pop_front_spec [OF assms(1) p] assms(1) by auto
  ultimately show ?thesis using that pre by blast
qed

text \<open>What the code relies on of \<^verbatim>\<open>readv\<close>: it never delivers more than the vectors hold.\<close>

definition readv_ok :: "(nat list \<Rightarrow> int \<times> bytes) \<Rightarrow> bool" where
  "readv_ok readv \<longleftrightarrow>
     (\<forall>lens. length (snd (readv lens)) = nat (fst (readv lens)) \<and> nat (fst (readv lens)) \<le> sum_list lens)"

text \<open>After \<^verbatim>\<open>readv\<close>: the received bytes are claimed as slices, or nothing was received.\<close>

lemma claim_received_spec:
  assumes "heap_ok h" and "buf_ok h b" and "vecs_ok h vec" and "vec \<noteq> []" and "chain h (map fst vec) head"
    and "tls_chain h = None" and "length xs = nat nr" and "length xs \<le> vec_space vec"
  defines "h2 \<equiv> scatter vec xs h"
  shows "\<exists>h3 b3 head3.
      (if 0 < nr then claim_slices h2 b head (nat nr) else Some (h2, b, head)) = Some (h3, b3, head3)
      \<and> heap_ok h3 \<and> grows h h3 \<and> buf_ok h3 b3 \<and> tls_chain h3 = None \<and> to_string h3 b3 = to_string h b @ xs
      \<and> (\<forall>i. head3 = Some i \<longrightarrow> i < next_block h3 \<and> 0 < freeSpace (blocks h3 i))"
proof -
  note sc = scatter_ok [OF assms(3,1), of xs, folded h2_def]
  have b2: "buf_ok h2 b" "to_string h2 b = to_string h b"
    using assms(2) sc(2) by (auto intro: buf_ok_ext to_string_ext)
  have tls: "tls_chain h2 = None" and ch: "chain h2 (map fst vec) head" using sc(3,4) assms(5,6) by simp_all
  have hd: "\<forall>i \<in> set (map fst vec). i < next_block h2 \<and> 0 < freeSpace (blocks h2 i)"
    using assms(3) by (auto simp: sc vecs_ok_def)
  show ?thesis
  proof (cases "0 < nr")
    case True
    have rd: "take (nat nr) (concat (map (region h2) (map fst vec))) = xs"
      using scatter_read [OF assms(3,8)] assms(7) by (simp add: h2_def)
    then have "length (take (nat nr) (concat (map (region h2) (map fst vec)))) = nat nr"
      using assms(7) by simp
    then have le: "nat nr \<le> length (concat (map (region h2) (map fst vec)))"
      by (simp only: length_take min.absorb_iff2)
    have dist: "distinct (map fst vec)" using assms(3) by (simp add: vecs_ok_def)
    have pos: "0 < nat nr" using True by simp
    from claim_slices_spec [OF sc(1) b2(1) ch dist tls hd pos le] obtain h3 b3 head3 where
      *: "claim_slices h2 b head (nat nr) = Some (h3, b3, head3)" "heap_ok h3" "grows h2 h3" "buf_ok h3 b3"
        "tls_chain h3 = None" "to_string h3 b3 = to_string h2 b @ xs"
        "\<forall>i. head3 = Some i \<longrightarrow> i < next_block h3 \<and> 0 < freeSpace (blocks h3 i)"
      unfolding rd by blast
    have "grows h h3" using grows_trans [OF sc(2) *(3)] .
    with True * b2(2) show ?thesis by (intro exI [of _ h3] exI [of _ b3] exI [of _ head3]) simp
  next
    case False
    then have "xs = []" using assms(7) by simp
    moreover have "\<forall>i. head = Some i \<longrightarrow> i \<in> set (map fst vec)" using assms(4,5) by (cases vec) auto
    then have "\<forall>i. head = Some i \<longrightarrow> i < next_block h2 \<and> 0 < freeSpace (blocks h2 i)" using hd by blast
    ultimately show ?thesis
      using False sc(1,2) tls b2 by (intro exI [of _ h2] exI [of _ b] exI [of _ head]) simp
  qed
qed

lemma append_from_file_descriptor_spec:
  assumes "heap_ok h" and "buf_ok h b" and "readv_ok readv"
  shows "\<exists>h' b' r. append_from_file_descriptor h readv max_size b = Some (h', b', r)
    \<and> heap_ok h' \<and> grows h h' \<and> buf_ok h' b'
    \<and> ((r = -1 \<and> b' = b \<and> (\<exists>n. \<not> malloc_ok h n))
       \<or> (\<exists>lens. sum_list lens \<le> max_size \<and> r = fst (readv lens)
            \<and> to_string h' b' = to_string h b @ snd (readv lens)))"
proof -
  obtain r where acq: "acquire_vecs h max_size None None [] 0 = Some r"
    and r: "case r of
       Inl h' \<Rightarrow> heap_ok h' \<and> grows h h' \<and> (\<exists>n. \<not> malloc_ok h n)
     | Inr (h', head', vec') \<Rightarrow> heap_ok h' \<and> grows h h' \<and> tls_chain h' = None \<and> vecs_ok h' vec' \<and> vec' \<noteq> []
         \<and> chain h' (map fst vec') head' \<and> vec_space vec' \<le> max_size"
    using acquire_vecs_ok [OF assms(1), of "[]" None None 0 max_size]
    by (auto simp: vecs_ok_def vec_space_def)
  show ?thesis
  proof (cases r)
    case (Inl h1)
    with acq r assms(2) show ?thesis
      by (auto simp: append_from_file_descriptor_def intro: buf_ok_ext)
  next
    case (Inr q)
    then obtain h1 head vec where q: "r = Inr (h1, head, vec)" by (cases q) auto
    then have h1: "heap_ok h1" "grows h h1" "tls_chain h1 = None" "vecs_ok h1 vec" "vec \<noteq> []"
      "chain h1 (map fst vec) head" "vec_space vec \<le> max_size" using r by auto
    define lens where "lens = map (\<lambda>(i, off, len). len) vec"
    obtain nr xs where rv: "readv lens = (nr, xs)" by (cases "readv lens")
    have "length xs = nat nr" "nat nr \<le> sum_list lens"
      using assms(3) [unfolded readv_ok_def, rule_format, of lens] by (simp_all add: rv)
    then have lens: "sum_list lens \<le> max_size" "length xs = nat nr" "length xs \<le> vec_space vec"
      using h1(7) by (simp_all add: lens_def vec_space_def)
    have b1: "buf_ok h1 b" "to_string h1 b = to_string h b"
      using assms(2) h1(2) by (auto intro: buf_ok_ext to_string_ext)
    from claim_received_spec [OF h1(1) b1(1) h1(4-6,3) lens(2,3)] obtain h3 b3 head3 where
      c: "(if 0 < nr then claim_slices (scatter vec xs h1) b head (nat nr) else Some (scatter vec xs h1, b, head))
            = Some (h3, b3, head3)"
      and h3: "heap_ok h3" "grows h1 h3" "buf_ok h3 b3" "tls_chain h3 = None" "to_string h3 b3 = to_string h1 b @ xs"
        "\<forall>i. head3 = Some i \<longrightarrow> i < next_block h3 \<and> 0 < freeSpace (blocks h3 i)" by blast
    obtain h4 where h4: "release_chain h3 head3 = Some h4" "heap_ok h4" "grows h3 h4"
      using release_chain_ok [OF h3(1,4,6)] by blast
    have "append_from_file_descriptor h readv max_size b = Some (h4, b3, nr)"
      by (simp only: append_from_file_descriptor_def acq q rv [unfolded lens_def]
          bind.bind_lunit sum.case prod.case Let_def c h4(1))
    moreover have "grows h h4" using h1(2) h3(2) h4(3) by (blast intro: grows_trans)
    moreover have "buf_ok h4 b3" "to_string h4 b3 = to_string h b @ xs"
      using h3(3,5) h4(3) b1(2) by (auto intro: buf_ok_ext simp: to_string_ext)
    moreover have "nr = fst (readv lens)" "xs = snd (readv lens)" by (simp_all add: rv)
    ultimately show ?thesis using h4(2) lens(1) by blast
  qed
qed

section \<open>The interface to the serialisers\<close>

text \<open>
  What a serialiser relies on: bytes appended to a buffer come after what it holds, and no
  append disturbs another buffer. The contract is stated for any store; the heap with
  memory available provides it.
\<close>

fun append_all :: "('h \<Rightarrow> 'b \<Rightarrow> bytes \<Rightarrow> ('h \<times> 'b) option) \<Rightarrow> 'h \<Rightarrow> 'b \<Rightarrow> bytes list \<Rightarrow> ('h \<times> 'b) option" where
  "append_all app h b [] = Some (h, b)"
| "append_all app h b (xs # xss) = do { (h1, b1) \<leftarrow> app h b xs; append_all app h1 b1 xss }"

locale byte_sink =
  fixes inv :: "'h \<Rightarrow> bool"
    and ok :: "'h \<Rightarrow> 'b \<Rightarrow> bool"
    and content :: "'h \<Rightarrow> 'b \<Rightarrow> bytes"
    and after :: "'h \<Rightarrow> 'h \<Rightarrow> bool"
    and app :: "'h \<Rightarrow> 'b \<Rightarrow> bytes \<Rightarrow> ('h \<times> 'b) option"
  assumes after_refl: "after h h"
    and after_trans: "after h1 h2 \<Longrightarrow> after h2 h3 \<Longrightarrow> after h1 h3"
    and frame: "after h h' \<Longrightarrow> ok h b \<Longrightarrow> ok h' b \<and> content h' b = content h b"
    and app_ok: "inv h \<Longrightarrow> ok h b \<Longrightarrow>
      \<exists>h' b'. app h b xs = Some (h', b') \<and> inv h' \<and> after h h' \<and> ok h' b' \<and> content h' b' = content h b @ xs"
begin

lemma appE:
  assumes "inv h" and "ok h b"
  obtains h' b' where "app h b xs = Some (h', b')" and "inv h'" and "after h h'" and "ok h' b'"
    and "content h' b' = content h b @ xs"
  using app_ok [OF assms] by blast

lemma append_all_ok:
  assumes "inv h" and "ok h b"
  shows "\<exists>h' b'. append_all app h b xss = Some (h', b') \<and> inv h' \<and> after h h' \<and> ok h' b'
    \<and> content h' b' = content h b @ concat xss"
  using assms
proof (induction xss arbitrary: h b)
  case Nil
  then show ?case using after_refl by simp
next
  case (Cons xs xss)
  obtain h1 b1 where *: "app h b xs = Some (h1, b1)" "inv h1" "after h h1" "ok h1 b1"
    "content h1 b1 = content h b @ xs" by (rule appE [OF Cons.prems])
  from Cons.IH [OF *(2,4)] obtain h2 b2 where "append_all app h1 b1 xss = Some (h2, b2)" "inv h2" "after h1 h2"
    "ok h2 b2" "content h2 b2 = content h1 b1 @ concat xss" by blast
  with * after_trans show ?case by fastforce
qed

lemma append_all_frame:
  assumes "inv h" and "ok h b" and "ok h c" and "append_all app h b xss = Some (h', b')"
  shows "ok h' c \<and> content h' c = content h c"
  using append_all_ok [OF assms(1,2), of xss] assms(3,4) frame by auto

end

definition heap_ready :: "heap \<Rightarrow> bool" where
  "heap_ready h \<longleftrightarrow> heap_ok h \<and> (\<forall>n. malloc_ok h n)"

lemma heap_ready_heap0 [simp]: "heap_ready heap0"
  by (simp add: heap_ready_def)

interpretation sink: byte_sink heap_ready buf_ok to_string grows "\<lambda>h b xs. append_data h b (Some xs)"
proof unfold_locales
  show "grows h1 h2 \<Longrightarrow> grows h2 h3 \<Longrightarrow> grows h1 h3" for h1 h2 h3 by (rule grows_trans)
  show "grows h h' \<Longrightarrow> buf_ok h b \<Longrightarrow> buf_ok h' b \<and> to_string h' b = to_string h b" for h h' b
    by (simp add: buf_ok_ext to_string_ext)
next
  fix h b xs
  assume "heap_ready h" and b: "buf_ok h b"
  then have h: "heap_ok h" "\<forall>n. malloc_ok h n" by (auto simp: heap_ready_def)
  show "\<exists>h' b'. append_data h b (Some xs) = Some (h', b') \<and> heap_ready h' \<and> grows h h' \<and> buf_ok h' b'
          \<and> to_string h' b' = to_string h b @ xs"
    by (rule append_data_total [OF h(1) b h(2), of xs]) (auto simp: heap_ready_def)
qed simp

section \<open>Properties\<close>

text \<open>A heap with one block of sixteen bytes and a buffer of three slices of it, for the examples.\<close>

definition heap1 :: heap where
  "heap1 = heap0\<lparr>blocks := (\<lambda>_. \<lparr>bnext = None, bsize = 16, bcapacity = 8168, bdata = of_nat\<rparr>), next_block := 1\<rparr>"

definition buf1 :: iobuf where
  "buf1 = \<lparr>refs = [\<lparr>sblock = 0, soffset = 0, slength = 4\<rparr>, \<lparr>sblock = 0, soffset = 4, slength = 4\<rparr>,
                   \<lparr>sblock = 0, soffset = 8, slength = 2\<rparr>], ref_offset = 1\<rparr>"

lemma buf1_ok [simp]: "heap_ok heap1" "buf_ok heap1 buf1" "malloc_ok heap1 n"
  by (simp_all add: heap1_def buf1_def heap0_def heap_ok_def block_ok_def buf_ok_def slice_ok_def
      BUFFER_DEFAULT_BLOCK_SIZE_def offsetof_block_data_def)

lemma buf1_bytes: "to_string heap1 buf1 = [4, 5, 6, 7, 8, 9]"
  by (simp add: to_string_def heap1_def buf1_def slice_bytes_def upt_rec)

text \<open>
  C15. Appending bytes returns on every reachable heap, whatever the allocator does. The
  invariants hold again, the buffer gains a prefix of the data, all of it when allocation
  succeeds, and every other buffer, shared blocks included, keeps its contents.
\<close>

theorem append_appends:
  assumes "heap_ok h" and "buf_ok h b"
  shows "\<exists>h' b' k. append_data h b (Some xs) = Some (h', b') \<and> heap_ok h' \<and> buf_ok h' b'
    \<and> to_string h' b' = to_string h b @ take k xs \<and> ((\<forall>n. malloc_ok h n) \<longrightarrow> k = length xs)
    \<and> (\<forall>c. buf_ok h c \<longrightarrow> buf_ok h' c \<and> to_string h' c = to_string h c)"
proof -
  obtain h' b' k where *: "append_data h b (Some xs) = Some (h', b')" "heap_ok h'" "grows h h'" "buf_ok h' b'"
    "to_string h' b' = to_string h b @ take k xs" "(\<forall>n. malloc_ok h n) \<longrightarrow> k = length xs"
    by (rule append_data_spec [OF assms, of xs])
  with sink.frame [OF *(3)] show ?thesis by (intro exI [of _ h'] exI [of _ b'] exI [of _ k]) simp
qed

theorem append_appends_witness:
  "\<exists>h' b'. append_data heap0 buf_new (Some [1, 2, 3]) = Some (h', b') \<and> to_string h' b' = [1, 2, 3]"
  using append_appends [of heap0 buf_new "[1, 2, 3]"] by auto

text \<open>
  C18. Cutting \<open>n\<close> bytes into another buffer moves exactly the first \<open>n\<close> bytes (all of them when
  there are fewer), in order, and returns how many were moved.
\<close>

theorem cut_moves_prefix:
  assumes "buf_ok h b" and "buf_ok h out" and "cut_buf n b out = (b', out', k)"
  shows "to_string h out' = to_string h out @ take n (to_string h b) \<and> to_string h b' = drop n (to_string h b)
    \<and> k = min n (length (to_string h b)) \<and> buf_ok h b' \<and> buf_ok h out'"
  using cut_buf_spec [OF assms] pop_front_spec [OF assms(1)] by simp

theorem cut_moves_prefix_witness:
  "to_string heap1 (fst (snd (cut_buf 5 buf1 buf_new))) = [4, 5, 6, 7, 8] \<and> snd (snd (cut_buf 5 buf1 buf_new)) = 5"
  by (cases "cut_buf 5 buf1 buf_new") (use cut_moves_prefix [of heap1 buf1 buf_new 5] buf1_bytes in simp)

text \<open>
  C19. Removing from either end, copying out and cutting into memory are the list operations on
  the contents: what is removed, what is returned and what is left.
\<close>

theorem pop_and_copy_refine:
  assumes "buf_ok h b"
  shows "to_string h (fst (pop_front n b)) = drop n (to_string h b)
    \<and> to_string h (fst (pop_back n b)) = take (length (to_string h b) - n) (to_string h b)
    \<and> snd (pop_front n b) = min n (length (to_string h b)) \<and> snd (pop_back n b) = min n (length (to_string h b))
    \<and> copy_to h n b = (take n (to_string h b), min n (length (to_string h b)))
    \<and> cut_mem h n b = (fst (pop_front n b), take n (to_string h b), min n (length (to_string h b)))
    \<and> buf_ok h (fst (pop_front n b)) \<and> buf_ok h (fst (pop_back n b))"
proof -
  have "ref_offset b \<le> length (refs b)" using assms by (simp add: buf_ok_def)
  with pop_front_spec [OF assms prod.collapse [symmetric], of n] pop_back_spec [OF assms prod.collapse [symmetric], of n]
  show ?thesis by (simp add: copy_to_spec cut_mem_spec)
qed

theorem pop_and_copy_refine_witness:
  "to_string heap1 (fst (pop_front 5 buf1)) = [9] \<and> to_string heap1 (fst (pop_back 5 buf1)) = [4]
   \<and> fst (copy_to heap1 3 buf1) = [4, 5, 6]"
  using pop_and_copy_refine [of heap1 buf1 5] pop_and_copy_refine [of heap1 buf1 3] buf1_bytes by simp

text \<open>
  C17. Reading from a file descriptor returns for every behaviour of \<^verbatim>\<open>readv\<close> that respects
  the lengths of its vectors: it appends exactly the received bytes, at most \<open>max_size\<close>, hands the
  rest of the blocks back, and changes no other buffer. It fails only when an allocation fails.
\<close>

theorem append_from_file_descriptor_appends:
  assumes "heap_ok h" and "buf_ok h b" and "readv_ok readv" and "buf_ok h c"
  shows "\<exists>h' b' r. append_from_file_descriptor h readv max_size b = Some (h', b', r)
    \<and> heap_ok h' \<and> buf_ok h' b' \<and> to_string h' c = to_string h c
    \<and> (r = -1 \<and> b' = b \<and> (\<exists>n. \<not> malloc_ok h n)
       \<or> (\<exists>lens. sum_list lens \<le> max_size \<and> r = fst (readv lens)
            \<and> to_string h' b' = to_string h b @ snd (readv lens)))"
  using append_from_file_descriptor_spec [OF assms(1-3), of max_size] assms(4) sink.frame by blast

theorem append_from_file_descriptor_appends_witness:
  "\<exists>h' b' r. append_from_file_descriptor heap1 (\<lambda>lens. if 2 \<le> sum_list lens then (2, [7, 8]) else (0, [])) 100 buf1
     = Some (h', b', r) \<and> to_string h' buf1 = [4, 5, 6, 7, 8, 9]"
proof -
  let ?readv = "\<lambda>lens. if 2 \<le> sum_list lens then (2, [7, 8]) else (0, [])"
  have "readv_ok ?readv" by (simp add: readv_ok_def)
  from append_from_file_descriptor_appends [OF buf1_ok(1,2) this buf1_ok(2), of 100]
  show ?thesis unfolding buf1_bytes by blast
qed

text \<open>
  C21. Writing to a file descriptor hands the kernel a prefix of the contents in at most 256 vectors,
  and then removes exactly the bytes the kernel took; nothing is lost or sent twice.
\<close>

theorem cut_into_file_descriptor_sends_prefix:
  assumes "buf_ok h b" and "slice_num b \<noteq> 0"
  shows "\<exists>vec b'. cut_into_file_descriptor h writev hint b = Some (b', writev vec) \<and> length vec \<le> 256
    \<and> concat vec = take (length (concat vec)) (to_string h b)
    \<and> to_string h b' = drop (nat (writev vec)) (to_string h b) \<and> buf_ok h b'"
proof -
  have "ref_offset b < length (refs b)" using assms(2) by (simp add: slice_num_def)
  then obtain vec b' where "cut_into_file_descriptor h writev hint b = Some (b', writev vec)"
    "length vec \<le> IOBUF_IOV_MAX" "concat vec = take (length (concat vec)) (to_string h b)"
    "to_string h b' = drop (nat (writev vec)) (to_string h b)" "buf_ok h b'"
    by (rule cut_into_file_descriptor_spec [OF assms(1)])
  then show ?thesis unfolding IOBUF_IOV_MAX_def by blast
qed

theorem cut_into_file_descriptor_sends_prefix_witness:
  "\<exists>b'. cut_into_file_descriptor heap1 (\<lambda>vec. 3) 100 buf1 = Some (b', 3) \<and> to_string heap1 b' = [7, 8, 9]"
proof -
  have "slice_num buf1 \<noteq> 0" by (simp add: slice_num_def buf1_def)
  from cut_into_file_descriptor_sends_prefix [OF buf1_ok(2) this, of "\<lambda>vec. 3" 100]
  show ?thesis by (auto simp: buf1_bytes)
qed

text \<open>The bytes of the first \<open>n\<close> slices of the vector of a buffer, whether or not it has consumed them.\<close>

definition front_bytes :: "heap \<Rightarrow> nat \<Rightarrow> iobuf \<Rightarrow> bytes" where
  "front_bytes h n b = concat (map (slice_bytes h) (take n (refs b)))"

lemma front_to_string: "front_bytes h (ref_offset b) b @ to_string h b = concat (map (slice_bytes h) (refs b))"
  unfolding front_bytes_def to_string_def by (simp flip: concat_append map_append)

text \<open>
  C36. Two operations ignore read positions. Move assignment keeps the position of the target: of all the slices of the source it
  skips as many as the target had consumed, so bytes the source had not consumed are lost or consumed ones come back,
  and the target is broken when the source has fewer slices than that. Appending one buffer to another takes over the slices
  before the source's position: exactly the bytes the source had consumed come back, in front of its contents.
\<close>

theorem read_position_ignored:
  assumes "buf_ok h b" "buf_ok h right"
  shows "front_bytes h (ref_offset b) right @ to_string h (fst (buf_move_assign b right)) = front_bytes h (ref_offset right) right @ to_string h right
    \<and> (buf_ok h (fst (buf_move_assign b right)) \<longleftrightarrow> ref_offset b \<le> length (refs right))
    \<and> to_string h (append_copy b right) = to_string h b @ front_bytes h (ref_offset right) right @ to_string h right
    \<and> to_string h (fst (append_move b right)) = to_string h b @ front_bytes h (ref_offset right) right @ to_string h right"
proof -
  let ?m = "fst (buf_move_assign b right)"
  have "front_bytes h (ref_offset b) right @ to_string h ?m = concat (map (slice_bytes h) (refs right))"
    using front_to_string [of h ?m] by (simp add: buf_move_assign_def front_bytes_def)
  moreover have "buf_ok h ?m \<longleftrightarrow> ref_offset b \<le> length (refs right)"
    using assms by (simp add: buf_ok_def buf_move_assign_def)
  moreover have "to_string h (append_copy b right) = to_string h b @ concat (map (slice_bytes h) (refs right))"
    "to_string h (fst (append_move b right)) = to_string h b @ concat (map (slice_bytes h) (refs right))"
    using assms(1) by (simp_all add: to_string_def append_copy_def append_move_def buf_ok_def)
  ultimately show ?thesis
    using front_to_string [of h right] by simp
qed

text \<open>Ten bytes are moved into a buffer that has consumed a slice: four are lost. Appending that buffer brings four back.\<close>

theorem read_position_ignored_witness:
  "to_string heap1 (buf1\<lparr>ref_offset := 0\<rparr>) = [0, 1, 2, 3, 4, 5, 6, 7, 8, 9] \<and>
   to_string heap1 (fst (buf_move_assign buf1 (buf1\<lparr>ref_offset := 0\<rparr>))) = [4, 5, 6, 7, 8, 9] \<and>
   to_string heap1 buf1 = [4, 5, 6, 7, 8, 9] \<and> to_string heap1 (append_copy buf_new buf1) = [0, 1, 2, 3, 4, 5, 6, 7, 8, 9]"
proof -
  have f: "front_bytes heap1 1 buf1 = [0, 1, 2, 3]" "front_bytes heap1 (Suc 0) (buf1\<lparr>ref_offset := 0\<rparr>) = [0, 1, 2, 3]"
    "front_bytes heap1 0 b = []" "ref_offset buf1 = 1" "to_string heap1 buf_new = []" for b
    by (simp_all add: front_bytes_def heap1_def buf1_def buf_new_def slice_bytes_def upt_rec to_string_def)
  have r: "buf_ok heap1 (buf1\<lparr>ref_offset := 0\<rparr>)" "to_string heap1 (buf1\<lparr>ref_offset := 0\<rparr>) = [0, 1, 2, 3, 4, 5, 6, 7, 8, 9]"
    using buf1_ok(2) by (simp_all add: buf_ok_def to_string_def heap1_def buf1_def slice_bytes_def upt_rec)
  show ?thesis
    using read_position_ignored [OF buf1_ok(2) r(1)] read_position_ignored [OF buf_new_ok(1) buf1_ok(2)] r(2) f buf1_bytes by simp
qed

end
