(* ===== verification/ByteStreams.thy ===== *)
theory ByteStreams
  imports IOBuffer
begin

text \<open>
  How the protocols use the I/O buffer. The zero-copy streams of \<^verbatim>\<open>io_buffer.cpp\<close>, which the
  protobuf library reads messages from and writes them to, are modelled over the heap of blocks. A writer is a
  function that appends bytes to a buffer (\<open>appends\<close>), a reader a source of bytes (the locale
  \<open>byte_source\<close>); the operations of the buffer are instances of both.

  The counters of the streams are \<^verbatim>\<open>size_t\<close>; the sizes handed to protobuf are \<^verbatim>\<open>int\<close>, which the
  slices of a consistent heap fit, as a block has 8168 bytes.
\<close>

section \<open>The input stream\<close>

text \<open>Subtraction of \<^verbatim>\<open>size_t\<close> values wraps around.\<close>

definition size_t_sub :: "nat \<Rightarrow> nat \<Rightarrow> nat" where
  "size_t_sub a b = nat ((int a - int b) mod 2 ^ 64)"

record input_stream =
  is_buf :: iobuf
  is_byte_count :: u64
  is_add_offset :: nat
  is_ref_index :: nat

definition new_input_stream :: "iobuf \<Rightarrow> input_stream" where
  "new_input_stream b = \<lparr>is_buf = b, is_byte_count = 0, is_add_offset = 0, is_ref_index = ref_offset b\<rparr>"

text \<open>\<^verbatim>\<open>Next\<close>: the bytes between \<^verbatim>\<open>*data\<close> and \<^verbatim>\<open>*data + *size\<close>, or \<^verbatim>\<open>false\<close>.\<close>

definition is_Next :: "heap \<Rightarrow> input_stream \<Rightarrow> (input_stream \<times> bytes) option" where
  "is_Next h s =
     (if length (refs (is_buf s)) \<le> is_ref_index s then None
      else let sl = refs (is_buf s) ! is_ref_index s;
               size = size_t_sub (slength sl) (is_add_offset s);
               start = soffset sl + is_add_offset s
           in Some (s\<lparr>is_byte_count := is_byte_count s + of_nat size, is_add_offset := 0,
                      is_ref_index := Suc (is_ref_index s)\<rparr>,
                    map (bdata (blocks h (sblock sl))) [start ..< start + size]))"

definition is_BackUp :: "nat \<Rightarrow> input_stream \<Rightarrow> input_stream" where
  "is_BackUp count s =
     (if ref_offset (is_buf s) < is_ref_index s
      then let i = is_ref_index s - 1; sl = refs (is_buf s) ! i
           in s\<lparr>is_ref_index := i, is_add_offset := size_t_sub (slength sl) count,
                is_byte_count := is_byte_count s - of_nat count\<rparr>
      else s)"

function is_Skip_loop :: "nat \<Rightarrow> input_stream \<Rightarrow> input_stream \<times> bool" where
  "is_Skip_loop count s =
     (let sl = refs (is_buf s) ! is_ref_index s;
          left_bytes = size_t_sub (slength sl) (is_add_offset s)
      in if count < left_bytes
         then (s\<lparr>is_add_offset := is_add_offset s + count, is_byte_count := is_byte_count s + of_nat count\<rparr>, True)
         else let s' = s\<lparr>is_add_offset := 0, is_byte_count := is_byte_count s + of_nat left_bytes,
                         is_ref_index := Suc (is_ref_index s)\<rparr>
              in if length (refs (is_buf s)) \<le> is_ref_index s' then (s', False)
                 else is_Skip_loop (count - left_bytes) s')"
  by pat_completeness auto
termination
  by (relation "measure (\<lambda>(count, s). length (refs (is_buf s)) - is_ref_index s)") auto

declare is_Skip_loop.simps [simp del]

definition is_Skip :: "nat \<Rightarrow> input_stream \<Rightarrow> input_stream \<times> bool" where
  "is_Skip count s = (if length (refs (is_buf s)) \<le> is_ref_index s then (s, False) else is_Skip_loop count s)"

definition is_ByteCount :: "input_stream \<Rightarrow> u64" where
  "is_ByteCount s = is_byte_count s"

section \<open>The output stream\<close>

record output_stream =
  os_buf :: iobuf
  os_byte_count :: u64

definition new_output_stream :: "iobuf \<Rightarrow> output_stream" where
  "new_output_stream b = \<lparr>os_buf = b, os_byte_count = 0\<rparr>"

text \<open>
  \<^verbatim>\<open>Next\<close> hands out the free space of a block: the block, the offset and the size. It does not check
  that there is a block, so it fails when the allocation does.
\<close>

definition os_Next :: "heap \<Rightarrow> output_stream \<Rightarrow> (heap \<times> output_stream \<times> nat \<times> nat \<times> nat) option" where
  "os_Next h s = do {
     (h1, r) \<leftarrow> shareBlockFromTLSChain h;
     i \<leftarrow> r;
     let size = freeSpace (blocks h1 i);
     let off = bsize (blocks h1 i);
     let b = os_buf s;
     Some (upd_block i (\<lambda>k. k\<lparr>bsize := bcapacity k\<rparr>) h1,
       s\<lparr>os_byte_count := os_byte_count s + of_nat size,
         os_buf := b\<lparr>refs := refs b @ [\<lparr>sblock = i, soffset = off, slength = size\<rparr>]\<rparr>\<rparr>,
       i, off, size)
   }"

function os_BackUp :: "nat \<Rightarrow> heap \<Rightarrow> output_stream \<Rightarrow> heap \<times> output_stream" where
  "os_BackUp count h s =
     (if refs (os_buf s) = [] \<or> count = 0 then (h, s)
      else let b = os_buf s; sl = last (refs b) in
        if count < slength sl
        then (upd_block (sblock sl) (\<lambda>k. k\<lparr>bsize := bsize k - count\<rparr>) h,
              s\<lparr>os_buf := b\<lparr>refs := butlast (refs b) @ [sl\<lparr>slength := slength sl - count\<rparr>]\<rparr>,
                os_byte_count := os_byte_count s - of_nat count\<rparr>)
        else os_BackUp (count - slength sl) (upd_block (sblock sl) (\<lambda>k. k\<lparr>bsize := bsize k - slength sl\<rparr>) h)
               (s\<lparr>os_buf := b\<lparr>refs := butlast (refs b)\<rparr>, os_byte_count := os_byte_count s - of_nat (slength sl)\<rparr>))"
  by pat_completeness auto
termination
  by (relation "measure (\<lambda>(count, h, s). length (refs (os_buf s)))") auto

declare os_BackUp.simps [simp del]

definition os_ByteCount :: "output_stream \<Rightarrow> u64" where
  "os_ByteCount s = os_byte_count s"

section \<open>Writers\<close>

lemma append_loop_ref_offset: "append_loop h b data cur = Some (h', b') \<Longrightarrow> ref_offset b' = ref_offset b"
proof -
  assume a: "append_loop h b data cur = Some (h', b')"
  have "ref_offset (snd r) = ref_offset b" if "append_loop h b data cur = Some r" for h b data cur and r :: "heap \<times> iobuf"
  proof (rule append_loop.raw_induct [of "\<lambda>h b data cur r. ref_offset (snd r) = ref_offset b", OF _ that], goal_cases)
    case (1 f h b data cur r)
    show ?case
    proof (cases "cur < length data")
      case False
      then show ?thesis using 1(2) by auto
    next
      case True
      then obtain h1 x where sh: "shareBlockFromTLSChain h = Some (h1, x)" using 1(2) by auto
      show ?thesis
      proof (cases x)
        case None
        then show ?thesis using 1(2) True sh by auto
      next
        case (Some i)
        let ?n = "min (length data - cur) (freeSpace (blocks h1 i))"
        obtain h2 b2 where ch: "append_chunk h1 b i (take ?n (drop cur data)) = (h2, b2)" by fastforce
        then have "ref_offset b2 = ref_offset b" by (auto simp: append_chunk_def push_slice_def Let_def split: if_splits)
        moreover have "f h2 b2 data (cur + ?n) = Some r" using 1(2) True sh Some ch by (simp add: Let_def)
        ultimately show ?thesis using 1(1) by metis
      qed
    qed
  qed
  from this [OF a] show ?thesis by simp
qed

text \<open>A function that appends the bytes \<open>xs\<close> to a buffer and leaves every other buffer alone.\<close>

definition appends :: "(heap \<Rightarrow> iobuf \<Rightarrow> (heap \<times> iobuf) option) \<Rightarrow> bytes \<Rightarrow> bool" where
  "appends f xs \<longleftrightarrow>
     (\<forall>h b. heap_ready h \<and> buf_ok h b \<longrightarrow>
        (\<exists>h' b'. f h b = Some (h', b') \<and> heap_ready h' \<and> grows h h' \<and> buf_ok h' b'
           \<and> to_string h' b' = to_string h b @ xs \<and> ref_offset b' = ref_offset b))"

lemma appendsE:
  assumes "appends f xs" and "heap_ready h" and "buf_ok h b"
  obtains h' b' where "f h b = Some (h', b')" and "heap_ready h'" and "grows h h'" and "buf_ok h' b'"
    and "to_string h' b' = to_string h b @ xs" and "ref_offset b' = ref_offset b"
  using assms unfolding appends_def by blast

lemma appends_data: "appends (\<lambda>h b. append_data h b (Some xs)) xs"
  unfolding appends_def
proof (intro allI impI, elim conjE)
  fix h b assume "heap_ready h" "buf_ok h b"
  then obtain h' b' where *: "append_data h b (Some xs) = Some (h', b')" "heap_ready h'" "grows h h'" "buf_ok h' b'"
    "to_string h' b' = to_string h b @ xs" by (rule sink.appE)
  have "ref_offset b' = ref_offset b"
    using *(1) by (auto simp: append_data_def split: if_splits dest: append_loop_ref_offset)
  with * show "\<exists>h' b'. append_data h b (Some xs) = Some (h', b') \<and> heap_ready h' \<and> grows h h' \<and> buf_ok h' b'
      \<and> to_string h' b' = to_string h b @ xs \<and> ref_offset b' = ref_offset b" by blast
qed

lemma buffer_with:
  obtains h b where "buf_ok h b" and "to_string h b = xs"
proof -
  obtain h b where "buf_ok h b" "to_string h b = to_string heap0 buf_new @ xs"
    using appends_data [of xs] heap_ready_heap0 buf_new_ok(1) by (rule appendsE)
  then show ?thesis by (intro that) auto
qed

lemma appends_cstr: "appends (\<lambda>h b. append_cstr h b s) (takeWhile (\<lambda>c. c \<noteq> 0) s)"
  unfolding append_cstr_def by (rule appends_data)

lemma appends_then:
  assumes "appends f xs" and "appends g ys"
  shows "appends (\<lambda>h b. Option.bind (f h b) (\<lambda>(h1, b1). g h1 b1)) (xs @ ys)"
  unfolding appends_def
proof (intro allI impI, elim conjE)
  fix h b assume "heap_ready h" "buf_ok h b"
  with assms(1) obtain h1 b1 where 1: "f h b = Some (h1, b1)" "heap_ready h1" "grows h h1" "buf_ok h1 b1"
    "to_string h1 b1 = to_string h b @ xs" "ref_offset b1 = ref_offset b" by (rule appendsE)
  from assms(2) 1(2,4) obtain h2 b2 where 2: "g h1 b1 = Some (h2, b2)" "heap_ready h2" "grows h1 h2" "buf_ok h2 b2"
    "to_string h2 b2 = to_string h1 b1 @ ys" "ref_offset b2 = ref_offset b1" by (rule appendsE)
  have "grows h h2" using 1(3) 2(3) by (rule grows_trans)
  with 1 2 show "\<exists>h' b'. Option.bind (f h b) (\<lambda>(h1, b1). g h1 b1) = Some (h', b') \<and> heap_ready h' \<and> grows h h' \<and>
      buf_ok h' b' \<and> to_string h' b' = to_string h b @ (xs @ ys) \<and> ref_offset b' = ref_offset b" by simp
qed

text \<open>Handing over a buffer none of whose slices has been consumed.\<close>

lemma append_move_spec:
  assumes "buf_ok h b" and "buf_ok h other" and "ref_offset other = 0"
  shows "buf_ok h (fst (append_move b other))"
    and "to_string h (fst (append_move b other)) = to_string h b @ to_string h other"
  using assms by (auto simp: append_move_def buf_ok_def to_string_def)

section \<open>The input stream delivers the bytes of the buffer\<close>

definition stream_rest :: "heap \<Rightarrow> input_stream \<Rightarrow> bytes" where
  "stream_rest h s =
     drop (is_add_offset s) (concat (map (slice_bytes h) (drop (is_ref_index s) (refs (is_buf s)))))"

definition stream_ok :: "heap \<Rightarrow> input_stream \<Rightarrow> bool" where
  "stream_ok h s \<longleftrightarrow>
     heap_ok h \<and> buf_ok h (is_buf s) \<and> ref_offset (is_buf s) \<le> is_ref_index s \<and>
     is_ref_index s \<le> length (refs (is_buf s)) \<and>
     (if is_ref_index s < length (refs (is_buf s))
      then is_add_offset s \<le> slength (refs (is_buf s) ! is_ref_index s) else is_add_offset s = 0)"

lemma slice_length_bound: "heap_ok h \<Longrightarrow> slice_ok h sl \<Longrightarrow> slength sl \<le> 8168"
  by (fastforce simp: heap_ok_def slice_ok_def block_ok_def BUFFER_DEFAULT_BLOCK_SIZE_def offsetof_block_data_def)

lemma size_t_sub_le: "b \<le> a \<Longrightarrow> a \<le> 8168 \<Longrightarrow> size_t_sub a b = a - b"
  by (simp add: size_t_sub_def of_nat_diff [symmetric] nat_mod_distrib del: of_nat_diff)

lemma new_stream_ok:
  "heap_ok h \<Longrightarrow> buf_ok h b \<Longrightarrow> stream_ok h (new_input_stream b) \<and> stream_rest h (new_input_stream b) = to_string h b"
  by (simp add: stream_ok_def stream_rest_def new_input_stream_def to_string_def buf_ok_def)

lemma stream_current:
  assumes "stream_ok h s" and "is_ref_index s < length (refs (is_buf s))"
  defines "sl \<equiv> refs (is_buf s) ! is_ref_index s"
  shows "slength sl \<le> 8168" and "is_add_offset s \<le> slength sl"
    and "size_t_sub (slength sl) (is_add_offset s) = slength sl - is_add_offset s"
    and "stream_rest h s = drop (is_add_offset s) (slice_bytes h sl) @
           concat (map (slice_bytes h) (drop (Suc (is_ref_index s)) (refs (is_buf s))))"
proof -
  have ok: "slice_ok h sl" using assms by (auto simp: stream_ok_def buf_ok_def sl_def)
  show b: "slength sl \<le> 8168" using assms(1) ok slice_length_bound by (auto simp: stream_ok_def)
  show a: "is_add_offset s \<le> slength sl" using assms by (simp add: stream_ok_def)
  show "size_t_sub (slength sl) (is_add_offset s) = slength sl - is_add_offset s" using a b by (rule size_t_sub_le)
  show "stream_rest h s = drop (is_add_offset s) (slice_bytes h sl) @
           concat (map (slice_bytes h) (drop (Suc (is_ref_index s)) (refs (is_buf s))))"
    using assms(2) a by (simp add: stream_rest_def drop_Suc_nth sl_def)
qed

lemma is_BackUp_spec:
  assumes "stream_ok h s" and "is_add_offset s = 0" and "ref_offset (is_buf s) < is_ref_index s"
    and "n \<le> slength (refs (is_buf s) ! (is_ref_index s - 1))"
  shows "stream_ok h (is_BackUp n s)"
    and "stream_rest h (is_BackUp n s) =
      drop (slength (refs (is_buf s) ! (is_ref_index s - 1)) - n) (slice_bytes h (refs (is_buf s) ! (is_ref_index s - 1)))
      @ stream_rest h s"
    and "is_ByteCount (is_BackUp n s) = is_ByteCount s - of_nat n"
proof -
  let ?i = "is_ref_index s - 1"
  let ?sl = "refs (is_buf s) ! ?i"
  have i: "?i < length (refs (is_buf s))" "Suc ?i = is_ref_index s" using assms(1,3) by (auto simp: stream_ok_def)
  have sl: "slice_ok h ?sl" using assms(1) i by (auto simp: stream_ok_def buf_ok_def)
  then have "slength ?sl \<le> 8168" using assms(1) slice_length_bound by (auto simp: stream_ok_def)
  then have bk: "is_BackUp n s = s\<lparr>is_ref_index := ?i, is_add_offset := slength ?sl - n,
      is_byte_count := is_byte_count s - of_nat n\<rparr>"
    using assms(3,4) size_t_sub_le by (simp add: is_BackUp_def Let_def)
  show ok: "stream_ok h (is_BackUp n s)" using assms(1,3) i by (auto simp: bk stream_ok_def)
  show "stream_rest h (is_BackUp n s) = drop (slength ?sl - n) (slice_bytes h ?sl) @ stream_rest h s"
    using stream_current(4) [OF ok] i assms(2) by (simp add: bk stream_rest_def)
  show "is_ByteCount (is_BackUp n s) = is_ByteCount s - of_nat n" by (simp add: bk is_ByteCount_def)
qed

lemma is_Next_spec:
  assumes "stream_ok h s"
  shows "case is_Next h s of
      None \<Rightarrow> stream_rest h s = []
    | Some (s', xs) \<Rightarrow>
        stream_ok h s' \<and> stream_rest h s = xs @ stream_rest h s' \<and>
        is_ByteCount s' = is_ByteCount s + of_nat (length xs) \<and>
        (\<forall>n \<le> length xs. stream_ok h (is_BackUp n s') \<and>
           stream_rest h (is_BackUp n s') = drop (length xs - n) xs @ stream_rest h s' \<and>
           is_ByteCount (is_BackUp n s') = is_ByteCount s' - of_nat n)"
proof (cases "is_ref_index s < length (refs (is_buf s))")
  case False
  then show ?thesis using assms by (simp add: is_Next_def stream_rest_def stream_ok_def)
next
  case True
  let ?sl = "refs (is_buf s) ! is_ref_index s" and ?a = "is_add_offset s"
  note cur = stream_current [OF assms True]
  let ?s = "s\<lparr>is_byte_count := is_byte_count s + of_nat (slength ?sl - ?a), is_add_offset := 0,
              is_ref_index := Suc (is_ref_index s)\<rparr>"
  let ?xs = "map (bdata (blocks h (sblock ?sl))) [soffset ?sl + ?a ..< soffset ?sl + ?a + (slength ?sl - ?a)]"
  have next': "is_Next h s = Some (?s, ?xs)" using True cur(3) by (simp add: is_Next_def Let_def)
  have xs: "?xs = drop ?a (slice_bytes h ?sl)" using cur(2) by (simp add: slice_bytes_def drop_map)
  have ok: "stream_ok h ?s" using assms True by (auto simp: stream_ok_def)
  have rest: "stream_rest h ?s = concat (map (slice_bytes h) (drop (Suc (is_ref_index s)) (refs (is_buf s))))"
    by (simp add: stream_rest_def)
  have backup: "stream_ok h (is_BackUp n ?s) \<and>
      stream_rest h (is_BackUp n ?s) = drop (length ?xs - n) ?xs @ stream_rest h ?s \<and>
      is_ByteCount (is_BackUp n ?s) = is_ByteCount ?s - of_nat n" if "n \<le> length ?xs" for n
  proof -
    have n: "n \<le> slength ?sl" "slength ?sl - ?a - n + ?a = slength ?sl - n" using that cur(2) by auto
    have "drop (length ?xs - n) ?xs = drop (slength ?sl - n) (slice_bytes h ?sl)"
      unfolding xs using n(2) by simp
    then show ?thesis using is_BackUp_spec [OF ok, of n] n(1) assms by (simp add: stream_ok_def)
  qed
  show ?thesis using next' cur(4) xs ok rest backup by (simp add: is_ByteCount_def)
qed

lemma is_Skip_loop_spec:
  assumes "stream_ok h s" and "is_ref_index s < length (refs (is_buf s))" and "is_Skip_loop n s = (s', r)"
  shows "stream_ok h s' \<and> r = (n < length (stream_rest h s)) \<and> stream_rest h s' = drop n (stream_rest h s) \<and>
    is_ByteCount s' = is_ByteCount s + of_nat (min n (length (stream_rest h s)))"
  using assms
proof (induction n s arbitrary: s' r rule: is_Skip_loop.induct)
  case (1 n s)
  let ?sl = "refs (is_buf s) ! is_ref_index s" and ?a = "is_add_offset s"
  note cur = stream_current [OF 1(2,3)]
  let ?rest = "concat (map (slice_bytes h) (drop (Suc (is_ref_index s)) (refs (is_buf s))))"
  have len: "length (stream_rest h s) = (slength ?sl - ?a) + length ?rest" using cur(4) by simp
  show ?case
  proof (cases "n < slength ?sl - ?a")
    case True
    then have s': "s' = s\<lparr>is_add_offset := ?a + n, is_byte_count := is_byte_count s + of_nat n\<rparr>" "r"
      using 1(4) cur(3) by (simp_all add: is_Skip_loop.simps [of n s] Let_def)
    have ok: "stream_ok h s'" using 1(2,3) True by (auto simp: stream_ok_def s')
    have "stream_rest h s' = drop (?a + n) (slice_bytes h ?sl) @ ?rest"
      using stream_current(4) [OF ok] 1(3) by (simp add: s')
    also have "\<dots> = drop n (stream_rest h s)" using True cur(4) by (simp add: add.commute)
    finally show ?thesis using ok True len s' by (simp add: is_ByteCount_def)
  next
    case False
    let ?s = "s\<lparr>is_add_offset := 0, is_byte_count := is_byte_count s + of_nat (slength ?sl - ?a),
                is_ref_index := Suc (is_ref_index s)\<rparr>"
    have ok: "stream_ok h ?s" using 1(2,3) by (auto simp: stream_ok_def)
    have rest: "stream_rest h ?s = ?rest" by (simp add: stream_rest_def)
    have drop: "drop n (stream_rest h s) = drop (n - (slength ?sl - ?a)) ?rest" using False cur(4) by simp
    show ?thesis
    proof (cases "length (refs (is_buf s)) \<le> Suc (is_ref_index s)")
      case True
      then have "s' = ?s" "\<not> r" using False 1(4) cur(3) by (simp_all add: is_Skip_loop.simps [of n s] Let_def)
      then show ?thesis using ok False True rest drop len by (simp add: is_ByteCount_def)
    next
      case more: False
      have "is_Skip_loop (n - (slength ?sl - ?a)) ?s = (s', r)"
        using more False 1(4) cur(3) by (simp add: is_Skip_loop.simps [of n s] Let_def)
      then have IH: "stream_ok h s' \<and> r = (n - (slength ?sl - ?a) < length (stream_rest h ?s)) \<and>
          stream_rest h s' = drop (n - (slength ?sl - ?a)) (stream_rest h ?s) \<and>
          is_ByteCount s' = is_ByteCount ?s + of_nat (min (n - (slength ?sl - ?a)) (length (stream_rest h ?s)))"
        using 1(1) [OF refl refl _ refl] ok more False cur(3) by simp
      have "min n (length (stream_rest h s)) = (slength ?sl - ?a) + min (n - (slength ?sl - ?a)) (length ?rest)"
        using False len by auto
      then show ?thesis using IH rest drop len False by (auto simp: is_ByteCount_def)
    qed
  qed
qed

lemma is_Skip_spec:
  assumes "stream_ok h s" and "is_Skip n s = (s', r)"
  shows "stream_ok h s' \<and> r = (n < length (stream_rest h s)) \<and> stream_rest h s' = drop n (stream_rest h s) \<and>
    is_ByteCount s' = is_ByteCount s + of_nat (min n (length (stream_rest h s)))"
proof (cases "is_ref_index s < length (refs (is_buf s))")
  case True
  then show ?thesis using assms is_Skip_loop_spec by (simp add: is_Skip_def)
next
  case False
  then have "stream_rest h s = []" by (simp add: stream_rest_def)
  then show ?thesis using assms False by (auto simp: is_Skip_def)
qed


section \<open>Writing through the output stream\<close>

text \<open>
  What a client of the stream does to write \<open>xs\<close>: it takes the space \<^verbatim>\<open>Next\<close> hands out until the bytes
  are written, and gives back what it did not use.
\<close>

partial_function (option) stream_write :: "bytes \<Rightarrow> heap \<Rightarrow> output_stream \<Rightarrow> (heap \<times> output_stream) option" where
  "stream_write xs h s =
     (if xs = [] then Some (h, s)
      else Option.bind (os_Next h s) (\<lambda>(h1, s1, i, off, size).
        let h2 = upd_block i (write_mem off (take size xs)) h1
        in if length xs < size then Some (os_BackUp (size - length xs) h2 s1)
           else stream_write (drop size xs) h2 s1))"

definition write_stream :: "bytes \<Rightarrow> heap \<Rightarrow> iobuf \<Rightarrow> (heap \<times> iobuf) option" where
  "write_stream xs h b =
     Option.bind (stream_write xs h (new_output_stream b)) (\<lambda>(h', s). Some (h', os_buf s))"

text \<open>One round: the space taken, written and given back is an append to the block.\<close>

lemma write_mem_bsize: "(write_mem off xs (k\<lparr>bsize := c\<rparr>))\<lparr>bsize := c\<rparr> = write_mem off xs (k\<lparr>bsize := c\<rparr>)"
  by (cases k) (simp add: write_mem_def)

lemma write_mem_resize: "(write_mem off xs (k\<lparr>bsize := c\<rparr>))\<lparr>bsize := d\<rparr> = (write_mem off xs k)\<lparr>bsize := d\<rparr>"
  by (cases k) (simp add: write_mem_def fun_eq_iff)

lemma os_round:
  assumes "heap_ready h" and "buf_ok h (os_buf s)" and "xs \<noteq> []"
  obtains h1 s1 i off size where "os_Next h s = Some (h1, s1, i, off, size)" and "0 < size"
    and "\<And>h2 s2. (if length xs < size then os_BackUp (size - length xs) (upd_block i (write_mem off (take size xs)) h1) s1
           else (upd_block i (write_mem off (take size xs)) h1, s1)) = (h2, s2) \<Longrightarrow>
         heap_ready h2 \<and> grows h h2 \<and> buf_ok h2 (os_buf s2) \<and>
         to_string h2 (os_buf s2) = to_string h (os_buf s) @ take size xs \<and>
         ref_offset (os_buf s2) = ref_offset (os_buf s) \<and>
         os_ByteCount s2 = os_ByteCount s + of_nat (length (take size xs))"
proof -
  let ?b = "os_buf s"
  obtain h0 r where sh: "shareBlockFromTLSChain h = Some (h0, r)" "heap_ok h0" "grows h h0"
    "r = None \<Longrightarrow> \<exists>n. \<not> malloc_ok h n"
    "\<And>i. r = Some i \<Longrightarrow> i < next_block h0 \<and> 0 < freeSpace (blocks h0 i) \<and> tls_chain h0 = Some i"
    using shareBlockFromTLSChain_ok [of h] assms(1) unfolding heap_ready_def by metis
  obtain i where r: "r = Some i" using sh(4) assms(1) by (cases r) (auto simp: heap_ready_def)
  let ?k = "blocks h0 i"
  let ?off = "bsize ?k" and ?size = "freeSpace ?k"
  let ?h1 = "upd_block i (\<lambda>k. k\<lparr>bsize := bcapacity k\<rparr>) h0"
  let ?s1 = "s\<lparr>os_byte_count := os_byte_count s + of_nat ?size,
      os_buf := ?b\<lparr>refs := refs ?b @ [\<lparr>sblock = i, soffset = ?off, slength = ?size\<rparr>]\<rparr>\<rparr>"
  have i: "i < next_block h0" "0 < ?size" using sh(5) [OF r] by auto
  have nxt: "os_Next h s = Some (?h1, ?s1, i, ?off, ?size)" by (simp add: os_Next_def sh(1) r Let_def)
  let ?ys = "take ?size xs"
  let ?n = "length ?ys"
  have n: "0 < ?n" "?n \<le> ?size" using assms(3) i(2) by auto
  have cap: "?off + ?size = bcapacity ?k" using sh(2) i by (simp add: freeSpace_def)
  let ?h2 = "upd_block i (\<lambda>k. k\<lparr>bsize := ?off + ?n\<rparr>) (upd_block i (write_mem ?off ?ys) ?h1)"
  let ?s2 = "s\<lparr>os_byte_count := os_byte_count s + of_nat ?n,
      os_buf := ?b\<lparr>refs := refs ?b @ [\<lparr>sblock = i, soffset = ?off, slength = ?n\<rparr>]\<rparr>\<rparr>"
  have step: "h2 = ?h2 \<and> s2 = ?s2"
    if "(if length xs < ?size then os_BackUp (?size - length xs) (upd_block i (write_mem ?off ?ys) ?h1) ?s1
         else (upd_block i (write_mem ?off ?ys) ?h1, ?s1)) = (h2, s2)" for h2 s2
  proof (cases "length xs < ?size")
    case True
    have "?size - (?size - length xs) = length xs" "bcapacity ?k - (?size - length xs) = ?off + length xs"
      using True cap by auto
    then show ?thesis
      using that True assms(3) by (auto simp: os_BackUp.simps Let_def upd_block_def of_nat_diff)
  next
    case False
    then show ?thesis using that cap by (auto simp: upd_block_def write_mem_bsize)
  qed
  have "append_chunk h0 ?b i ?ys = (?h2, snd (append_chunk h0 ?b i ?ys))"
    by (simp add: append_chunk_def Let_def upd_block_def write_mem_resize)
  note hp = append_chunk_heap [OF sh(2) i(1) n(2) this]
  have grow: "grows h ?h2" using sh(3) hp(2) by (rule grows_trans)
  have ready: "heap_ready ?h2" using hp(1) grow assms(1) by (auto simp: heap_ready_def grows_def)
  let ?sl = "\<lparr>sblock = i, soffset = ?off, slength = ?n\<rparr>"
  have "buf_ok ?h2 ?b" "to_string ?h2 ?b = to_string h ?b"
    using grow assms(2) by (auto intro: buf_ok_ext to_string_ext)
  moreover have "slice_bytes ?h2 ?sl = ?ys" using hp(5) by (simp add: slice_bytes_def)
  moreover have "slice_ok ?h2 ?sl" using i hp(4) by (simp add: slice_ok_def)
  ultimately have buf: "buf_ok ?h2 (os_buf ?s2) \<and> to_string ?h2 (os_buf ?s2) = to_string h ?b @ ?ys"
    by (auto simp: buf_ok_def to_string_def)
  show ?thesis
    by (rule that [OF nxt i(2)]) (use step ready grow buf in \<open>auto simp: os_ByteCount_def\<close>)
qed

lemma stream_write_ok:
  assumes "heap_ready h" and "buf_ok h (os_buf s)"
  shows "\<exists>h' s'. stream_write xs h s = Some (h', s') \<and> heap_ready h' \<and> grows h h' \<and> buf_ok h' (os_buf s') \<and>
    to_string h' (os_buf s') = to_string h (os_buf s) @ xs \<and> ref_offset (os_buf s') = ref_offset (os_buf s) \<and>
    os_ByteCount s' = os_ByteCount s + of_nat (length xs)"
  using assms
proof (induction "length xs" arbitrary: xs h s rule: less_induct)
  case less
  show ?case
  proof (cases "xs = []")
    case True
    then show ?thesis using less.prems by (simp add: stream_write.simps [of "[]" h s])
  next
    case False
    obtain h1 s1 i off size where nxt: "os_Next h s = Some (h1, s1, i, off, size)" "0 < size"
      and r: "\<And>h2 s2. (if length xs < size then os_BackUp (size - length xs) (upd_block i (write_mem off (take size xs)) h1) s1
           else (upd_block i (write_mem off (take size xs)) h1, s1)) = (h2, s2) \<Longrightarrow>
         heap_ready h2 \<and> grows h h2 \<and> buf_ok h2 (os_buf s2) \<and>
         to_string h2 (os_buf s2) = to_string h (os_buf s) @ take size xs \<and>
         ref_offset (os_buf s2) = ref_offset (os_buf s) \<and>
         os_ByteCount s2 = os_ByteCount s + of_nat (length (take size xs))"
      using os_round [OF less.prems False] by blast
    let ?h2 = "upd_block i (write_mem off (take size xs)) h1"
    show ?thesis
    proof (cases "length xs < size")
      case True
      obtain h2 s2 where "os_BackUp (size - length xs) ?h2 s1 = (h2, s2)" by fastforce
      then show ?thesis using r [of h2 s2] True False nxt by (simp add: stream_write.simps [of xs h s])
    next
      case big: False
      have step: "stream_write xs h s = stream_write (drop size xs) ?h2 s1"
        using big False nxt by (simp add: stream_write.simps [of xs h s])
      have 2: "heap_ready ?h2" "grows h ?h2" "buf_ok ?h2 (os_buf s1)"
        "to_string ?h2 (os_buf s1) = to_string h (os_buf s) @ take size xs"
        "ref_offset (os_buf s1) = ref_offset (os_buf s)" "os_ByteCount s1 = os_ByteCount s + of_nat (length (take size xs))"
        using r [of ?h2 s1] big by auto
      have "length (drop size xs) < length xs" using nxt(2) False by simp
      from less.hyps [OF this 2(1,3)] obtain h' s' where 3: "stream_write (drop size xs) ?h2 s1 = Some (h', s')"
        "heap_ready h'" "grows ?h2 h'" "buf_ok h' (os_buf s')"
        "to_string h' (os_buf s') = to_string ?h2 (os_buf s1) @ drop size xs"
        "ref_offset (os_buf s') = ref_offset (os_buf s1)" "os_ByteCount s' = os_ByteCount s1 + of_nat (length (drop size xs))"
        by blast
      have "grows h h'" using 2(2) 3(3) by (rule grows_trans)
      moreover have "(of_nat size :: u64) + of_nat (length xs - size) = of_nat (length xs)"
        using big by (simp flip: of_nat_add)
      ultimately show ?thesis
        using step 2(4,5,6) 3(1,2,4,5,6,7) big by (auto simp: min_def add.assoc)
    qed
  qed
qed

lemma appends_stream: "appends (write_stream xs) xs"
  unfolding appends_def
proof (intro allI impI, elim conjE)
  fix h b assume a: "heap_ready h" "buf_ok h b"
  show "\<exists>h' b'. write_stream xs h b = Some (h', b') \<and> heap_ready h' \<and> grows h h' \<and> buf_ok h' b' \<and>
      to_string h' b' = to_string h b @ xs \<and> ref_offset b' = ref_offset b"
    using stream_write_ok [of h "new_output_stream b" xs] a
    by (auto simp: write_stream_def new_output_stream_def)
qed

section \<open>Readers\<close>

text \<open>
  A source of bytes: \<open>cut n\<close> takes the first \<open>n\<close> bytes, or all when there are fewer, and says how many it took.
\<close>

locale byte_source =
  fixes ok :: "'b \<Rightarrow> bool"
    and content :: "'b \<Rightarrow> bytes"
    and cut :: "nat \<Rightarrow> 'b \<Rightarrow> 'b \<times> bytes \<times> nat"
  assumes cut_ok: "ok b \<Longrightarrow>
    \<exists>b'. cut n b = (b', take n (content b), min n (length (content b))) \<and> ok b' \<and> content b' = drop n (content b)"
begin

lemma cut_exact:
  assumes "ok b" and "content b = xs @ ys" and "length xs = n"
  obtains b' where "cut n b = (b', xs, n)" and "ok b'" and "content b' = ys"
  using cut_ok [OF assms(1), of n] assms(2,3) by auto

lemma cut_short:
  assumes "ok b" and "length (content b) < n"
  obtains b' xs k where "cut n b = (b', xs, k)" and "k < n" and "ok b'" and "content b' = []"
  using cut_ok [OF assms(1), of n] assms(2) by auto

end

interpretation src: byte_source "buf_ok h" "to_string h" "cut_mem h" for h
proof unfold_locales
  fix b n assume b: "buf_ok h b"
  obtain b' k where p: "pop_front n b = (b', k)" by fastforce
  then show "\<exists>b'. cut_mem h n b = (b', take n (to_string h b), min n (length (to_string h b))) \<and> buf_ok h b' \<and>
      to_string h b' = drop n (to_string h b)"
    using pop_front_spec [OF b p] b by (simp add: cut_mem_spec buf_ok_def)
qed

section \<open>Properties\<close>

text \<open>
  C22. The zero-copy input stream refines a stream of bytes: the bytes still to come are those of the buffer not yet
  handed out. \<^verbatim>\<open>Next\<close> hands out the bytes at the front (or none when no slice is left), \<^verbatim>\<open>BackUp\<close>
  after it puts the last ones back, and \<^verbatim>\<open>Skip\<close> drops bytes; the byte count says how many were taken.
  \<^verbatim>\<open>Skip\<close> answers whether bytes are left behind those skipped: skipping exactly to the end answers
  \<^verbatim>\<open>false\<close>.
\<close>

theorem input_stream_refines:
  assumes "stream_ok h s"
  shows "(case is_Next h s of
      None \<Rightarrow> stream_rest h s = []
    | Some (s', xs) \<Rightarrow>
        stream_ok h s' \<and> stream_rest h s = xs @ stream_rest h s' \<and>
        is_ByteCount s' = is_ByteCount s + of_nat (length xs) \<and>
        (\<forall>n \<le> length xs. stream_ok h (is_BackUp n s') \<and>
           stream_rest h (is_BackUp n s') = drop (length xs - n) xs @ stream_rest h s' \<and>
           is_ByteCount (is_BackUp n s') = is_ByteCount s' - of_nat n)) \<and>
    (case is_Skip n s of (s', r) \<Rightarrow>
        stream_ok h s' \<and> r = (n < length (stream_rest h s)) \<and> stream_rest h s' = drop n (stream_rest h s) \<and>
        is_ByteCount s' = is_ByteCount s + of_nat (min n (length (stream_rest h s))))"
  using is_Next_spec [OF assms] is_Skip_spec [OF assms, of n] by (auto split: prod.split)

theorem input_stream_refines_witness:
  "stream_ok heap1 (new_input_stream buf1) \<and>
   (case is_Skip 6 (new_input_stream buf1) of (s', r) \<Rightarrow> stream_rest heap1 s' = [] \<and> \<not> r)"
proof -
  have s: "stream_ok heap1 (new_input_stream buf1) \<and> stream_rest heap1 (new_input_stream buf1) = [4, 5, 6, 7, 8, 9]"
    using new_stream_ok [of heap1 buf1] by (simp add: buf1_bytes)
  then show ?thesis
    using input_stream_refines [of heap1 "new_input_stream buf1" 6] by (auto split: prod.splits)
qed

text \<open>
  C23. A client that writes bytes through the zero-copy output stream, taking the space that \<^verbatim>\<open>Next\<close> hands out
  and giving the unused rest back with \<^verbatim>\<open>BackUp\<close>, appends exactly these bytes to the buffer, whatever their
  number, as long as the allocation succeeds. The byte count is their number and every other buffer keeps its contents.
\<close>

theorem output_stream_appends:
  assumes "heap_ready h" and "buf_ok h b" and "buf_ok h c"
  shows "\<exists>h' s. stream_write xs h (new_output_stream b) = Some (h', s) \<and> heap_ready h' \<and>
    buf_ok h' (os_buf s) \<and> to_string h' (os_buf s) = to_string h b @ xs \<and> os_ByteCount s = of_nat (length xs) \<and>
    to_string h' c = to_string h c"
  using stream_write_ok [of h "new_output_stream b" xs] assms to_string_ext
  by (fastforce simp: new_output_stream_def os_ByteCount_def)

theorem output_stream_appends_witness:
  "\<exists>h' s. stream_write [1, 2, 3] heap0 (new_output_stream buf_new) = Some (h', s) \<and>
     to_string h' (os_buf s) = [1, 2, 3] \<and> os_ByteCount s = 3"
  using output_stream_appends [of heap0 buf_new buf_new "[1, 2, 3]"] by auto

end
