(* ===== verification/BoltRequest.thy ===== *)
theory BoltRequest
  imports ByteStreams
begin

text \<open>
  The request side of the Bolt protocol: \<^verbatim>\<open>include/protocol/bolt/bolt_request.h\<close> and
  \<^verbatim>\<open>src/protocol/bolt/bolt_protocol.cpp\<close>. A request is written to an \<^verbatim>\<open>IOBuffer\<close> as the
  image of a packed header in network byte order, the class name, four key/value pairs and the content.

  Messages of the protobuf library are values of an arbitrary type; \<open>ser\<close> stands for
  \<^verbatim>\<open>Message::SerializeToZeroCopyStream\<close> on a stream that appends to the buffer.
\<close>

section \<open>Constants\<close>

definition BOLT_PROTOCOL_TYPE :: u8 where "BOLT_PROTOCOL_TYPE = 1"
definition BOLT_PROTOCOL_REQUEST :: u8 where "BOLT_PROTOCOL_REQUEST = 1"
definition BOLT_PROTOCOL_RESPONSE :: u8 where "BOLT_PROTOCOL_RESPONSE = 0"
definition BOLT_PROTOCOL_CMD_HEARTBEAT :: u16 where "BOLT_PROTOCOL_CMD_HEARTBEAT = 0"
definition BOLT_PROTOCOL_CMD_REQUEST :: u16 where "BOLT_PROTOCOL_CMD_REQUEST = 1"
definition BOLT_PROTOCOL_CMD_RESPONSE :: u16 where "BOLT_PROTOCOL_CMD_RESPONSE = 2"
definition BOLT_PROTOCOL_VER2 :: u8 where "BOLT_PROTOCOL_VER2 = 1"
definition BOLT_PROTOCOL_CODEC_PB :: u8 where "BOLT_PROTOCOL_CODEC_PB = 11"

lemmas bolt_constants =
  BOLT_PROTOCOL_TYPE_def BOLT_PROTOCOL_REQUEST_def BOLT_PROTOCOL_RESPONSE_def BOLT_PROTOCOL_CMD_HEARTBEAT_def
  BOLT_PROTOCOL_CMD_REQUEST_def BOLT_PROTOCOL_CMD_RESPONSE_def BOLT_PROTOCOL_VER2_def BOLT_PROTOCOL_CODEC_PB_def

section \<open>Requests\<close>

text \<open>The tag and the union of the data: a null pointer is \<^term>\<open>None\<close>, a C string the bytes behind it.\<close>

datatype 'm request_data = CSTRING "bytes option" | STRING "bytes option" | PROTOBUF "'m option" | NONE

record 'm bolt_request =
  req_service :: bytes
  req_method :: bytes
  req_trace_id :: bytes
  req_data :: "'m request_data"

definition new_request :: "'m bolt_request" where
  "new_request = \<lparr>req_service = [], req_method = [], req_trace_id = [], req_data = NONE\<rparr>"

definition set_service :: "bytes \<Rightarrow> 'm bolt_request \<Rightarrow> 'm bolt_request" where
  "set_service s r = r\<lparr>req_service := s\<rparr>"

definition set_method :: "bytes \<Rightarrow> 'm bolt_request \<Rightarrow> 'm bolt_request" where
  "set_method s r = r\<lparr>req_method := s\<rparr>"

definition set_traceId :: "bytes \<Rightarrow> 'm bolt_request \<Rightarrow> 'm bolt_request" where
  "set_traceId s r = r\<lparr>req_trace_id := s\<rparr>"

definition set_data_string :: "bytes \<Rightarrow> 'm bolt_request \<Rightarrow> 'm bolt_request" where
  "set_data_string s r = r\<lparr>req_data := STRING (Some s)\<rparr>"

definition set_data_cstr :: "bytes option \<Rightarrow> 'm bolt_request \<Rightarrow> 'm bolt_request" where
  "set_data_cstr s r = r\<lparr>req_data := CSTRING s\<rparr>"

definition set_data_proto :: "'m \<Rightarrow> 'm bolt_request \<Rightarrow> 'm bolt_request" where
  "set_data_proto m r = r\<lparr>req_data := PROTOBUF (Some m)\<rparr>"

section \<open>The header\<close>

record request_header =
  rq_cmdcode :: u16
  rq_ver2 :: u8
  rq_request_id :: u32
  rq_timeout :: u32
  rq_class_len :: u16
  rq_header_len :: u16
  rq_content_len :: u32

definition request_hton :: "request_header \<Rightarrow> request_header" where
  "request_hton rh =
     rh\<lparr>rq_cmdcode := htons (rq_cmdcode rh), rq_request_id := htonl (rq_request_id rh),
        rq_timeout := htonl (rq_timeout rh), rq_class_len := htons (rq_class_len rh),
        rq_header_len := htons (rq_header_len rh), rq_content_len := htonl (rq_content_len rh)\<rparr>"

text \<open>The bytes of the packed struct.\<close>

definition request_image :: "request_header \<Rightarrow> bytes" where
  "request_image rh =
     [BOLT_PROTOCOL_TYPE, BOLT_PROTOCOL_REQUEST] @ le16 (rq_cmdcode rh) @ [rq_ver2 rh] @ le32 (rq_request_id rh)
     @ [BOLT_PROTOCOL_CODEC_PB] @ le32 (rq_timeout rh) @ le16 (rq_class_len rh) @ le16 (rq_header_len rh)
     @ le32 (rq_content_len rh)"

definition initHeader :: request_header where
  "initHeader =
     \<lparr>rq_cmdcode = BOLT_PROTOCOL_CMD_REQUEST, rq_ver2 = BOLT_PROTOCOL_VER2, rq_request_id = 0, rq_timeout = - 1,
      rq_class_len = 0, rq_header_len = 0, rq_content_len = 0\<rparr>"

text \<open>The constructor of \<^verbatim>\<open>BoltInternalRequest\<close>: the 64-bit id is cut to the 32 bits of the field.\<close>

definition internal_request :: "'m bolt_request \<Rightarrow> u64 \<Rightarrow> request_header" where
  "internal_request req request_id =
     (let rh = initHeader\<lparr>rq_request_id := ucast request_id\<rparr>
      in case req_data req of NONE \<Rightarrow> rh\<lparr>rq_cmdcode := BOLT_PROTOCOL_CMD_HEARTBEAT\<rparr> | _ \<Rightarrow> rh)"

section \<open>Writing a request\<close>

definition ascii :: "string \<Rightarrow> bytes" where
  "ascii s = map (\<lambda>c. of_nat (of_char c)) s"

definition class_name :: bytes where
  "class_name = ascii ''com.alipay.sofa.rpc.core.request.SofaRequest''"

definition service_key :: bytes where "service_key = ascii ''service''"
definition sofa_service_key :: bytes where "sofa_service_key = ascii ''sofa_head_target_service''"
definition method_key :: bytes where "method_key = ascii ''sofa_head_method_name''"
definition trace_id_key :: bytes where "trace_id_key = ascii ''rpc_trace_context.sofaTraceId''"

text \<open>The sizes are \<^verbatim>\<open>uint32_t\<close>: \<open>std::string::size\<close> is cut to 32 bits.\<close>

definition appendBoltHeaderKV :: "heap \<Rightarrow> iobuf \<Rightarrow> bytes \<Rightarrow> bytes \<Rightarrow> (heap \<times> iobuf \<times> u32) option" where
  "appendBoltHeaderKV h b key val = do {
     let key_size = (of_nat (length key) :: u32);
     let value_size = (of_nat (length val) :: u32);
     (h1, b1) \<leftarrow> append_data h b (Some (le32 (htonl key_size)));
     (h2, b2) \<leftarrow> append_data h1 b1 (Some (take (unat key_size) key));
     (h3, b3) \<leftarrow> append_data h2 b2 (Some (le32 (htonl value_size)));
     (h4, b4) \<leftarrow> append_data h3 b3 (Some (take (unat value_size) val));
     Some (h4, b4, 8 + key_size + value_size)
   }"

text \<open>Adding the \<^verbatim>\<open>uint32_t\<close> returned to the \<^verbatim>\<open>uint16_t\<close> header length keeps its low 16 bits.\<close>

definition add_header_len :: "u32 \<Rightarrow> request_header \<Rightarrow> request_header" where
  "add_header_len n rh = rh\<lparr>rq_header_len := rq_header_len rh + ucast n\<rparr>"

fun append_kvs ::
  "heap \<Rightarrow> iobuf \<Rightarrow> request_header \<Rightarrow> (bytes \<times> bytes) list \<Rightarrow> (heap \<times> iobuf \<times> request_header) option" where
  "append_kvs h b rh [] = Some (h, b, rh)"
| "append_kvs h b rh ((key, val) # kvs) = do {
     (h1, b1, n) \<leftarrow> appendBoltHeaderKV h b key val;
     append_kvs h1 b1 (add_header_len n rh) kvs
   }"

definition request_kvs :: "'m bolt_request \<Rightarrow> (bytes \<times> bytes) list" where
  "request_kvs req =
     [(service_key, req_service req), (sofa_service_key, req_service req),
      (method_key, req_method req), (trace_id_key, req_trace_id req)]"

text \<open>
  The content. A C string goes to \<open>buffer\<close>, the others to \<open>body\<close>, as in the source.
\<close>

definition append_content ::
  "('m \<Rightarrow> heap \<Rightarrow> iobuf \<Rightarrow> (heap \<times> iobuf) option) \<Rightarrow> 'm request_data \<Rightarrow> heap \<Rightarrow> iobuf \<Rightarrow> iobuf \<Rightarrow> request_header
     \<Rightarrow> (heap \<times> iobuf \<times> iobuf \<times> request_header) option" where
  "append_content ser data h buffer body rh =
     (case data of
        PROTOBUF (Some m) \<Rightarrow> do {
          (h1, body1) \<leftarrow> ser m h body;
          Some (h1, buffer, body1,
            rh\<lparr>rq_content_len :=
                 of_nat (buf_length body1) - ucast (rq_class_len rh) - ucast (rq_header_len rh)\<rparr>)
        }
      | STRING (Some s) \<Rightarrow> do {
          (h1, body1) \<leftarrow> append_data h body (Some s);
          Some (h1, buffer, body1, rh\<lparr>rq_content_len := of_nat (length s)\<rparr>)
        }
      | CSTRING (Some s) \<Rightarrow> do {
          (h1, buffer1) \<leftarrow> append_cstr h buffer s;
          Some (h1, buffer1, body, rh\<lparr>rq_content_len := of_nat (length (takeWhile (\<lambda>c. c \<noteq> 0) s))\<rparr>)
        }
      | _ \<Rightarrow> Some (h, buffer, body, rh))"

definition serialize ::
  "('m \<Rightarrow> heap \<Rightarrow> iobuf \<Rightarrow> (heap \<times> iobuf) option) \<Rightarrow> 'm bolt_request \<Rightarrow> request_header \<Rightarrow> heap \<Rightarrow> iobuf
     \<Rightarrow> (bool \<times> heap \<times> iobuf) option" where
  "serialize ser req rh h buffer =
     (if rq_cmdcode rh = BOLT_PROTOCOL_CMD_HEARTBEAT
      then do {
        (h1, buffer1) \<leftarrow> append_data h buffer (Some (request_image (request_hton rh)));
        Some (True, h1, buffer1)
      }
      else do {
        let rh1 = rh\<lparr>rq_class_len := of_nat (length class_name)\<rparr>;
        (h1, body1) \<leftarrow> append_data h buf_new (Some class_name);
        (h2, body2, rh2) \<leftarrow> append_kvs h1 body1 rh1 (request_kvs req);
        (h3, buffer3, body3, rh3) \<leftarrow> append_content ser (req_data req) h2 buffer body2 rh2;
        (h4, buffer4) \<leftarrow> append_data h3 buffer3 (Some (request_image (request_hton rh3)));
        Some (True, h4, fst (append_move buffer4 body3))
      })"

definition assembleBoltRequest ::
  "('m \<Rightarrow> heap \<Rightarrow> iobuf \<Rightarrow> (heap \<times> iobuf) option) \<Rightarrow> 'm bolt_request \<Rightarrow> u64 \<Rightarrow> heap \<Rightarrow> iobuf
     \<Rightarrow> (bool \<times> heap \<times> iobuf) option" where
  "assembleBoltRequest ser req request_id h buffer = serialize ser req (internal_request req request_id) h buffer"

definition converseBoltRequest :: "u64 \<Rightarrow> u64" where
  "converseBoltRequest request_id = ucast (ucast request_id :: u32)"

section \<open>The layout of a frame\<close>

definition be16 :: "nat \<Rightarrow> bytes" where
  "be16 n = [of_nat (n div 256), of_nat n]"

definition be32 :: "nat \<Rightarrow> bytes" where
  "be32 n = [of_nat (n div 16777216), of_nat (n div 65536), of_nat (n div 256), of_nat n]"

lemma length_be [simp]: "length (be16 n) = 2" "length (be32 n) = 4"
  by (simp_all add: be16_def be32_def)

lemma drop_bit_of_nat: "n < 2 ^ LENGTH('a) \<Longrightarrow> drop_bit k (of_nat n :: 'a::len word) = of_nat (n div 2 ^ k)"
proof -
  assume n: "n < 2 ^ LENGTH('a)"
  have "unat (drop_bit k (of_nat n :: 'a word)) = drop_bit k (unat (of_nat n :: 'a word))" by (rule unat_drop_bit_eq)
  also have "\<dots> = n div 2 ^ k" using n by (simp add: unsigned_of_nat take_bit_eq_mod drop_bit_eq_div)
  finally show ?thesis
    using n by (simp add: word_unat_eq_iff unsigned_of_nat take_bit_eq_mod le_less_trans [OF div_le_dividend])
qed

lemma ucast_of_nat_down: "(ucast (of_nat n :: 'a::len word) :: 'b::len word) = of_nat n" if "LENGTH('b) \<le> LENGTH('a)"
  using that by (simp add: unsigned_of_nat word_of_nat_eq_iff min_absorb1)

lemma net16: "n < 2 ^ 16 \<Longrightarrow> le16 (htons (of_nat n)) = be16 n"
  by (simp add: le16_htons be16_def drop_bit_of_nat ucast_of_nat_down)

lemma net32: "n < 2 ^ 32 \<Longrightarrow> le32 (htonl (of_nat n)) = be32 n"
  by (simp add: le32_htonl be32_def drop_bit_of_nat ucast_of_nat_down)


lemma net32_word: "le32 (htonl w) = be32 (unat w)"
  using net32 [of "unat w"] unsigned_less [of w] by simp

definition kv_bytes :: "bytes \<times> bytes \<Rightarrow> bytes" where
  "kv_bytes kv = be32 (length (fst kv)) @ fst kv @ be32 (length (snd kv)) @ snd kv"

definition kvs_bytes :: "(bytes \<times> bytes) list \<Rightarrow> bytes" where
  "kvs_bytes kvs = concat (map kv_bytes kvs)"

definition request_frame :: "nat \<Rightarrow> nat \<Rightarrow> bytes \<Rightarrow> bytes \<Rightarrow> bytes \<Rightarrow> bytes" where
  "request_frame cmd request_id cls headers content =
     [1, 1] @ be16 cmd @ [1] @ be32 request_id @ [11] @ be32 (2 ^ 32 - 1) @ be16 (length cls) @ be16 (length headers)
     @ be32 (length content) @ cls @ headers @ content"

lemma appendBoltHeaderKV_ok:
  assumes "heap_ready h" and "buf_ok h b" and "length key < 2 ^ 32" and "length val < 2 ^ 32"
  obtains h' b' where "appendBoltHeaderKV h b key val = Some (h', b', of_nat (length (kv_bytes (key, val))))"
    and "heap_ready h'" and "grows h h'" and "buf_ok h' b'" and "to_string h' b' = to_string h b @ kv_bytes (key, val)"
    and "ref_offset b' = ref_offset b"
proof -
  have u: "unat (of_nat (length key) :: u32) = length key" "unat (of_nat (length val) :: u32) = length val"
    using assms(3,4) by (simp_all add: unsigned_of_nat take_bit_eq_mod)
  have n: "8 + of_nat (length key) + of_nat (length val) = (of_nat (length (kv_bytes (key, val))) :: u32)"
    by (simp add: kv_bytes_def)
  let ?f = "\<lambda>h b. Option.bind (append_data h b (Some (be32 (length key)))) (\<lambda>(h1, b1).
      Option.bind (append_data h1 b1 (Some key)) (\<lambda>(h2, b2).
        Option.bind (append_data h2 b2 (Some (be32 (length val)))) (\<lambda>(h3, b3). append_data h3 b3 (Some val))))"
  have "appends ?f (kv_bytes (key, val))"
    unfolding kv_bytes_def fst_conv snd_conv by (intro appends_then appends_data)
  then obtain h' b' where *: "?f h b = Some (h', b')" "heap_ready h'" "grows h h'" "buf_ok h' b'"
    "to_string h' b' = to_string h b @ kv_bytes (key, val)" "ref_offset b' = ref_offset b"
    using assms(1,2) by (rule appendsE)
  have "appendBoltHeaderKV h b key val = Some (h', b', of_nat (length (kv_bytes (key, val))))"
    using *(1) by (auto simp: appendBoltHeaderKV_def Let_def u net32 [OF assms(3)] net32 [OF assms(4)] n)
  then show ?thesis using *(2-) by (rule that)
qed

lemma append_kvs_ok:
  assumes "heap_ready h" and "buf_ok h b" and "\<forall>(k, v) \<in> set kvs. length k < 2 ^ 32 \<and> length v < 2 ^ 32"
  shows "\<exists>h' b'. append_kvs h b rh kvs =
      Some (h', b', rh\<lparr>rq_header_len := rq_header_len rh + of_nat (length (kvs_bytes kvs))\<rparr>) \<and>
    heap_ready h' \<and> grows h h' \<and> buf_ok h' b' \<and> to_string h' b' = to_string h b @ kvs_bytes kvs \<and>
    ref_offset b' = ref_offset b"
  using assms
proof (induction kvs arbitrary: h b rh)
  case Nil
  then show ?case by (simp add: kvs_bytes_def)
next
  case (Cons kv kvs)
  obtain k v where kv: "kv = (k, v)" by fastforce
  have fit: "length k < 2 ^ 32" "length v < 2 ^ 32" using Cons.prems(3) kv by auto
  obtain h1 b1 where 1: "appendBoltHeaderKV h b k v = Some (h1, b1, of_nat (length (kv_bytes (k, v))))"
    "heap_ready h1" "grows h h1" "buf_ok h1 b1" "to_string h1 b1 = to_string h b @ kv_bytes (k, v)"
    "ref_offset b1 = ref_offset b"
    using appendBoltHeaderKV_ok [OF Cons.prems(1,2) fit] by blast
  let ?rh = "add_header_len (of_nat (length (kv_bytes (k, v)))) rh"
  obtain h2 b2 where 2: "append_kvs h1 b1 ?rh kvs =
      Some (h2, b2, ?rh\<lparr>rq_header_len := rq_header_len ?rh + of_nat (length (kvs_bytes kvs))\<rparr>)"
    "heap_ready h2" "grows h1 h2" "buf_ok h2 b2" "to_string h2 b2 = to_string h1 b1 @ kvs_bytes kvs"
    "ref_offset b2 = ref_offset b1"
    using Cons.IH [OF 1(2,4), of ?rh] Cons.prems(3) by auto
  have "grows h h2" using 1(3) 2(3) by (rule grows_trans)
  moreover have "?rh\<lparr>rq_header_len := rq_header_len ?rh + of_nat (length (kvs_bytes kvs))\<rparr> =
      rh\<lparr>rq_header_len := rq_header_len rh + of_nat (length (kvs_bytes (kv # kvs)))\<rparr>"
    by (simp add: add_header_len_def kvs_bytes_def kv ucast_of_nat_down add.assoc)
  ultimately show ?case
    using 1 2 by (auto simp: kv kvs_bytes_def)
qed


section \<open>Whole requests\<close>

text \<open>The bytes of the content that goes behind the headers.\<close>

definition carries :: "('m \<Rightarrow> heap \<Rightarrow> iobuf \<Rightarrow> (heap \<times> iobuf) option) \<Rightarrow> 'm request_data \<Rightarrow> bytes \<Rightarrow> bool" where
  "carries ser data xs \<longleftrightarrow>
     data = STRING (Some xs) \<or> (\<exists>m. data = PROTOBUF (Some m) \<and> appends (ser m) xs) \<or>
     xs = [] \<and> data \<in> {STRING None, PROTOBUF None, CSTRING None}"

lemma append_content_ok:
  assumes "carries ser data xs" and "heap_ready h" and "buf_ok h body" and "rq_content_len rh = 0"
    and "buf_length body = unat (rq_class_len rh) + unat (rq_header_len rh)"
  obtains h' body' where
    "append_content ser data h buffer body rh = Some (h', buffer, body', rh\<lparr>rq_content_len := of_nat (length xs)\<rparr>)"
    and "heap_ready h'" and "grows h h'" and "buf_ok h' body'" and "to_string h' body' = to_string h body @ xs"
    and "ref_offset body' = ref_offset body"
proof -
  consider (str) "data = STRING (Some xs)" | (proto) m where "data = PROTOBUF (Some m)" "appends (ser m) xs"
    | (none) "xs = []" "data \<in> {STRING None, PROTOBUF None, CSTRING None}"
    using assms(1) by (auto simp: carries_def)
  then show thesis
  proof cases
    case str
    obtain h' b' where *: "append_data h body (Some xs) = Some (h', b')" "heap_ready h'" "grows h h'" "buf_ok h' b'"
      "to_string h' b' = to_string h body @ xs" "ref_offset b' = ref_offset body"
      using appends_data assms(2,3) by (rule appendsE)
    show ?thesis by (rule that [OF _ *(2-)]) (simp add: append_content_def str *(1))
  next
    case proto
    obtain h' b' where *: "ser m h body = Some (h', b')" "heap_ready h'" "grows h h'" "buf_ok h' b'"
      "to_string h' b' = to_string h body @ xs" "ref_offset b' = ref_offset body"
      using proto(2) assms(2,3) by (rule appendsE)
    have "buf_length b' = buf_length body + length xs" using arg_cong [OF *(5), of length] by simp
    then have "of_nat (buf_length b') - ucast (rq_class_len rh) - ucast (rq_header_len rh) = (of_nat (length xs) :: u32)"
      using assms(5) by simp
    then show ?thesis by (intro that [OF _ *(2-)]) (simp add: append_content_def proto *(1))
  next
    case none
    have "rh\<lparr>rq_content_len := 0\<rparr> = rh" using assms(4) by simp
    then show ?thesis
      using none assms(2,3) by (intro that [of h body]) (auto simp: append_content_def)
  qed
qed


lemma request_image_net:
  assumes "n < 2 ^ 16" and "a < 2 ^ 16" and "b < 2 ^ 16" and "c < 2 ^ 32"
  shows "request_image (request_hton (initHeader\<lparr>rq_cmdcode := of_nat n, rq_request_id := rid, rq_class_len := of_nat a,
      rq_header_len := of_nat b, rq_content_len := of_nat c\<rparr>)) =
    [1, 1] @ be16 n @ [1] @ be32 (unat rid) @ [11] @ be32 (2 ^ 32 - 1) @ be16 a @ be16 b @ be32 c"
proof -
  have e: "- 1 = (of_nat 4294967295 :: u32)" by simp
  have t: "le32 (htonl (- 1)) = be32 (2 ^ 32 - 1)" unfolding e using net32 [of 4294967295] by simp
  show ?thesis
    by (simp add: request_image_def request_hton_def initHeader_def bolt_constants net16 [OF assms(1)] net16 [OF assms(2)]
        net16 [OF assms(3)] net32 [OF assms(4)] net32_word [of rid] t)
qed

lemma kvs_bytes_fit:
  assumes "length (kvs_bytes kvs) < 2 ^ 16"
  shows "\<forall>(k, v) \<in> set kvs. length k < 2 ^ 32 \<and> length v < 2 ^ 32"
proof clarify
  fix k v assume "(k, v) \<in> set kvs"
  then have "length (kv_bytes (k, v)) \<le> length (kvs_bytes kvs)"
    unfolding kvs_bytes_def length_concat by (intro member_le_sum_list) force+
  then show "length k < 2 ^ 32 \<and> length v < 2 ^ 32" using assms by (simp add: kv_bytes_def)
qed

text \<open>The class name and the headers, written to a buffer of their own.\<close>

lemma request_body_ok:
  assumes "heap_ready h" and "length (kvs_bytes (request_kvs req)) < 2 ^ 16" and "rq_header_len rh = 0"
  obtains h1 b1 h2 b2 where "append_data h buf_new (Some class_name) = Some (h1, b1)"
    and "append_kvs h1 b1 rh (request_kvs req) =
      Some (h2, b2, rh\<lparr>rq_header_len := of_nat (length (kvs_bytes (request_kvs req)))\<rparr>)"
    and "heap_ready h2" and "grows h h2" and "buf_ok h2 b2"
    and "to_string h2 b2 = class_name @ kvs_bytes (request_kvs req)" and "ref_offset b2 = 0"
proof -
  obtain h1 b1 where 1: "append_data h buf_new (Some class_name) = Some (h1, b1)" "heap_ready h1" "grows h h1" "buf_ok h1 b1"
    "to_string h1 b1 = to_string h buf_new @ class_name" "ref_offset b1 = ref_offset buf_new"
    using appends_data [of class_name] assms(1) buf_new_ok(1) [of h] by (rule appendsE)
  have 0: "to_string h buf_new = []" "ref_offset buf_new = 0" by (simp_all, simp add: buf_new_def)
  obtain h2 b2 where 2: "append_kvs h1 b1 rh (request_kvs req) =
      Some (h2, b2, rh\<lparr>rq_header_len := of_nat (length (kvs_bytes (request_kvs req)))\<rparr>)"
    "heap_ready h2" "grows h1 h2" "buf_ok h2 b2"
    "to_string h2 b2 = to_string h1 b1 @ kvs_bytes (request_kvs req)" "ref_offset b2 = ref_offset b1"
    using append_kvs_ok [OF 1(2,4) kvs_bytes_fit [OF assms(2)], of rh] assms(3) by auto
  show ?thesis
    using 1(5,6) 2(5,6) 0 by (intro that [OF 1(1) 2(1,2) grows_trans [OF 1(3) 2(3)] 2(4)]) simp_all
qed

lemma assemble_ok:
  assumes "heap_ready h" and "buf_ok h b" and "carries ser (req_data req) xs"
    and "length (kvs_bytes (request_kvs req)) < 2 ^ 16" and "length xs < 2 ^ 32"
  shows "\<exists>h' b'. assembleBoltRequest ser req rid h b = Some (True, h', b') \<and> heap_ready h' \<and> grows h h' \<and> buf_ok h' b' \<and>
    to_string h' b' =
      to_string h b @ request_frame 1 (unat (ucast rid :: u32)) class_name (kvs_bytes (request_kvs req)) xs"
proof -
  let ?kvs = "kvs_bytes (request_kvs req)" and ?rid = "ucast rid :: u32"
  let ?rh0 = "initHeader\<lparr>rq_request_id := ?rid\<rparr>"
  have data: "req_data req \<noteq> NONE" using assms(3) by (auto simp: carries_def)
  have ir: "internal_request req rid = ?rh0" using data by (cases "req_data req") (simp_all add: internal_request_def Let_def)
  have cmd: "rq_cmdcode ?rh0 = 1" by (simp add: initHeader_def bolt_constants)
  have cls: "length class_name = 44" by (simp add: class_name_def ascii_def)
  let ?rh1 = "?rh0\<lparr>rq_class_len := of_nat (length class_name)\<rparr>"
  let ?rh2 = "?rh1\<lparr>rq_header_len := of_nat (length ?kvs)\<rparr>"
  have none: "rq_header_len ?rh1 = 0" by (simp add: initHeader_def)
  obtain h1 b1 h2 b2 where 1: "append_data h buf_new (Some class_name) = Some (h1, b1)"
    and 2: "append_kvs h1 b1 ?rh1 (request_kvs req) = Some (h2, b2, ?rh2)"
    "heap_ready h2" "grows h h2" "buf_ok h2 b2" "to_string h2 b2 = class_name @ ?kvs" "ref_offset b2 = 0"
    using request_body_ok [OF assms(1,4) none] by blast
  have len: "buf_length b2 = unat (rq_class_len ?rh2) + unat (rq_header_len ?rh2)"
    using arg_cong [OF 2(5), of length] assms(4) cls by (simp add: unsigned_of_nat take_bit_eq_mod)
  have zero: "rq_content_len ?rh2 = 0" by (simp add: initHeader_def)
  let ?rh3 = "?rh2\<lparr>rq_content_len := of_nat (length xs)\<rparr>"
  obtain h3 b3 where 3: "append_content ser (req_data req) h2 b b2 ?rh2 = Some (h3, b, b3, ?rh3)"
    "heap_ready h3" "grows h2 h3" "buf_ok h3 b3" "to_string h3 b3 = class_name @ ?kvs @ xs" "ref_offset b3 = 0"
    using append_content_ok [OF assms(3) 2(2,4) zero len, of b] 2(5,6) by auto
  have g3: "grows h h3" using grows_trans [OF 2(3) 3(3)] .
  have b3: "buf_ok h3 b" "to_string h3 b = to_string h b" using g3 assms(2) by (auto intro: buf_ok_ext to_string_ext)
  let ?img = "request_image (request_hton ?rh3)"
  obtain h4 b4 where 4: "append_data h3 b (Some ?img) = Some (h4, b4)" "heap_ready h4" "grows h3 h4" "buf_ok h4 b4"
    "to_string h4 b4 = to_string h b @ ?img"
    using appends_data 3(2) b3(1) by (rule appendsE) (simp add: b3(2))
  have body: "buf_ok h4 b3" "to_string h4 b3 = class_name @ ?kvs @ xs"
    using 4(3) 3(4,5) by (auto intro: buf_ok_ext simp: to_string_ext)
  have run: "assembleBoltRequest ser req rid h b = Some (True, h4, fst (append_move b4 b3))"
    using cmd by (simp add: assembleBoltRequest_def ir serialize_def bolt_constants 1 2(1) 3(1) 4(1) Let_def)
  have img: "?img = [1, 1] @ be16 1 @ [1] @ be32 (unat ?rid) @ [11] @ be32 (2 ^ 32 - 1) @ be16 (length class_name)
      @ be16 (length ?kvs) @ be32 (length xs)"
    using request_image_net [of 1 "length class_name" "length ?kvs" "length xs" ?rid] assms(4,5) cls
    by (simp add: initHeader_def bolt_constants)
  show ?thesis
    using run 4(2) grows_trans [OF g3 4(3)] append_move_spec [OF 4(4) body(1) 3(6)] 4(5) body(2) img
    by (simp add: request_frame_def)
qed


lemma unat_widen: "unat (ucast x :: u64) = unat x" for x :: u32
  using unsigned_less [of x, where ?'a = nat] by (simp add: unsigned_ucast_eq take_bit_eq_mod)

lemma heartbeat_ok:
  assumes "heap_ready h" and "buf_ok h b" and "req_data req = NONE"
  shows "\<exists>h' b'. assembleBoltRequest ser req rid h b = Some (True, h', b') \<and> heap_ready h' \<and> buf_ok h' b' \<and>
    to_string h' b' = to_string h b @ request_frame 0 (unat (ucast rid :: u32)) [] [] []"
proof -
  let ?rh = "initHeader\<lparr>rq_cmdcode := 0, rq_request_id := ucast rid\<rparr>"
  let ?img = "request_image (request_hton ?rh)"
  obtain h' b' where *: "append_data h b (Some ?img) = Some (h', b')" "heap_ready h'" "grows h h'" "buf_ok h' b'"
    "to_string h' b' = to_string h b @ ?img" "ref_offset b' = ref_offset b"
    using appends_data assms(1,2) by (rule appendsE)
  have "?img = request_frame 0 (unat (ucast rid :: u32)) [] [] []"
    using request_image_net [of 0 0 0 0 "ucast rid"] by (simp add: initHeader_def request_frame_def)
  moreover have "internal_request req rid = ?rh"
    using assms(3) by (simp add: internal_request_def Let_def initHeader_def bolt_constants)
  ultimately show ?thesis using * by (simp add: assembleBoltRequest_def serialize_def bolt_constants)
qed

text \<open>With a C string the content goes in front of the frame that announces it.\<close>

lemma cstring_layout:
  assumes "heap_ready h" and "buf_ok h b" and "req_data req = CSTRING (Some s)"
    and "length (kvs_bytes (request_kvs req)) < 2 ^ 16" and "length s < 2 ^ 32"
  shows "\<exists>h' b' n. assembleBoltRequest ser req rid h b = Some (True, h', b') \<and> heap_ready h' \<and> buf_ok h' b' \<and>
    n = length (takeWhile (\<lambda>c. c \<noteq> 0) s) \<and>
    to_string h' b' = to_string h b @ takeWhile (\<lambda>c. c \<noteq> 0) s @
      [1, 1] @ be16 1 @ [1] @ be32 (unat (ucast rid :: u32)) @ [11] @ be32 (2 ^ 32 - 1) @ be16 (length class_name)
      @ be16 (length (kvs_bytes (request_kvs req))) @ be32 n @ class_name @ kvs_bytes (request_kvs req)"
proof -
  let ?s = "takeWhile (\<lambda>c. c \<noteq> 0) s"
  let ?kvs = "kvs_bytes (request_kvs req)" and ?rid = "ucast rid :: u32"
  let ?rh0 = "initHeader\<lparr>rq_request_id := ?rid\<rparr>"
  have ir: "internal_request req rid = ?rh0" using assms(3) by (simp add: internal_request_def Let_def)
  have cmd: "rq_cmdcode ?rh0 = 1" by (simp add: initHeader_def bolt_constants)
  have cls: "length class_name = 44" by (simp add: class_name_def ascii_def)
  let ?rh1 = "?rh0\<lparr>rq_class_len := of_nat (length class_name)\<rparr>"
  let ?rh2 = "?rh1\<lparr>rq_header_len := of_nat (length ?kvs)\<rparr>"
  have none: "rq_header_len ?rh1 = 0" by (simp add: initHeader_def)
  obtain h1 b1 h2 b2 where 1: "append_data h buf_new (Some class_name) = Some (h1, b1)"
    and 2: "append_kvs h1 b1 ?rh1 (request_kvs req) = Some (h2, b2, ?rh2)"
    "heap_ready h2" "grows h h2" "buf_ok h2 b2" "to_string h2 b2 = class_name @ ?kvs" "ref_offset b2 = 0"
    using request_body_ok [OF assms(1,4) none] by blast
  have b: "buf_ok h2 b" "to_string h2 b = to_string h b" using 2(3) assms(2) by (auto intro: buf_ok_ext to_string_ext)
  obtain h3 b3 where 3: "append_cstr h2 b s = Some (h3, b3)" "heap_ready h3" "grows h2 h3" "buf_ok h3 b3"
    "to_string h3 b3 = to_string h2 b @ ?s" "ref_offset b3 = ref_offset b"
    using appends_cstr 2(2) b(1) by (rule appendsE)
  let ?rh3 = "?rh2\<lparr>rq_content_len := of_nat (length ?s)\<rparr>"
  let ?img = "request_image (request_hton ?rh3)"
  obtain h4 b4 where 4: "append_data h3 b3 (Some ?img) = Some (h4, b4)" "heap_ready h4" "grows h3 h4" "buf_ok h4 b4"
    "to_string h4 b4 = to_string h3 b3 @ ?img" "ref_offset b4 = ref_offset b3"
    using appends_data 3(2,4) by (rule appendsE)
  have "grows h2 h4" using 3(3) 4(3) by (rule grows_trans)
  then have body: "buf_ok h4 b2" "to_string h4 b2 = class_name @ ?kvs"
    using 2(4,5) by (auto intro: buf_ok_ext simp: to_string_ext)
  have run: "assembleBoltRequest ser req rid h b = Some (True, h4, fst (append_move b4 b2))"
    using cmd
    by (simp add: assembleBoltRequest_def ir serialize_def bolt_constants 1 2(1) append_content_def assms(3) 3(1) 4(1) Let_def)
  have "length ?s < 2 ^ 32" using assms(5) length_takeWhile_le [of "\<lambda>c. c \<noteq> 0" s] by linarith
  then have img: "?img = [1, 1] @ be16 1 @ [1] @ be32 (unat ?rid) @ [11] @ be32 (2 ^ 32 - 1) @ be16 (length class_name)
      @ be16 (length ?kvs) @ be32 (length ?s)"
    using request_image_net [of 1 "length class_name" "length ?kvs" "length ?s" ?rid] assms(4) cls
    by (simp add: initHeader_def bolt_constants)
  show ?thesis
    using run 4(2) append_move_spec [OF 4(4) body(1) 2(6)] 4(5) 3(5) b(2) body(2) img by simp
qed

section \<open>Properties\<close>

text \<open>A request with a message of two bytes, for the examples.\<close>

definition sample_request :: "bytes bolt_request" where
  "sample_request = set_data_proto [7, 8] new_request"

text \<open>
  C4. A request whose content is a string or a protobuf message (or is missing) is appended to the buffer as one frame:
  the 22 bytes of the header in network byte order, with the request id cut to 32 bits and the lengths of the three parts
  behind it, then the class name, the four key/value pairs and the content. Every other buffer keeps its contents. The
  lengths must fit their fields, the allocation must succeed, and serialising a message must append its bytes.
\<close>

theorem request_layout:
  assumes "heap_ready h" and "buf_ok h b" and "buf_ok h c" and "carries ser (req_data req) xs"
    and "length (kvs_bytes (request_kvs req)) < 2 ^ 16" and "length xs < 2 ^ 32"
  shows "\<exists>h' b'. assembleBoltRequest ser req rid h b = Some (True, h', b') \<and> heap_ready h' \<and> buf_ok h' b' \<and>
    to_string h' b' =
      to_string h b @ request_frame 1 (unat (ucast rid :: u32)) class_name (kvs_bytes (request_kvs req)) xs \<and>
    to_string h' c = to_string h c"
  using assemble_ok [OF assms(1,2,4,5,6), of rid] assms(3) to_string_ext by blast

theorem request_layout_witness:
  "\<exists>h' b'. assembleBoltRequest write_stream sample_request 5 heap0 buf_new = Some (True, h', b') \<and>
     to_string h' b' = request_frame 1 5 class_name (kvs_bytes (request_kvs sample_request)) [7, 8]"
proof -
  have "carries write_stream (req_data sample_request) [7, 8]"
    using appends_stream by (simp add: carries_def sample_request_def set_data_proto_def)
  moreover have "length (kvs_bytes (request_kvs sample_request)) < 2 ^ 16"
    by (simp add: kvs_bytes_def kv_bytes_def request_kvs_def sample_request_def set_data_proto_def new_request_def
        service_key_def sofa_service_key_def method_key_def trace_id_key_def ascii_def)
  ultimately show ?thesis
    using request_layout [of heap0 buf_new buf_new write_stream sample_request "[7, 8]" 5] by auto
qed

text \<open>
  A request without data is a heartbeat: it is the 22 bytes of the header with the heartbeat command and lengths
  zero. The id the caller looks the response up with is the id in the header.
\<close>

theorem heartbeat_layout:
  assumes "heap_ready h" and "buf_ok h b" and "req_data req = NONE"
  shows "(\<exists>h' b'. assembleBoltRequest ser req rid h b = Some (True, h', b') \<and> heap_ready h' \<and> buf_ok h' b' \<and>
    to_string h' b' = to_string h b @ request_frame 0 (unat (converseBoltRequest rid)) [] [] []) \<and>
    unat (converseBoltRequest rid) < 2 ^ 32"
proof -
  have "unat (converseBoltRequest rid) = unat (ucast rid :: u32)"
    unfolding converseBoltRequest_def by (rule unat_widen)
  then show ?thesis using heartbeat_ok [OF assms, of ser rid] unsigned_less [of "ucast rid :: u32"] by simp
qed

theorem heartbeat_layout_witness:
  "\<exists>h' b'. assembleBoltRequest write_stream new_request 9 heap0 buf_new = Some (True, h', b') \<and>
     to_string h' b' = request_frame 0 (unat (converseBoltRequest 9)) [] [] []"
  using heartbeat_layout [of heap0 buf_new new_request write_stream 9] by (auto simp: new_request_def)

text \<open>
  C34. A C string is appended to the buffer the frame goes to and not to the body of the frame: its bytes stand in front
  of the header, which announces a content of their length, and the frame ends behind the key/value pairs.
\<close>

theorem cstring_before_header:
  assumes "heap_ready h" and "buf_ok h b" and "req_data req = CSTRING (Some s)"
    and "length (kvs_bytes (request_kvs req)) < 2 ^ 16" and "length s < 2 ^ 32"
  shows "\<exists>h' b' n. assembleBoltRequest ser req rid h b = Some (True, h', b') \<and> heap_ready h' \<and> buf_ok h' b' \<and>
    n = length (takeWhile (\<lambda>c. c \<noteq> 0) s) \<and>
    to_string h' b' = to_string h b @ takeWhile (\<lambda>c. c \<noteq> 0) s @
      [1, 1] @ be16 1 @ [1] @ be32 (unat (ucast rid :: u32)) @ [11] @ be32 (2 ^ 32 - 1) @ be16 (length class_name)
      @ be16 (length (kvs_bytes (request_kvs req))) @ be32 n @ class_name @ kvs_bytes (request_kvs req)"
  using assms by (rule cstring_layout)

theorem cstring_before_header_witness:
  "\<exists>h' b' ys. assembleBoltRequest write_stream (set_data_cstr (Some [65, 66, 0]) new_request) 1 heap0 buf_new = Some (True, h', b') \<and>
     to_string h' b' = [65, 66, 1, 1, 0, 1] @ ys"
proof -
  let ?req = "set_data_cstr (Some [65, 66, 0]) new_request :: bytes bolt_request"
  have "length (kvs_bytes (request_kvs ?req)) < 2 ^ 16"
    by (simp add: kvs_bytes_def kv_bytes_def request_kvs_def set_data_cstr_def new_request_def service_key_def
        sofa_service_key_def method_key_def trace_id_key_def ascii_def)
  then show ?thesis
    using cstring_before_header [of heap0 buf_new ?req "[65, 66, 0]" write_stream 1]
    by (auto simp: set_data_cstr_def be16_def)
qed

end
