(* ===== verification/BoltResponse.thy ===== *)
theory BoltResponse
  imports BoltRequest
begin

text \<open>
  The response side of the Bolt protocol: \<^verbatim>\<open>include/protocol/bolt/bolt_response.h\<close>,
  \<^verbatim>\<open>src/protocol/bolt/bolt_response.cpp\<close> and the functions of \<^verbatim>\<open>bolt_protocol.cpp\<close> that
  parse responses and handle heartbeats. Messages are values of an arbitrary type; the parameter \<open>parse\<close> stands
  for parsing one from the zero-copy stream over the buffer: the message, when the parser succeeds and consumes all of
  it, and the byte count of the stream afterwards.
\<close>

datatype EResParseResult = PARSE_OK | PARSE_ERROR | PARSE_NOT_ENOUGH_DATA

definition ParseResultToString :: "EResParseResult \<Rightarrow> string" where
  "ParseResultToString r =
     (case r of PARSE_OK \<Rightarrow> ''ok'' | PARSE_ERROR \<Rightarrow> ''parse error'' | PARSE_NOT_ENOUGH_DATA \<Rightarrow> ''not enough data'')"

section \<open>Status\<close>

datatype EBoltResponseStatus =
    SUCCESS | ERROR | SERVER_EXCEPTION | UNKNOWN | SERVER_THREADPOOL_BUSY | ERROR_COMM | NO_PROCESSOR | TIMEOUT
  | CLIENT_SEND_ERROR | CODEC_EXCEPTION | CONNECTION_CLOSED | SERVER_SERIAL_EXCEPTION | SERVER_DESERIAL_EXCEPTION

definition bolt_status_code :: "EBoltResponseStatus \<Rightarrow> u16" where
  "bolt_status_code s =
     (case s of
        SUCCESS \<Rightarrow> 0 | ERROR \<Rightarrow> 1 | SERVER_EXCEPTION \<Rightarrow> 2 | UNKNOWN \<Rightarrow> 3 | SERVER_THREADPOOL_BUSY \<Rightarrow> 4
      | ERROR_COMM \<Rightarrow> 5 | NO_PROCESSOR \<Rightarrow> 6 | TIMEOUT \<Rightarrow> 7 | CLIENT_SEND_ERROR \<Rightarrow> 8 | CODEC_EXCEPTION \<Rightarrow> 9
      | CONNECTION_CLOSED \<Rightarrow> 0x10 | SERVER_SERIAL_EXCEPTION \<Rightarrow> 0x11 | SERVER_DESERIAL_EXCEPTION \<Rightarrow> 0x12)"

definition s_rsp_error_info :: "(u16 \<times> string) list" where
  "s_rsp_error_info =
     [(bolt_status_code SUCCESS, ''success''), (bolt_status_code ERROR, ''error''),
      (bolt_status_code SERVER_EXCEPTION, ''server exception''), (bolt_status_code UNKNOWN, ''unknown''),
      (bolt_status_code SERVER_THREADPOOL_BUSY, ''server thread pool busy''), (bolt_status_code ERROR_COMM, ''error communication''),
      (bolt_status_code NO_PROCESSOR, ''no processor''), (bolt_status_code TIMEOUT, ''timeout''),
      (bolt_status_code CLIENT_SEND_ERROR, ''client send error''), (bolt_status_code CODEC_EXCEPTION, ''codec exception''),
      (bolt_status_code CONNECTION_CLOSED, ''connection closed''),
      (bolt_status_code SERVER_SERIAL_EXCEPTION, ''server serial exception''),
      (bolt_status_code SERVER_DESERIAL_EXCEPTION, ''server deserial exception'')]"

section \<open>Responses\<close>

record response_header =
  rs_proto :: u8
  rs_type :: u8
  rs_cmdcode :: u16
  rs_ver2 :: u8
  rs_request_id :: u32
  rs_codec :: u8
  rs_status :: u16
  rs_class_len :: u16
  rs_header_len :: u16
  rs_content_len :: u32

definition response_ntoh :: "response_header \<Rightarrow> response_header" where
  "response_ntoh rh =
     rh\<lparr>rs_cmdcode := ntohs (rs_cmdcode rh), rs_request_id := ntohl (rs_request_id rh), rs_status := ntohs (rs_status rh),
        rs_class_len := ntohs (rs_class_len rh), rs_header_len := ntohs (rs_header_len rh),
        rs_content_len := ntohl (rs_content_len rh)\<rparr>"

text \<open>The packed struct and its memory.\<close>

definition response_image :: "response_header \<Rightarrow> bytes" where
  "response_image rh =
     [rs_proto rh, rs_type rh] @ le16 (rs_cmdcode rh) @ [rs_ver2 rh] @ le32 (rs_request_id rh) @ [rs_codec rh]
     @ le16 (rs_status rh) @ le16 (rs_class_len rh) @ le16 (rs_header_len rh) @ le32 (rs_content_len rh)"

definition response_of_image :: "bytes \<Rightarrow> response_header" where
  "response_of_image xs =
     \<lparr>rs_proto = xs ! 0, rs_type = xs ! 1, rs_cmdcode = of_le16 [xs ! 2, xs ! 3], rs_ver2 = xs ! 4,
      rs_request_id = of_le32 [xs ! 5, xs ! 6, xs ! 7, xs ! 8], rs_codec = xs ! 9,
      rs_status = of_le16 [xs ! 10, xs ! 11], rs_class_len = of_le16 [xs ! 12, xs ! 13],
      rs_header_len = of_le16 [xs ! 14, xs ! 15], rs_content_len = of_le32 [xs ! 16, xs ! 17, xs ! 18, xs ! 19]\<rparr>"

definition sizeof_BoltHeader :: nat where "sizeof_BoltHeader = 20"

datatype 'm response_data = RspSTRING bytes | RspPROTOBUF 'm | RspNONE

record 'm bolt_response =
  rsp_header :: response_header
  rsp_class_name :: bytes
  rsp_header_map :: "bytes \<rightharpoonup> bytes"
  rsp_data :: "'m response_data"

definition rsp_msg :: "'m bolt_response \<Rightarrow> string" where
  "rsp_msg r = (case map_of s_rsp_error_info (rs_status (rsp_header r)) of None \<Rightarrow> ''unknown'' | Some s \<Rightarrow> s)"

definition isHeartbeat :: "'m bolt_response \<Rightarrow> bool" where
  "isHeartbeat r \<longleftrightarrow> rs_cmdcode (rsp_header r) = BOLT_PROTOCOL_CMD_HEARTBEAT"

definition rsp_status :: "'m bolt_response \<Rightarrow> u16" where
  "rsp_status r = rs_status (rsp_header r)"

section \<open>Parsing a response\<close>

text \<open>\<^verbatim>\<open>cut\<close> of a 32-bit size; \<^term>\<open>None\<close> when there are fewer than four bytes.\<close>

definition cut_size :: "heap \<Rightarrow> iobuf \<Rightarrow> iobuf \<times> u32 option" where
  "cut_size h b = (let (b', xs, cn) = cut_mem h 4 b in (b', if cn < 4 then None else Some (ntohl (of_le32 xs))))"

text \<open>\<^verbatim>\<open>cut\<close> into a string resized to \<open>n\<close>, skipped when it is empty.\<close>

definition cut_string :: "heap \<Rightarrow> nat \<Rightarrow> iobuf \<Rightarrow> iobuf \<times> bytes option" where
  "cut_string h n b =
     (if 0 < n then let (b', xs, cn) = cut_mem h n b in (b', if cn < n then None else Some xs) else (b, Some []))"

text \<open>A string resized to \<open>n\<close> bytes, the first of which are then overwritten by \<open>xs\<close>.\<close>

definition overwrite :: "nat \<Rightarrow> bytes \<Rightarrow> bytes \<Rightarrow> bytes" where
  "overwrite n s xs = xs @ drop (length xs) (take n s @ replicate (n - length s) 0)"

text \<open>One round of the loop over the headers: the bytes left, the key and the value.\<close>

definition header_entry :: "heap \<Rightarrow> u16 \<Rightarrow> iobuf \<Rightarrow> iobuf \<times> (u16 \<times> bytes \<times> bytes) option" where
  "header_entry h left b =
     (case cut_size h b of
        (b1, None) \<Rightarrow> (b1, None)
      | (b1, Some ks) \<Rightarrow>
          (case cut_string h (unat ks) b1 of
             (b2, None) \<Rightarrow> (b2, None)
           | (b2, Some key) \<Rightarrow>
               (case cut_size h b2 of
                  (b3, None) \<Rightarrow> (b3, None)
                | (b3, Some vs) \<Rightarrow>
                    (case cut_string h (unat vs) b3 of
                       (b4, None) \<Rightarrow> (b4, None)
                     | (b4, Some val) \<Rightarrow> (b4, Some (left - 4 - ucast ks - 4 - ucast vs, key, val))))))"

text \<open>\<^verbatim>\<open>emplace\<close> keeps the value of a key that is there already.\<close>

definition emplace :: "bytes \<Rightarrow> bytes \<Rightarrow> (bytes \<rightharpoonup> bytes) \<Rightarrow> bytes \<rightharpoonup> bytes" where
  "emplace k v m = (if m k = None then m(k \<mapsto> v) else m)"

lemma cut_mem_shrinks:
  assumes "cut_mem h n b = (b', xs, k)" and "\<not> k < n"
  shows "buf_length b' + n \<le> buf_length b"
proof (cases "ref_offset b \<le> length (refs b)")
  case True
  obtain rs idx cur where l: "pop_front_loop n (refs b) (ref_offset b) 0 = (rs, idx, cur)" by (rule prod_cases3)
  note spec = pop_front_loop_spec [OF True _ l, of h, simplified]
  let ?b = "b\<lparr>refs := rs, ref_offset := idx\<rparr>"
  have b': "b' = tryReleaseBlock ?b" "k = cur" using assms(1) l True by (auto simp: cut_mem_spec pop_front_def)
  have "to_string h b' = drop n (to_string h b)"
    using spec b'(1) tryReleaseBlock_to_string [of ?b h] by (simp add: to_string_def)
  then have "length (to_string h b') = length (drop n (to_string h b))" by (rule arg_cong)
  then have "buf_length b' = buf_length b - n" by simp
  moreover have "n \<le> buf_length b" using spec b'(2) assms(2) by (simp add: buf_length_def length_concat_slices)
  ultimately show ?thesis by simp
next
  case False
  have "n = 0 \<and> b' = tryReleaseBlock b"
    using False assms by (auto simp: cut_mem_def cut_mem_loop.simps [of h n "refs b" "[]" "ref_offset b" "ref_offset b" 0] split: if_splits)
  then show ?thesis using False by (simp add: tryReleaseBlock_def buf_length_def)
qed

lemma cut_size_shrinks: "cut_size h b = (b', Some n) \<Longrightarrow> buf_length b' < buf_length b"
  using cut_mem_shrinks [of h 4 b] by (fastforce simp: cut_size_def split: prod.splits if_splits)

lemma cut_string_shrinks: "cut_string h n b = (b', Some xs) \<Longrightarrow> buf_length b' \<le> buf_length b"
  using cut_mem_shrinks [of h n b] by (fastforce simp: cut_string_def split: prod.splits if_splits)

lemma header_entry_shrinks: "header_entry h left b = (b', Some r) \<Longrightarrow> buf_length b' < buf_length b"
  by (fastforce simp: header_entry_def split: prod.splits option.splits dest!: cut_size_shrinks cut_string_shrinks)

function header_loop :: "heap \<Rightarrow> u16 \<Rightarrow> iobuf \<Rightarrow> (bytes \<rightharpoonup> bytes) \<Rightarrow> EResParseResult \<times> iobuf \<times> (bytes \<rightharpoonup> bytes)" where
  "header_loop h left b m =
     (if 0 < left
      then case header_entry h left b of
        (b', None) \<Rightarrow> (PARSE_NOT_ENOUGH_DATA, b', m)
      | (b', Some (left', key, val)) \<Rightarrow> header_loop h left' b' (emplace key val m)
      else (PARSE_OK, b, m))"
  by pat_completeness auto
termination
  by (relation "measure (\<lambda>(h, left, b, m). buf_length b)") (auto dest: header_entry_shrinks [OF sym])

declare header_loop.simps [simp del]

definition deserialize_content ::
  "(heap \<Rightarrow> iobuf \<Rightarrow> 'm option \<times> u64) \<Rightarrow> heap \<Rightarrow> iobuf \<Rightarrow> 'm bolt_response \<Rightarrow> EResParseResult \<times> iobuf \<times> 'm bolt_response" where
  "deserialize_content parse h b r =
     (let n = unat (rs_content_len (rsp_header r)) in
      if 0 < n
      then case rsp_data r of
        RspSTRING s \<Rightarrow>
          (let (b', xs, cn) = cut_mem h n b; r' = r\<lparr>rsp_data := RspSTRING (overwrite n s xs)\<rparr>
           in (if cn < n then PARSE_NOT_ENOUGH_DATA else PARSE_OK, b', r'))
      | RspPROTOBUF m \<Rightarrow>
          (case parse h b of
             (None, _) \<Rightarrow> (PARSE_ERROR, b, r)
           | (Some m', count) \<Rightarrow>
               if count \<noteq> ucast (rs_content_len (rsp_header r)) then (PARSE_ERROR, b, r\<lparr>rsp_data := RspPROTOBUF m'\<rparr>)
               else (PARSE_OK, fst (pop_front n b), r\<lparr>rsp_data := RspPROTOBUF m'\<rparr>))
      | RspNONE \<Rightarrow> (PARSE_OK, b, r)
      else (PARSE_OK, b, r))"

definition deserialize ::
  "(heap \<Rightarrow> iobuf \<Rightarrow> 'm option \<times> u64) \<Rightarrow> heap \<Rightarrow> iobuf \<Rightarrow> 'm bolt_response \<Rightarrow> EResParseResult \<times> iobuf \<times> 'm bolt_response" where
  "deserialize parse h b r =
     (let (b1, xs, cn) = cut_mem h sizeof_BoltHeader b;
          rh = response_of_image (xs @ drop cn (response_image (rsp_header r)))
      in if cn < sizeof_BoltHeader then (PARSE_NOT_ENOUGH_DATA, b1, r\<lparr>rsp_header := rh\<rparr>)
         else let rh = response_ntoh rh; r1 = r\<lparr>rsp_header := rh\<rparr> in
           if rs_proto rh \<noteq> BOLT_PROTOCOL_TYPE then (PARSE_ERROR, b1, r1)
           else if rs_type rh \<noteq> BOLT_PROTOCOL_RESPONSE then (PARSE_ERROR, b1, r1)
           else if rs_cmdcode rh = BOLT_PROTOCOL_CMD_HEARTBEAT then (PARSE_OK, b1, r1)
           else if rs_cmdcode rh \<noteq> BOLT_PROTOCOL_CMD_RESPONSE then (PARSE_ERROR, b1, r1)
           else if rs_status rh \<noteq> bolt_status_code SUCCESS
           then (PARSE_OK,
                 fst (pop_front (unat (ucast (rs_class_len rh) + ucast (rs_header_len rh) + rs_content_len rh)) b1), r1)
           else let (b2, ys, cn) = cut_mem h (unat (rs_class_len rh)) b1;
                    r2 = r1\<lparr>rsp_class_name := overwrite (unat (rs_class_len rh)) (rsp_class_name r1) ys\<rparr>
                in if cn < unat (rs_class_len rh) then (PARSE_NOT_ENOUGH_DATA, b2, r2)
                   else let (res, b3, m) = header_loop h (rs_header_len rh) b2 (rsp_header_map r2);
                            r3 = r2\<lparr>rsp_header_map := m\<rparr>
                        in if res \<noteq> PARSE_OK then (res, b3, r3) else deserialize_content parse h b3 r3)"

definition MAX_BOLT_BODY_SIZE :: u64 where "MAX_BOLT_BODY_SIZE = 67108864"

text \<open>
  \<^verbatim>\<open>checkHeader\<close>: the result, and the size and the id once the header is there. The three lengths are
  added as 32-bit values.
\<close>

definition checkHeader :: "heap \<Rightarrow> iobuf \<Rightarrow> EResParseResult \<times> (u64 \<times> u64) option" where
  "checkHeader h b =
     (let (xs, cn) = copy_to h sizeof_BoltHeader b in
      if cn < sizeof_BoltHeader then (PARSE_NOT_ENOUGH_DATA, None)
      else let rh = response_ntoh (response_of_image xs);
               request_id = ucast (rs_request_id rh);
               data_size = ucast (ucast (rs_class_len rh) + ucast (rs_header_len rh) + rs_content_len rh :: u32)
           in if MAX_BOLT_BODY_SIZE < data_size then (PARSE_ERROR, Some (data_size, request_id))
              else let data_size = data_size + of_nat sizeof_BoltHeader in
                if of_nat (buf_length b) < data_size then (PARSE_NOT_ENOUGH_DATA, Some (data_size, request_id))
                else (PARSE_OK, Some (data_size, request_id)))"

definition parseHeartbeatResponse :: "'m bolt_response option \<Rightarrow> bool" where
  "parseHeartbeatResponse res =
     (case res of None \<Rightarrow> False | Some r \<Rightarrow> isHeartbeat r \<and> rsp_status r = bolt_status_code SUCCESS)"

section \<open>Well-formed responses\<close>

definition response_head :: "nat \<Rightarrow> u8 \<Rightarrow> nat \<Rightarrow> u8 \<Rightarrow> nat \<Rightarrow> nat \<Rightarrow> nat \<Rightarrow> nat \<Rightarrow> bytes" where
  "response_head cmd ver request_id codec status cl hl n =
     [1, 0] @ be16 cmd @ [ver] @ be32 request_id @ [codec] @ be16 status @ be16 cl @ be16 hl @ be32 n"

lemma length_response_head [simp]: "length (response_head cmd ver rid codec st cl hl n) = 20"
  by (simp add: response_head_def)

lemma ntoh16:
  assumes "n < 2 ^ 16"
  shows "htons (of_le16 [of_nat (n div 256), of_nat n]) = of_nat n"
proof -
  have "[of_nat (n div 256), of_nat n] = le16 (htons (of_nat n))" using net16 [OF assms] by (simp add: be16_def)
  then show ?thesis by (simp only: of_le16_le16 htons_htons)
qed

lemma ntoh32:
  assumes "n < 2 ^ 32"
  shows "htonl (of_le32 [of_nat (n div 16777216), of_nat (n div 65536), of_nat (n div 256), of_nat n]) = of_nat n"
proof -
  have "[of_nat (n div 16777216), of_nat (n div 65536), of_nat (n div 256), of_nat n] = le32 (htonl (of_nat n))"
    using net32 [OF assms] by (simp add: be32_def)
  then show ?thesis by (simp only: of_le32_le32 htonl_htonl)
qed

lemma of_le32_be32: "n < 2 ^ 32 \<Longrightarrow> htonl (of_le32 (be32 n)) = of_nat n"
  using ntoh32 [of n] by (simp add: be32_def del: of_le32.simps)

lemma response_head_decode:
  assumes "cmd < 2 ^ 16" and "rid < 2 ^ 32" and "st < 2 ^ 16" and "cl < 2 ^ 16" and "hl < 2 ^ 16" and "n < 2 ^ 32"
  shows "response_ntoh (response_of_image (response_head cmd ver rid codec st cl hl n)) =
    \<lparr>rs_proto = 1, rs_type = 0, rs_cmdcode = of_nat cmd, rs_ver2 = ver, rs_request_id = of_nat rid, rs_codec = codec,
     rs_status = of_nat st, rs_class_len = of_nat cl, rs_header_len = of_nat hl, rs_content_len = of_nat n\<rparr>"
  using ntoh16 [OF assms(1)] ntoh16 [OF assms(3)] ntoh16 [OF assms(4)] ntoh16 [OF assms(5)]
    ntoh32 [OF assms(2)] ntoh32 [OF assms(6)]
  by (simp add: response_head_def response_of_image_def response_ntoh_def be16_def be32_def nth_append
      del: of_le16.simps of_le32.simps)

lemma cut_size_frame:
  assumes "buf_ok h b" and "to_string h b = be32 n @ ys" and "n < 2 ^ 32"
  obtains b' where "cut_size h b = (b', Some (of_nat n))" and "buf_ok h b'" and "to_string h b' = ys"
proof -
  obtain b' where "cut_mem h 4 b = (b', be32 n, 4)" "buf_ok h b'" "to_string h b' = ys"
    using src.cut_exact [OF assms(1,2), of 4] by auto
  then show ?thesis using that [of b'] of_le32_be32 [OF assms(3)] by (simp add: cut_size_def)
qed

lemma cut_string_frame:
  assumes "buf_ok h b" and "to_string h b = xs @ ys"
  obtains b' where "cut_string h (length xs) b = (b', Some xs)" and "buf_ok h b'" and "to_string h b' = ys"
proof (cases "xs = []")
  case True
  then show ?thesis using that [of b] assms by (simp add: cut_string_def)
next
  case False
  obtain b' where "cut_mem h (length xs) b = (b', xs, length xs)" "buf_ok h b'" "to_string h b' = ys"
    using src.cut_exact [OF assms, of "length xs"] by auto
  then show ?thesis using that [of b'] False by (simp add: cut_string_def)
qed

lemma header_entry_frame:
  assumes "buf_ok h b" and "to_string h b = kv_bytes (key, val) @ ys" and "length key < 2 ^ 16" and "length val < 2 ^ 16"
  obtains b' where
    "header_entry h left b = (b', Some (left - of_nat (length (kv_bytes (key, val))), key, val))"
    and "buf_ok h b'" and "to_string h b' = ys"
proof -
  have lt: "length key < 2 ^ 32" "length val < 2 ^ 32" using assms(3,4) by auto
  have un: "unat (of_nat (length key) :: u32) = length key" "unat (of_nat (length val) :: u32) = length val"
    using lt by (simp_all add: unsigned_of_nat take_bit_eq_mod)
  obtain b1 where 1: "cut_size h b = (b1, Some (of_nat (length key)))" "buf_ok h b1"
    "to_string h b1 = key @ be32 (length val) @ val @ ys"
    using cut_size_frame [OF assms(1) _ lt(1)] assms(2) by (auto simp: kv_bytes_def)
  obtain b2 where 2: "cut_string h (length key) b1 = (b2, Some key)" "buf_ok h b2" "to_string h b2 = be32 (length val) @ val @ ys"
    using cut_string_frame [OF 1(2,3)] by blast
  obtain b3 where 3: "cut_size h b2 = (b3, Some (of_nat (length val)))" "buf_ok h b3" "to_string h b3 = val @ ys"
    using cut_size_frame [OF 2(2,3) lt(2)] by blast
  obtain b4 where 4: "cut_string h (length val) b3 = (b4, Some val)" "buf_ok h b4" "to_string h b4 = ys"
    using cut_string_frame [OF 3(2,3)] by blast
  have "left - 4 - ucast (of_nat (length key) :: u32) - 4 - ucast (of_nat (length val) :: u32) =
      left - of_nat (length (kv_bytes (key, val)))"
    by (simp add: kv_bytes_def ucast_of_nat_down)
  then show ?thesis using 1 2 3 4 un by (intro that [of b4]) (simp_all add: header_entry_def)
qed

lemma header_loop_frame:
  assumes "buf_ok h b" and "to_string h b = kvs_bytes kvs @ ys" and "length (kvs_bytes kvs) < 2 ^ 16"
  shows "\<exists>b'. header_loop h (of_nat (length (kvs_bytes kvs))) b m = (PARSE_OK, b', map_of kvs ++ m) \<and>
    buf_ok h b' \<and> to_string h b' = ys"
  using assms
proof (induction kvs arbitrary: b m)
  case Nil
  then show ?case by (simp add: kvs_bytes_def header_loop.simps)
next
  case (Cons kv kvs)
  obtain key val where kv: "kv = (key, val)" by fastforce
  let ?n = "length (kvs_bytes (kv # kvs))"
  have split: "kvs_bytes (kv # kvs) = kv_bytes (key, val) @ kvs_bytes kvs" by (simp add: kvs_bytes_def kv)
  have len: "?n = length (kv_bytes (key, val)) + length (kvs_bytes kvs)" by (simp add: split)
  have small: "length key < 2 ^ 16" "length val < 2 ^ 16" "length (kvs_bytes kvs) < 2 ^ 16"
    using Cons.prems(3) unfolding len by (auto simp: kv_bytes_def)
  have pos: "0 < (of_nat ?n :: u16)"
  proof -
    have "0 < ?n" using len by (simp add: kv_bytes_def)
    then have "unat (of_nat ?n :: u16) \<noteq> 0" using Cons.prems(3) by (simp add: unsigned_of_nat take_bit_eq_mod)
    then show ?thesis by (simp add: unat_gt_0 word_neq_0_conv unat_eq_0)
  qed
  obtain b1 where 1: "header_entry h (of_nat ?n) b = (b1, Some (of_nat ?n - of_nat (length (kv_bytes (key, val))), key, val))"
    "buf_ok h b1" "to_string h b1 = kvs_bytes kvs @ ys"
    using header_entry_frame [OF Cons.prems(1) _ small(1,2), of "kvs_bytes kvs @ ys" "of_nat ?n"] Cons.prems(2)
    by (auto simp: split)
  have "of_nat ?n - of_nat (length (kv_bytes (key, val))) = (of_nat (length (kvs_bytes kvs)) :: u16)"
    unfolding len by simp
  then have "header_loop h (of_nat ?n) b m = header_loop h (of_nat (length (kvs_bytes kvs))) b1 (emplace key val m)"
    using pos 1(1) by (simp add: header_loop.simps [of h "of_nat ?n" b m])
  moreover have "map_of kvs ++ emplace key val m = map_of (kv # kvs) ++ m"
    by (rule ext) (auto simp: emplace_def kv map_add_def split: option.splits)
  ultimately show ?case using Cons.IH [OF 1(2,3) small(3), of "emplace key val m"] by (simp only:)
qed


definition response_frame :: "u8 \<Rightarrow> nat \<Rightarrow> u8 \<Rightarrow> bytes \<Rightarrow> (bytes \<times> bytes) list \<Rightarrow> bytes \<Rightarrow> bytes" where
  "response_frame ver request_id codec cls kvs content =
     response_head 2 ver request_id codec 0 (length cls) (length (kvs_bytes kvs)) (length content)
     @ cls @ kvs_bytes kvs @ content"

definition frame_fits :: "nat \<Rightarrow> bytes \<Rightarrow> (bytes \<times> bytes) list \<Rightarrow> bytes \<Rightarrow> bool" where
  "frame_fits request_id cls kvs content \<longleftrightarrow>
     request_id < 2 ^ 32 \<and> length cls < 2 ^ 16 \<and> length (kvs_bytes kvs) < 2 ^ 16 \<and> length content < 2 ^ 32"

lemma overwrite_full [simp]: "length xs = n \<Longrightarrow> overwrite n s xs = xs"
  by (simp add: overwrite_def)

lemma length_response_image [simp]: "length (response_image rh) = 20"
  by (simp add: response_image_def)

text \<open>Up to the content, parsing a frame does not depend on the kind of data.\<close>

lemma deserialize_frame:
  assumes "buf_ok h b" and "to_string h b = response_frame ver rid codec cls kvs content @ rest"
    and "frame_fits rid cls kvs content"
  obtains b3 where "deserialize parse h b r = deserialize_content parse h b3
      (r\<lparr>rsp_header := \<lparr>rs_proto = 1, rs_type = 0, rs_cmdcode = 2, rs_ver2 = ver, rs_request_id = of_nat rid,
           rs_codec = codec, rs_status = 0, rs_class_len = of_nat (length cls),
           rs_header_len = of_nat (length (kvs_bytes kvs)), rs_content_len = of_nat (length content)\<rparr>,
         rsp_class_name := cls, rsp_header_map := map_of kvs ++ rsp_header_map r\<rparr>)"
    and "buf_ok h b3" and "to_string h b3 = content @ rest"
proof -
  let ?hd = "response_head 2 ver rid codec 0 (length cls) (length (kvs_bytes kvs)) (length content)"
  let ?rh = "\<lparr>rs_proto = 1, rs_type = 0, rs_cmdcode = 2, rs_ver2 = ver, rs_request_id = of_nat rid,
           rs_codec = codec, rs_status = 0, rs_class_len = of_nat (length cls),
           rs_header_len = of_nat (length (kvs_bytes kvs)), rs_content_len = of_nat (length content)\<rparr>"
  have fits: "rid < 2 ^ 32" "length cls < 2 ^ 16" "length (kvs_bytes kvs) < 2 ^ 16" "length content < 2 ^ 32"
    using assms(3) by (auto simp: frame_fits_def)
  have rh: "response_ntoh (response_of_image ?hd) = ?rh"
    using response_head_decode [of 2 rid 0 "length cls" "length (kvs_bytes kvs)" "length content" ver codec] fits by simp
  obtain b1 where 1: "cut_mem h 20 b = (b1, ?hd, 20)" "buf_ok h b1" "to_string h b1 = cls @ kvs_bytes kvs @ content @ rest"
    using src.cut_exact [OF assms(1), of ?hd "cls @ kvs_bytes kvs @ content @ rest" 20] assms(2)
    by (auto simp: response_frame_def)
  have cl: "unat (of_nat (length cls) :: u16) = length cls" using fits(2) by (simp add: unsigned_of_nat take_bit_eq_mod)
  obtain b2 where 2: "cut_mem h (length cls) b1 = (b2, cls, length cls)" "buf_ok h b2"
    "to_string h b2 = kvs_bytes kvs @ content @ rest"
    using src.cut_exact [OF 1(2,3) refl] by blast
  obtain b3 where 3: "header_loop h (of_nat (length (kvs_bytes kvs))) b2 (rsp_header_map r) =
      (PARSE_OK, b3, map_of kvs ++ rsp_header_map r)" "buf_ok h b3" "to_string h b3 = content @ rest"
    using header_loop_frame [OF 2(2,3) fits(3)] by blast
  show ?thesis
    by (rule that [OF _ 3(2,3)])
      (simp add: deserialize_def sizeof_BoltHeader_def 1(1) rh bolt_constants bolt_status_code_def cl 2(1) 3(1) Let_def)
qed


section \<open>Finding the end of a response\<close>

lemma checkHeader_head:
  assumes "buf_ok h b" and "to_string h b = response_head cmd ver rid codec st cl hl n @ ys"
    and "cmd < 2 ^ 16" and "rid < 2 ^ 32" and "st < 2 ^ 16" and "cl < 2 ^ 16" and "hl < 2 ^ 16" and "n < 2 ^ 32"
  shows "checkHeader h b =
    (let size = ucast (of_nat (cl + hl + n) :: u32) in
     if MAX_BOLT_BODY_SIZE < size then (PARSE_ERROR, Some (size, of_nat rid))
     else (if of_nat (buf_length b) < size + 20 then PARSE_NOT_ENOUGH_DATA else PARSE_OK, Some (size + 20, of_nat rid)))"
proof -
  have "buf_length b = 20 + length ys" using assms(2) by (metis length_append length_response_head length_to_string)
  then have c: "copy_to h 20 b = (response_head cmd ver rid codec st cl hl n, 20)"
    using assms(1,2) by (simp add: copy_to_spec buf_ok_def)
  have sum: "ucast (of_nat cl :: u16) + ucast (of_nat hl :: u16) + of_nat n = (of_nat (cl + hl + n) :: u32)"
    using assms(6,7) by (simp add: unsigned_of_nat take_bit_eq_mod)
  have id: "ucast (of_nat rid :: u32) = (of_nat rid :: u64)"
    using assms(4) by (simp add: unsigned_of_nat take_bit_eq_mod)
  show ?thesis
    by (simp add: checkHeader_def c sizeof_BoltHeader_def response_head_decode [OF assms(3-8)] sum id Let_def
        del: of_nat_add)
qed

lemma word64_less: "m < 2 ^ 64 \<Longrightarrow> n < 2 ^ 64 \<Longrightarrow> (of_nat m :: u64) < of_nat n \<longleftrightarrow> m < n"
  by (simp add: word_less_nat_alt unsigned_of_nat take_bit_eq_mod)

lemma checkHeader_size:
  assumes "buf_ok h b" and "to_string h b = response_head cmd ver rid codec st cl hl n @ ys" and "buf_length b < 2 ^ 64"
    and "cmd < 2 ^ 16" and "rid < 2 ^ 32" and "st < 2 ^ 16" and "cl < 2 ^ 16" and "hl < 2 ^ 16" and "cl + hl + n \<le> 67108864"
  shows "checkHeader h b =
    (if buf_length b < 20 + cl + hl + n then PARSE_NOT_ENOUGH_DATA else PARSE_OK,
     Some (of_nat (20 + cl + hl + n), of_nat rid))"
proof -
  have n: "n < 2 ^ 32" using assms(9) by simp
  have size: "ucast (of_nat (cl + hl + n) :: u32) = (of_nat (cl + hl + n) :: u64)"
    using assms(9) by (simp add: unsigned_of_nat take_bit_eq_mod del: of_nat_add)
  have max: "\<not> MAX_BOLT_BODY_SIZE < (of_nat (cl + hl + n) :: u64)"
    using word64_less [of 67108864 "cl + hl + n"] assms(9) by (simp add: MAX_BOLT_BODY_SIZE_def del: of_nat_add)
  have add: "of_nat (cl + hl + n) + 20 = (of_nat (20 + cl + hl + n) :: u64)" by simp
  have lt: "(of_nat (buf_length b) :: u64) < of_nat (20 + cl + hl + n) \<longleftrightarrow> buf_length b < 20 + cl + hl + n"
    using word64_less [of "buf_length b" "20 + cl + hl + n"] assms(3,9) by simp
  show ?thesis
    by (simp only: checkHeader_head [OF assms(1,2,4-8) n] Let_def size max add lt if_False)
qed

lemma length_response_frame:
  "length (response_frame ver rid codec cls kvs content) = 20 + length cls + length (kvs_bytes kvs) + length content"
  by (simp add: response_frame_def)

lemma checkHeader_whole:
  assumes "buf_ok h b" and "to_string h b = response_frame ver rid codec cls kvs content @ rest"
    and "frame_fits rid cls kvs content" and "length cls + length (kvs_bytes kvs) + length content \<le> 67108864"
    and "buf_length b < 2 ^ 64"
  shows "checkHeader h b = (PARSE_OK, Some (of_nat (length (response_frame ver rid codec cls kvs content)), of_nat rid))"
proof -
  have "buf_length b = 20 + length cls + length (kvs_bytes kvs) + length content + length rest"
    using assms(2) by (metis length_append length_response_frame length_to_string)
  then show ?thesis
    using checkHeader_size [OF assms(1) _ assms(5), of 2 ver rid codec 0 "length cls" "length (kvs_bytes kvs)" "length content"]
      assms(2,3,4)
    by (simp add: response_frame_def frame_fits_def)
qed

lemma checkHeader_part:
  assumes "buf_ok h b" and "to_string h b = take k (response_frame ver rid codec cls kvs content)"
    and "k < length (response_frame ver rid codec cls kvs content)"
    and "frame_fits rid cls kvs content" and "length cls + length (kvs_bytes kvs) + length content \<le> 67108864"
  shows "fst (checkHeader h b) = PARSE_NOT_ENOUGH_DATA"
proof (cases "k < 20")
  case True
  have "copy_to h 20 b = (take 20 (to_string h b), min 20 (buf_length b))" using assms(1) by (simp add: copy_to_spec buf_ok_def)
  moreover have "buf_length b < 20" using True assms(2,3) length_to_string [of h b] by simp
  ultimately show ?thesis by (simp add: checkHeader_def sizeof_BoltHeader_def)
next
  case False
  let ?hd = "response_head 2 ver rid codec 0 (length cls) (length (kvs_bytes kvs)) (length content)"
  have str: "to_string h b = ?hd @ take (k - 20) (cls @ kvs_bytes kvs @ content)"
    using assms(2) False by (simp add: response_frame_def)
  have len: "buf_length b = k" using assms(2,3) length_to_string [of h b] by simp
  then have "buf_length b < 2 ^ 64" using assms(3,5) by (simp add: length_response_frame)
  from checkHeader_size [OF assms(1) str this] show ?thesis
    using assms(3,4,5) len by (simp add: length_response_frame frame_fits_def)
qed

section \<open>Every call\<close>

text \<open>What a parser leaves in the buffer is the end of what was there.\<close>

definition leaves_suffix :: "heap \<Rightarrow> iobuf \<Rightarrow> iobuf \<Rightarrow> bool" where
  "leaves_suffix h b b' \<longleftrightarrow> buf_ok h b' \<and> (\<exists>n. to_string h b' = drop n (to_string h b))"

lemma leaves_suffix_trans: "leaves_suffix h a b \<Longrightarrow> leaves_suffix h b c \<Longrightarrow> leaves_suffix h a c"
  by (auto simp: leaves_suffix_def)

lemma leaves_suffix_refl: "buf_ok h b \<Longrightarrow> leaves_suffix h b b"
  by (auto simp: leaves_suffix_def intro!: exI [of _ 0])

lemma cut_mem_suffix: "buf_ok h b \<Longrightarrow> cut_mem h n b = (b', xs, k) \<Longrightarrow> leaves_suffix h b b'"
  using src.cut_ok [of h b n] by (auto simp: leaves_suffix_def)

lemma pop_front_suffix: "buf_ok h b \<Longrightarrow> leaves_suffix h b (fst (pop_front n b))"
  by (cases "pop_front n b") (auto simp: leaves_suffix_def dest: pop_front_spec(1,3))

lemma cut_size_suffix: "buf_ok h b \<Longrightarrow> cut_size h b = (b', x) \<Longrightarrow> leaves_suffix h b b'"
  by (auto simp: cut_size_def split: prod.splits dest: cut_mem_suffix)

lemma cut_string_suffix: "buf_ok h b \<Longrightarrow> cut_string h n b = (b', x) \<Longrightarrow> leaves_suffix h b b'"
  by (auto simp: cut_string_def leaves_suffix_refl split: prod.splits if_splits dest: cut_mem_suffix)

lemma leaves_suffix_ok: "leaves_suffix h b b' \<Longrightarrow> buf_ok h b'"
  by (simp add: leaves_suffix_def)

lemma header_entry_suffix:
  assumes "buf_ok h b" and "header_entry h left b = (b', x)"
  shows "leaves_suffix h b b'"
proof -
  obtain b1 x1 where 1: "cut_size h b = (b1, x1)" by fastforce
  note s1 = cut_size_suffix [OF assms(1) 1]
  show ?thesis
  proof (cases x1)
    case None
    then show ?thesis using assms(2) 1 s1 by (simp add: header_entry_def)
  next
    case (Some ks)
    obtain b2 x2 where 2: "cut_string h (unat ks) b1 = (b2, x2)" by fastforce
    note s2 = leaves_suffix_trans [OF s1 cut_string_suffix [OF leaves_suffix_ok [OF s1] 2]]
    obtain b3 x3 where 3: "cut_size h b2 = (b3, x3)" by fastforce
    note s3 = leaves_suffix_trans [OF s2 cut_size_suffix [OF leaves_suffix_ok [OF s2] 3]]
    have s4: "leaves_suffix h b b4" if "cut_string h n b3 = (b4, x4)" for n b4 x4
      using leaves_suffix_trans [OF s3 cut_string_suffix [OF leaves_suffix_ok [OF s3] that]] .
    show ?thesis
      using assms(2) 1 Some 2 s2 3 s3 s4
      by (auto simp: header_entry_def split: option.splits prod.splits)
  qed
qed

lemma header_loop_suffix:
  "buf_ok h b \<Longrightarrow> header_loop h left b m = (res, b', m') \<Longrightarrow> leaves_suffix h b b' \<and> res \<noteq> PARSE_ERROR"
proof (induction h left b m arbitrary: res b' m' rule: header_loop.induct)
  case (1 h left b m)
  obtain b1 x where e: "header_entry h left b = (b1, x)" by fastforce
  note s = header_entry_suffix [OF 1(2) e]
  show ?case
  proof (cases "0 < left")
    case False
    then show ?thesis using 1(2,3) by (auto simp: header_loop.simps [of h left b m] leaves_suffix_refl)
  next
    case True
    show ?thesis
    proof (cases x)
      case None
      then show ?thesis using True e s 1(3) by (auto simp: header_loop.simps [of h left b m])
    next
      case (Some y)
      obtain l k v where y: "y = (l, k, v)" by (cases y)
      have "header_loop h l b1 (emplace k v m) = (res, b', m')"
        using True e Some y 1(3) by (simp add: header_loop.simps [of h left b m])
      with 1(1) [OF True e [symmetric] Some y [symmetric] refl leaves_suffix_ok [OF s]] s show ?thesis
        by (blast intro: leaves_suffix_trans)
    qed
  qed
qed

lemma deserialize_content_suffix:
  assumes "buf_ok h b" and "deserialize_content parse h b r = (res, b', r')"
  shows "leaves_suffix h b b'"
  using assms
  by (auto simp: deserialize_content_def Let_def leaves_suffix_refl pop_front_suffix
      split: if_splits response_data.splits prod.splits option.splits dest: cut_mem_suffix)

lemma deserialize_suffix:
  assumes "buf_ok h b" and "deserialize parse h b r = (res, b', r')"
  shows "leaves_suffix h b b'"
proof -
  obtain b1 xs cn where 1: "cut_mem h sizeof_BoltHeader b = (b1, xs, cn)" by (rule prod_cases3)
  note s1 = cut_mem_suffix [OF assms(1) 1]
  note pop = leaves_suffix_trans [OF s1 pop_front_suffix [OF leaves_suffix_ok [OF s1]]]
  have s2: "leaves_suffix h b b2" if "cut_mem h n b1 = (b2, ys, k)" for n b2 ys k
    using leaves_suffix_trans [OF s1 cut_mem_suffix [OF leaves_suffix_ok [OF s1] that]] .
  have s3: "leaves_suffix h b b3" if "cut_mem h n b1 = (b2, ys, k)" "header_loop h l b2 m = (e, b3, m')"
    for n b2 ys k l m e b3 m'
    using header_loop_suffix [OF leaves_suffix_ok [OF s2 [OF that(1)]] that(2)] s2 [OF that(1)]
    by (blast intro: leaves_suffix_trans)
  have s4: "leaves_suffix h b b4" if "cut_mem h n b1 = (b2, ys, k)" "header_loop h l b2 m = (e, b3, m')"
    "deserialize_content parse h b3 q = (res, b4, q')" for n b2 ys k l m e b3 m' q b4 q'
    using deserialize_content_suffix [OF leaves_suffix_ok [OF s3 [OF that(1,2)]] that(3)] s3 [OF that(1,2)]
    by (blast intro: leaves_suffix_trans)
  show ?thesis
    using assms(2) 1 s1 pop
    by (auto simp: deserialize_def Let_def split: if_splits prod.splits intro: s2 s3 s4)
qed


section \<open>Properties\<close>

text \<open>
  What protobuf documents of parsing from a stream: the parser reads to the end of the stream. Whether it succeeds and with
  which message depends on the bytes of the stream only (\<open>decode\<close>), and when it succeeds having consumed the entire message,
  the byte count of the stream is the number of its bytes.
\<close>

definition parses_to_eof :: "(bytes \<Rightarrow> 'm option) \<Rightarrow> (heap \<Rightarrow> iobuf \<Rightarrow> 'm option \<times> u64) \<Rightarrow> heap \<Rightarrow> bool" where
  "parses_to_eof decode parse h \<longleftrightarrow>
     (\<forall>b. buf_ok h b \<longrightarrow> fst (parse h b) = decode (to_string h b) \<and>
       (fst (parse h b) \<noteq> None \<longrightarrow> snd (parse h b) = of_nat (length (to_string h b))))"

text \<open>
  C6. A well-formed response with content is parsed into its parts: the header, the class name, the map of its key/value pairs
  (the first value of a repeated key counts) and the content. String content is the content itself, and exactly the bytes of
  the response are removed, whatever follows it. A protobuf message is what the bytes of the content decode to, when
  the buffer holds exactly the response, as the one that a socket hands to a session does; nothing is left then.
\<close>

theorem response_parsed:
  assumes "buf_ok h b" and "to_string h b = response_frame ver rid codec cls kvs content @ rest"
    and "frame_fits rid cls kvs content" and "rsp_header_map r = Map.empty" and "content \<noteq> []"
    and "(\<exists>s. rsp_data r = RspSTRING s \<and> data = RspSTRING content) \<or>
      (\<exists>m m' decode. rsp_data r = RspPROTOBUF m \<and> data = RspPROTOBUF m' \<and> rest = [] \<and>
        parses_to_eof decode parse h \<and> decode content = Some m')"
  shows "\<exists>b' r'. deserialize parse h b r = (PARSE_OK, b', r') \<and> buf_ok h b' \<and> to_string h b' = rest \<and>
    rs_request_id (rsp_header r') = of_nat rid \<and> rsp_class_name r' = cls \<and> rsp_header_map r' = map_of kvs \<and>
    rsp_data r' = data"
proof -
  obtain b3 where d: "deserialize parse h b r = deserialize_content parse h b3
      (r\<lparr>rsp_header := \<lparr>rs_proto = 1, rs_type = 0, rs_cmdcode = 2, rs_ver2 = ver, rs_request_id = of_nat rid,
           rs_codec = codec, rs_status = 0, rs_class_len = of_nat (length cls),
           rs_header_len = of_nat (length (kvs_bytes kvs)), rs_content_len = of_nat (length content)\<rparr>,
         rsp_class_name := cls, rsp_header_map := map_of kvs ++ rsp_header_map r\<rparr>)"
    and b3: "buf_ok h b3" "to_string h b3 = content @ rest"
    using deserialize_frame [OF assms(1,2,3)] by blast
  have n: "unat (of_nat (length content) :: u32) = length content" "0 < length content"
    using assms(3,5) by (auto simp: frame_fits_def unsigned_of_nat take_bit_eq_mod)
  have w: "ucast (of_nat (length content) :: u32) = (of_nat (length content) :: u64)"
    using assms(3) by (simp add: frame_fits_def unsigned_of_nat take_bit_eq_mod)
  obtain b4 where 4: "cut_mem h (length content) b3 = (b4, content, length content)" "buf_ok h b4" "to_string h b4 = rest"
    using src.cut_exact [OF b3 refl] by blast
  obtain b5 k where 5: "pop_front (length content) b3 = (b5, k)" by fastforce
  have b5: "buf_ok h b5" "to_string h b5 = rest" using pop_front_spec [OF b3(1) 5] b3(2) by auto
  show ?thesis
    using assms(6)
  proof (elim disjE exE conjE)
    fix s assume "rsp_data r = RspSTRING s" "data = RspSTRING content"
    then show ?thesis using d n 4 assms(4) by (simp add: deserialize_content_def)
  next
    fix m m' decode assume p: "rsp_data r = RspPROTOBUF m" "data = RspPROTOBUF m'" "rest = []"
      "parses_to_eof decode parse h" "decode content = Some m'"
    have "parse h b3 = (Some m', of_nat (length content))"
      using p(3-5) b3 by (cases "parse h b3") (auto simp: parses_to_eof_def)
    then show ?thesis using p(1,2) d n w 5 b5 assms(4) by (simp add: deserialize_content_def)
  qed
qed

text \<open>A buffer with a response that carries one pair and two bytes of content, and a byte more.\<close>

definition sample_frame :: bytes where
  "sample_frame = response_frame 1 5 11 [99] [([107], [118])] [7, 8]"

definition sample_rsp :: "bytes bolt_response" where
  "sample_rsp = \<lparr>rsp_header = response_of_image (replicate 20 0), rsp_class_name = [], rsp_header_map = Map.empty,
     rsp_data = RspSTRING []\<rparr>"

lemma sample_frame_fits: "frame_fits 5 [99] [([107], [118])] [7, 8]"
  by (simp add: frame_fits_def kvs_bytes_def kv_bytes_def)

text \<open>A message type whose values are their own encodings, of at most two bytes.\<close>

definition short_message :: "bytes \<Rightarrow> bytes option" where
  "short_message xs = (if length xs \<le> 2 then Some xs else None)"

definition parse_short :: "heap \<Rightarrow> iobuf \<Rightarrow> bytes option \<times> u64" where
  "parse_short h b = (short_message (to_string h b), of_nat (length (to_string h b)))"

theorem response_parsed_witness:
  "\<exists>h b h2 c b' r' c' q'. to_string h b = sample_frame @ [1] \<and> to_string h2 c = sample_frame \<and>
     deserialize (\<lambda>_ _. (None, 0)) h b sample_rsp = (PARSE_OK, b', r') \<and> to_string h b' = [1] \<and>
     rsp_class_name r' = [99] \<and> rsp_header_map r' = [[107] \<mapsto> [118]] \<and> rsp_data r' = RspSTRING [7, 8] \<and>
     deserialize parse_short h2 c (sample_rsp\<lparr>rsp_data := RspPROTOBUF []\<rparr>) = (PARSE_OK, c', q') \<and> to_string h2 c' = [] \<and>
     rsp_data q' = RspPROTOBUF [7, 8]"
proof -
  let ?q = "sample_rsp\<lparr>rsp_data := RspPROTOBUF []\<rparr>"
  obtain h b where b: "buf_ok h b" "to_string h b = sample_frame @ [1]" by (rule buffer_with)
  obtain h2 c where c: "buf_ok h2 c" "to_string h2 c = sample_frame" by (rule buffer_with)
  have e: "parses_to_eof short_message parse_short h2"
    by (auto simp: parses_to_eof_def parse_short_def)
  have "\<exists>b' r'. deserialize (\<lambda>_ _. (None, 0)) h b sample_rsp = (PARSE_OK, b', r') \<and> buf_ok h b' \<and> to_string h b' = [1] \<and>
      rs_request_id (rsp_header r') = of_nat 5 \<and> rsp_class_name r' = [99] \<and> rsp_header_map r' = map_of [([107], [118])] \<and>
      rsp_data r' = RspSTRING [7, 8]"
    by (rule response_parsed [OF b(1) _ sample_frame_fits]) (auto simp: b(2) sample_frame_def sample_rsp_def)
  moreover have "\<exists>c' q'. deserialize parse_short h2 c ?q = (PARSE_OK, c', q') \<and> buf_ok h2 c' \<and> to_string h2 c' = [] \<and>
      rs_request_id (rsp_header q') = of_nat 5 \<and> rsp_class_name q' = [99] \<and> rsp_header_map q' = map_of [([107], [118])] \<and>
      rsp_data q' = RspPROTOBUF [7, 8]"
  proof (rule response_parsed [OF c(1) _ sample_frame_fits])
    show "to_string h2 c = response_frame 1 5 11 [99] [([107], [118])] [7, 8] @ []"
      by (simp add: c(2) sample_frame_def)
    show "(\<exists>s. rsp_data ?q = RspSTRING s \<and> RspPROTOBUF [7, 8] = RspSTRING [7, 8]) \<or>
      (\<exists>m m' decode. rsp_data ?q = RspPROTOBUF m \<and> RspPROTOBUF [7, 8] = RspPROTOBUF m' \<and> ([] :: bytes) = [] \<and>
        parses_to_eof decode parse_short h2 \<and> decode [7, 8] = Some m')"
      using e by (auto simp: short_message_def)
  qed (simp_all add: sample_rsp_def)
  ultimately show ?thesis
    using b(2) c(2) by simp blast
qed

text \<open>
  C7. \<^verbatim>\<open>checkHeader\<close> finds the end of a response of at most 64 MiB: it answers that there is not enough data
  on every proper prefix of the response, and on the whole response, whatever follows it, that it is complete, with its
  length and its request id. It removes nothing.
\<close>

theorem response_framed:
  assumes "frame_fits rid cls kvs content" and "length cls + length (kvs_bytes kvs) + length content \<le> 67108864"
    and "buf_ok h b" and "buf_ok h c" and "buf_length b < 2 ^ 64"
    and "to_string h b = response_frame ver rid codec cls kvs content @ rest"
    and "to_string h c = take k (response_frame ver rid codec cls kvs content)"
    and "k < length (response_frame ver rid codec cls kvs content)"
  shows "checkHeader h b = (PARSE_OK, Some (of_nat (length (response_frame ver rid codec cls kvs content)), of_nat rid)) \<and>
    fst (checkHeader h c) = PARSE_NOT_ENOUGH_DATA"
  using checkHeader_whole [OF assms(3,6,1,2,5)] checkHeader_part [OF assms(4,7,8,1,2)] by simp

theorem response_framed_witness:
  "\<exists>h b. to_string h b = sample_frame @ [1] \<and> checkHeader h b = (PARSE_OK, Some (33, 5)) \<and>
     fst (checkHeader h buf_new) = PARSE_NOT_ENOUGH_DATA"
proof -
  obtain h b where b: "buf_ok h b" "to_string h b = sample_frame @ [1]"
    by (rule buffer_with)
  have len: "length sample_frame = 33" by (simp add: sample_frame_def length_response_frame kvs_bytes_def kv_bytes_def)
  then have "buf_length b < 2 ^ 64" using length_to_string [of h b] by (simp add: b(2) del: length_to_string)
  then show ?thesis
    using response_framed [OF sample_frame_fits _ b(1) buf_new_ok(1), of 1 11 "[1]" 0] b(2) len
    by (fastforce simp: sample_frame_def kvs_bytes_def kv_bytes_def)
qed

text \<open>
  C8. Whatever bytes the buffer holds, parsing a response ends, keeps the buffer consistent and leaves in it the end of
  the bytes that were there; the loop over the headers fails only for lack of bytes.
\<close>

theorem deserialize_total:
  assumes "buf_ok h b"
  shows "\<exists>res b' r' n. deserialize parse h b r = (res, b', r') \<and> buf_ok h b' \<and> to_string h b' = drop n (to_string h b)"
  using deserialize_suffix [OF assms, of parse r] by (cases "deserialize parse h b r") (auto simp: leaves_suffix_def)

theorem deserialize_total_witness:
  "buf_ok heap1 buf1 \<and>
   (\<exists>res b' r' n. deserialize (\<lambda>_ _. (None, 0)) heap1 buf1 sample_rsp = (res, b', r') \<and> buf_ok heap1 b' \<and>
      to_string heap1 b' = drop n [4, 5, 6, 7, 8, 9])"
  using deserialize_total [of heap1 buf1 "\<lambda>_ _. (None, 0)" sample_rsp] by (simp add: buf1_bytes)

text \<open>
  C25. The key/value pairs that a request writes into its headers are read back, with all their bytes, by the loop that
  parses the headers of a response.
\<close>

theorem headers_roundtrip:
  assumes "heap_ready h" and "length (kvs_bytes kvs) < 2 ^ 16"
  shows "\<exists>h' b rh' b'. append_kvs h buf_new rh kvs = Some (h', b, rh') \<and>
    header_loop h' (of_nat (length (kvs_bytes kvs))) b Map.empty = (PARSE_OK, b', map_of kvs) \<and> to_string h' b' = []"
proof -
  obtain h' b where 1: "append_kvs h buf_new rh kvs =
      Some (h', b, rh\<lparr>rq_header_len := rq_header_len rh + of_nat (length (kvs_bytes kvs))\<rparr>)"
    "buf_ok h' b" "to_string h' b = kvs_bytes kvs @ []"
    using append_kvs_ok [OF assms(1) buf_new_ok(1) kvs_bytes_fit [OF assms(2)], of rh] by auto
  with header_loop_frame [OF 1(2,3) assms(2), of Map.empty] show ?thesis by auto
qed

theorem headers_roundtrip_witness:
  "\<exists>h' b rh' b'. append_kvs heap0 buf_new initHeader [([1, 2], [3])] = Some (h', b, rh') \<and>
     header_loop h' 11 b Map.empty = (PARSE_OK, b', [[1, 2] \<mapsto> [3]]) \<and> to_string h' b' = []"
  using headers_roundtrip [of heap0 "[([1, 2], [3])]" initHeader] by (simp add: kvs_bytes_def kv_bytes_def)

text \<open>
  C35. \<^verbatim>\<open>checkHeader\<close> adds the lengths in 32 bits, so they can wrap around: a header that announces one byte of
  headers and 4294967295 bytes of content passes the limit of 64 MiB, and is answered to be a complete response of 20
  bytes.
\<close>

theorem length_sum_wraps:
  assumes "buf_ok h b" and "to_string h b = response_head 2 ver rid codec 0 0 1 4294967295 @ ys"
    and "rid < 2 ^ 32" and "buf_length b < 2 ^ 64"
  shows "checkHeader h b = (PARSE_OK, Some (20, of_nat rid))"
proof -
  have len: "buf_length b = 20 + length ys" using assms(2) by (metis length_append length_response_head length_to_string)
  have "\<not> (of_nat (buf_length b) :: u64) < of_nat 20" using word64_less [OF assms(4), of 20] len by simp
  then show ?thesis
    using checkHeader_head [OF assms(1,2) _ assms(3)] by (simp add: MAX_BOLT_BODY_SIZE_def)
qed

theorem length_sum_wraps_witness:
  "\<exists>h b. to_string h b = response_head 2 1 5 11 0 0 1 4294967295 \<and> checkHeader h b = (PARSE_OK, Some (20, 5))"
proof -
  let ?xs = "response_head 2 1 5 11 0 0 1 4294967295"
  obtain h b where b: "buf_ok h b" "to_string h b = ?xs @ []"
    by (rule buffer_with)
  have "buf_length b < 2 ^ 64" using length_to_string [of h b] by (simp add: b(2) del: length_to_string)
  with length_sum_wraps [OF b] b(2) show ?thesis by auto
qed

text \<open>
  The bytes of the headers still to be read are counted in 16 bits without a check that an entry fits: with one byte
  of headers announced, an entry of eight bytes is read and the loop goes on with 65529 bytes to read, into the content.
\<close>

theorem header_count_underflows:
  assumes "buf_ok h b" and "to_string h b = kv_bytes ([], []) @ ys"
  shows "\<exists>b'. header_loop h 1 b m = header_loop h 65529 b' (emplace [] [] m) \<and> to_string h b' = ys"
proof -
  obtain b' where e: "header_entry h 1 b = (b', Some (1 - of_nat (length (kv_bytes ([], []))), [], []))"
    "to_string h b' = ys"
    using header_entry_frame [OF assms, of 1] by auto
  have "(1 :: u16) - of_nat (length (kv_bytes ([], []))) = 65529" by (simp add: kv_bytes_def)
  with e show ?thesis by (intro exI [of _ b']) (simp add: header_loop.simps [of h 1 b m])
qed

theorem header_count_underflows_witness:
  "\<exists>h b b'. to_string h b = kv_bytes ([], []) @ [42] \<and>
     header_loop h 1 b Map.empty = header_loop h 65529 b' (emplace [] [] Map.empty) \<and> to_string h b' = [42]"
proof -
  obtain h b where b: "buf_ok h b" "to_string h b = kv_bytes ([], []) @ [42]"
    by (rule buffer_with)
  with header_count_underflows [OF b, of Map.empty] show ?thesis by blast
qed

end
