(* ===== verification/Uri.thy ===== *)
theory Uri
  imports Prelude
begin

text \<open>
  The URI parser of \<^verbatim>\<open>include/common/uri.h\<close> and \<^verbatim>\<open>src/common/uri.cpp\<close>. A pointer into the zero-terminated
  string is an offset. The result \<^term>\<open>None\<close> stands for undefined behaviour: a byte behind the terminator is read, the
  table of actions is indexed by a negative \<^verbatim>\<open>char\<close>, or the \<^verbatim>\<open>int\<close> arithmetic of the port overflows.
\<close>

section \<open>The object and the table of actions\<close>

record uri =
  schema :: string
  host :: string
  path :: string
  user_info :: string
  query :: string
  fragment :: string
  port :: int
  parse_ok :: bool

text \<open>A default-constructed object leaves \<^verbatim>\<open>_port\<close> unset: \<open>p\<close> is what the memory holds.\<close>

definition URI :: "int \<Rightarrow> uri" where
  "URI p = \<lparr>schema = [], host = [], path = [], user_info = [], query = [], fragment = [], port = p, parse_ok = True\<rparr>"

definition clear_uri :: "uri \<Rightarrow> uri" where
  "clear_uri u = u\<lparr>schema := [], host := [], path := [], user_info := [], port := -1, parse_ok := True\<rparr>"

datatype EParseAction = URI_PARSE_CONTINUE | URI_PARSE_CHECK | URI_PARSE_BREAK

definition action_map :: "char \<Rightarrow> EParseAction option" where
  "action_map c =
     (if 128 \<le> (of_char c :: nat) then None
      else if c \<in> {CHR 0x00, CHR ''#'', CHR ''/'', CHR ''?''} then Some URI_PARSE_BREAK
      else if c \<in> {CHR '' '', CHR '':'', CHR ''@''} then Some URI_PARSE_CHECK
      else Some URI_PARSE_CONTINUE)"

definition at :: "string \<Rightarrow> nat \<Rightarrow> char option" where
  "at s p = (if p < length s then Some (s ! p) else if p = length s then Some (CHR 0x00) else None)"

definition to_int :: "int \<Rightarrow> int option" where
  "to_int i = (if - (2 ^ 31) \<le> i \<and> i < 2 ^ 31 then Some i else None)"

text \<open>The characters from offset \<open>b\<close> up to offset \<open>e\<close>, as \<^verbatim>\<open>assign(begin, end - begin)\<close> takes them.\<close>

definition between :: "string \<Rightarrow> nat \<Rightarrow> nat \<Rightarrow> string" where
  "between s b e = take (e - b) (drop b s)"

section \<open>Parsing\<close>

text \<open>The loop runs for \<^verbatim>\<open>q\<close> from \<^verbatim>\<open>host_end - 1\<close> down; its argument is one more than \<^verbatim>\<open>q\<close>.\<close>

fun split_loop :: "string \<Rightarrow> nat \<Rightarrow> nat \<Rightarrow> nat \<Rightarrow> int \<Rightarrow> int \<Rightarrow> (nat \<times> int) option" where
  "split_loop s host_begin host_end 0 pt multiply = Some (host_end, -1)"
| "split_loop s host_begin host_end (Suc q) pt multiply =
     (if host_begin < q then do {
        c \<leftarrow> at s q;
        if of_char c \<in> {48 .. 57 :: nat} then do {
          d \<leftarrow> to_int ((of_char c - 48) * multiply);
          pt' \<leftarrow> to_int (pt + d);
          multiply' \<leftarrow> to_int (multiply * 10);
          split_loop s host_begin host_end q pt' multiply'
        }
        else if c = CHR '':'' then Some (q, pt)
        else Some (host_end, -1)
      }
      else Some (host_end, -1))"

definition splitHostAndPort :: "string \<Rightarrow> nat \<Rightarrow> nat \<Rightarrow> (nat \<times> int) option" where
  "splitHostAndPort s host_begin host_end = split_loop s host_begin host_end host_end 0 1"

lemma at_bound: "at s p = Some c \<Longrightarrow> c \<noteq> CHR 0x00 \<Longrightarrow> p < length s"
  by (simp add: at_def split: if_splits)

function skip_spaces :: "string \<Rightarrow> nat \<Rightarrow> nat" where
  "skip_spaces s p = (if at s p = Some (CHR '' '') then skip_spaces s (Suc p) else p)"
  by auto
termination
  by (relation "measure (\<lambda>(s, p). length s - p)") (auto dest: at_bound)

declare skip_spaces.simps [simp del]

definition isAllSpace :: "string \<Rightarrow> nat \<Rightarrow> bool option" where
  "isAllSpace s p = do { c \<leftarrow> at s (skip_spaces s p); Some (c = CHR 0x00) }"

text \<open>
  The loops that look for the end of a part give \<open>Inl\<close> when the function returns early with \<^verbatim>\<open>_parse_ok\<close> false, and \<open>Inr\<close>
  with the variables at the end of the loop otherwise.
\<close>

function authority_loop :: "string \<Rightarrow> nat \<Rightarrow> nat \<Rightarrow> bool \<Rightarrow> bool \<Rightarrow> uri \<Rightarrow> (uri + uri \<times> nat \<times> nat) option" where
  "authority_loop s p begin need_schema need_user_info u =
     (case at s p of None \<Rightarrow> None | Some c \<Rightarrow>
       (case action_map c of None \<Rightarrow> None
        | Some URI_PARSE_CONTINUE \<Rightarrow> authority_loop s (Suc p) begin need_schema need_user_info u
        | Some URI_PARSE_BREAK \<Rightarrow> Some (Inr (u, p, begin))
        | Some URI_PARSE_CHECK \<Rightarrow>
            if c = CHR '':'' then
              (if at s (p + 1) = Some (CHR ''/'') \<and> at s (p + 2) = Some (CHR ''/'') \<and> need_schema
               then authority_loop s (Suc (p + 2)) (p + 3) False need_user_info (u\<lparr>schema := between s begin p\<rparr>)
               else authority_loop s (Suc p) begin need_schema need_user_info u)
            else if c = CHR ''@'' then
              (if need_user_info
               then authority_loop s (Suc p) (p + 1) need_schema False (u\<lparr>user_info := between s begin p\<rparr>)
               else authority_loop s (Suc p) begin need_schema need_user_info u)
            else
              (case isAllSpace s p of None \<Rightarrow> None
               | Some True \<Rightarrow> Some (Inl (u\<lparr>parse_ok := False\<rparr>))
               | Some False \<Rightarrow> Some (Inr (u, p, begin)))))"
  by pat_completeness auto
termination
  by (relation "measure (\<lambda>(s, p, _). length s - p)")
    (auto dest!: at_bound simp: action_map_def split: if_splits)

declare authority_loop.simps [simp del]

function path_loop :: "string \<Rightarrow> nat \<Rightarrow> (unit + nat) option" where
  "path_loop s p =
     (case at s p of None \<Rightarrow> None | Some c \<Rightarrow>
       if c = CHR 0x00 \<or> c = CHR ''?'' \<or> c = CHR ''#'' then Some (Inr p)
       else if c = CHR '' '' then do { b \<leftarrow> isAllSpace s p; Some (if b then Inl () else Inr p) }
       else path_loop s (Suc p))"
  by auto
termination
  by (relation "measure (\<lambda>(s, p). length s - p)") (auto dest: at_bound)

declare path_loop.simps [simp del]

function query_loop :: "string \<Rightarrow> nat \<Rightarrow> (unit + nat) option" where
  "query_loop s p =
     (case at s p of None \<Rightarrow> None | Some c \<Rightarrow>
       if c = CHR 0x00 \<or> c = CHR ''#'' then Some (Inr p)
       else if c = CHR '' '' then do { b \<leftarrow> isAllSpace s (p + 1); Some (if \<not> b then Inl () else Inr p) }
       else query_loop s (Suc p))"
  by auto
termination
  by (relation "measure (\<lambda>(s, p). length s - p)") (auto dest: at_bound)

declare query_loop.simps [simp del]

function fragment_loop :: "string \<Rightarrow> nat \<Rightarrow> (unit + nat) option" where
  "fragment_loop s p =
     (case at s p of None \<Rightarrow> None | Some c \<Rightarrow>
       if c = CHR 0x00 then Some (Inr p)
       else if c = CHR '' '' then do { b \<leftarrow> isAllSpace s (p + 1); Some (if \<not> b then Inl () else Inr p) }
       else fragment_loop s (Suc p))"
  by auto
termination
  by (relation "measure (\<lambda>(s, p). length s - p)") (auto dest: at_bound)

declare fragment_loop.simps [simp del]

text \<open>The three parts of \<^verbatim>\<open>parseFromString\<close> behind the authority; each starts at the character the one before stopped at.\<close>

definition parse_fragment :: "string \<Rightarrow> nat \<Rightarrow> uri \<Rightarrow> uri option" where
  "parse_fragment s p u = do {
     c \<leftarrow> at s p;
     if c = CHR ''#'' then do {
       r \<leftarrow> fragment_loop s (Suc p);
       case r of Inl _ \<Rightarrow> Some (u\<lparr>parse_ok := False\<rparr>)
       | Inr p' \<Rightarrow> Some (u\<lparr>fragment := between s (Suc p) p'\<rparr>)
     }
     else Some u
   }"

definition parse_query :: "string \<Rightarrow> nat \<Rightarrow> uri \<Rightarrow> uri option" where
  "parse_query s p u = do {
     c \<leftarrow> at s p;
     if c = CHR ''?'' then do {
       r \<leftarrow> query_loop s (Suc p);
       case r of Inl _ \<Rightarrow> Some (u\<lparr>parse_ok := False\<rparr>)
       | Inr p' \<Rightarrow> parse_fragment s p' (u\<lparr>query := between s (Suc p) p'\<rparr>)
     }
     else parse_fragment s p u
   }"

definition parse_path :: "string \<Rightarrow> nat \<Rightarrow> uri \<Rightarrow> uri option" where
  "parse_path s p u = do {
     c \<leftarrow> at s p;
     if c = CHR ''/'' then do {
       r \<leftarrow> path_loop s (Suc p);
       case r of Inl _ \<Rightarrow> Some (u\<lparr>parse_ok := False\<rparr>)
       | Inr p' \<Rightarrow> parse_query s p' (u\<lparr>path := between s p p'\<rparr>)
     }
     else parse_query s p u
   }"

definition parseFromString :: "string \<Rightarrow> uri \<Rightarrow> uri option" where
  "parseFromString s u = do {
     let p = skip_spaces s 0;
     r \<leftarrow> authority_loop s p p True True (clear_uri u);
     case r of Inl u' \<Rightarrow> Some u'
     | Inr (u1, p, begin) \<Rightarrow> do {
         (host_end, pt) \<leftarrow> splitHostAndPort s begin p;
         parse_path s p (u1\<lparr>port := pt, host := between s begin host_end\<rparr>)
       }
   }"

section \<open>Reading a known text\<close>

lemma at_simps [simp]: "at (xs @ ys) (length xs) = at ys 0" "at (xs @ ys) (length xs + k) = at ys k"
  "at (xs @ ys) (Suc (length xs)) = at ys 1" "at (xs @ ys) (Suc (length xs + k)) = at ys (Suc k)"
  "at (xs @ ys) (Suc (Suc (length xs))) = at ys (Suc (Suc 0))"
  "at (c # cs) 0 = Some c" "at (c # cs) (Suc k) = at cs k" "at [] 0 = Some (CHR 0x00)"
  by (auto simp: at_def nth_append numeral_2_eq_2)

lemma at_end [simp]: "at s (length s) = Some (CHR 0x00)"
  by (simp add: at_def)

lemma at_mid: "at (xs @ c # ys) (length xs) = Some c"
  by simp

lemma between_append [simp]: "between (xs @ ys @ zs) (length xs) (length xs + length ys) = ys"
  by (simp add: between_def)

definition plain :: "char \<Rightarrow> bool" where
  "plain c \<longleftrightarrow> action_map c = Some URI_PARSE_CONTINUE"

lemma plainD: "plain c \<Longrightarrow> c \<notin> {CHR 0x00, CHR ''#'', CHR ''/'', CHR ''?'', CHR '' '', CHR '':'', CHR ''@''}"
  by (auto simp: plain_def action_map_def split: if_splits)

lemma action_checks [simp]: "action_map (CHR '':'') = Some URI_PARSE_CHECK" "action_map (CHR ''@'') = Some URI_PARSE_CHECK"
  "action_map (CHR ''/'') = Some URI_PARSE_BREAK" "action_map (CHR ''?'') = Some URI_PARSE_BREAK"
  "action_map (CHR ''#'') = Some URI_PARSE_BREAK" "action_map (CHR 0x00) = Some URI_PARSE_BREAK"
  by (simp_all add: action_map_def)

lemma authority_skip:
  assumes "\<forall>c \<in> set seg. plain c \<or> c = CHR '':'' \<and> (\<not> ns \<or> at rest 0 \<noteq> Some (CHR ''/''))"
  shows "authority_loop (pre @ seg @ rest) (length pre) b ns nu u =
    authority_loop (pre @ seg @ rest) (length pre + length seg) b ns nu u"
  using assms
proof (induction seg arbitrary: pre)
  case (Cons c seg)
  let ?s = "pre @ (c # seg) @ rest"
  have "at ?s (length pre + 1) \<noteq> Some (CHR ''/'')" if "c = CHR '':''" "ns"
  proof (cases seg)
    case Nil
    then show ?thesis
      using Cons(2) that by (auto simp: plain_def)
  next
    case (Cons d seg')
    then show ?thesis
      using \<open>\<forall>c \<in> set (c # seg). _ c\<close> by (auto dest: plainD)
  qed
  then have "authority_loop ?s (length pre) b ns nu u = authority_loop ?s (Suc (length pre)) b ns nu u"
    using Cons(2) by (subst authority_loop.simps) (auto simp: plain_def)
  also have "\<dots> = authority_loop ?s (length pre + length (c # seg)) b ns nu u"
    using Cons(1) [of "pre @ [c]"] Cons(2) by simp
  finally show ?case .
qed simp

lemma authority_stop:
  assumes "at rest 0 \<in> {Some (CHR ''/''), Some (CHR ''?''), Some (CHR ''#''), Some (CHR 0x00)}"
  shows "authority_loop (pre @ rest) (length pre) b ns nu u = Some (Inr (u, length pre, b))"
  using assms by (subst authority_loop.simps) (auto simp: insert_iff)

lemma path_loop_stop:
  assumes "set seg \<inter> {CHR 0x00, CHR ''?'', CHR ''#'', CHR '' ''} = {}" "at rest 0 \<in> {Some (CHR ''?''), Some (CHR ''#''), Some (CHR 0x00)}"
  shows "path_loop (pre @ seg @ rest) (length pre) = Some (Inr (length pre + length seg))"
  using assms(1)
proof (induction seg arbitrary: pre)
  case Nil
  then show ?case
    using assms(2) by (subst path_loop.simps) auto
next
  case (Cons c seg)
  then show ?case
    using Cons(1) [of "pre @ [c]"] Cons(2) by (subst path_loop.simps) auto
qed

lemma query_loop_stop:
  assumes "set seg \<inter> {CHR 0x00, CHR ''#'', CHR '' ''} = {}" "at rest 0 \<in> {Some (CHR ''#''), Some (CHR 0x00)}"
  shows "query_loop (pre @ seg @ rest) (length pre) = Some (Inr (length pre + length seg))"
  using assms(1)
proof (induction seg arbitrary: pre)
  case Nil
  then show ?case
    using assms(2) by (subst query_loop.simps) auto
next
  case (Cons c seg)
  then show ?case
    using Cons(1) [of "pre @ [c]"] Cons(2) by (subst query_loop.simps) auto
qed

lemma fragment_loop_stop:
  assumes "set seg \<inter> {CHR 0x00, CHR '' ''} = {}"
  shows "fragment_loop (pre @ seg) (length pre) = Some (Inr (length pre + length seg))"
  using assms
proof (induction seg arbitrary: pre)
  case Nil
  then show ?case
    using at_simps(1) [of pre "[]"] by (subst fragment_loop.simps) auto
next
  case (Cons c seg)
  then show ?case
    using Cons(1) [of "pre @ [c]"] Cons(2) by (subst fragment_loop.simps) auto
qed

section \<open>The port\<close>

definition is_digit :: "char \<Rightarrow> bool" where
  "is_digit c \<longleftrightarrow> of_char c \<in> {48 .. 57 :: nat}"

definition digits_value :: "string \<Rightarrow> int" where
  "digits_value ds = foldl (\<lambda>v c. 10 * v + (of_char c - 48)) 0 ds"

lemma digits_value_snoc [simp]: "digits_value [] = 0" "digits_value (ds @ [c]) = 10 * digits_value ds + (of_char c - 48)"
  by (simp_all add: digits_value_def)

lemma digit_range: "is_digit c \<Longrightarrow> 0 \<le> (of_char c - 48 :: int) \<and> (of_char c - 48 :: int) \<le> 9"
  using of_nat_of_char [of c, where 'a = int] by (simp add: is_digit_def)

lemma pow10_bound: "k \<le> 9 \<Longrightarrow> (10 :: int) ^ k \<le> 1000000000"
  using power_increasing [of k 9 "10 :: int"] by simp

lemma split_digits:
  assumes "\<forall>c \<in> set ds. is_digit c" "length ds + k \<le> 9" "0 \<le> acc" "acc < 10 ^ k" "b < length pre"
  shows "split_loop (pre @ ds @ rest) b e (length pre + length ds) acc (10 ^ k) =
    split_loop (pre @ ds @ rest) b e (length pre) (acc + 10 ^ k * digits_value ds) (10 ^ (k + length ds))"
  using assms(1-4)
proof (induction ds arbitrary: acc k rest rule: rev_induct)
  case (snoc c ds)
  let ?d = "of_char c - 48 :: int"
  have d: "is_digit c" "0 \<le> ?d" "?d \<le> 9"
    using snoc(2) digit_range by simp_all
  have k: "(10 :: int) ^ Suc k \<le> 1000000000"
    using pow10_bound [of "Suc k"] snoc(3) by simp
  have i: "to_int x = Some x" "to_int (acc + x) = Some (acc + x)" "to_int (10 ^ k * 10) = Some (10 ^ Suc k)"
    "0 \<le> acc + x \<and> acc + x < 10 ^ Suc k" if "0 \<le> x" "x \<le> 9 * 10 ^ k" for x
    using k that snoc(4,5) by (simp_all add: to_int_def)
  note i = i [of "?d * 10 ^ k", OF mult_nonneg_nonneg [OF d(2)] mult_right_mono [OF d(3)], simplified]
  have "split_loop (pre @ (ds @ [c]) @ rest) b e (length pre + length (ds @ [c])) acc (10 ^ k) =
      split_loop (pre @ ds @ (c # rest)) b e (length pre + length ds) (acc + ?d * 10 ^ k) (10 ^ Suc k)"
    using d(1) i(1-3) assms(5) at_mid [of "pre @ ds" c rest] by (simp add: is_digit_def)
  also have "\<dots> = split_loop (pre @ ds @ (c # rest)) b e (length pre) (acc + ?d * 10 ^ k + 10 ^ Suc k * digits_value ds) (10 ^ (Suc k + length ds))"
    using snoc(1) [of "Suc k" "acc + ?d * 10 ^ k" "c # rest"] snoc(2,3) i(4) by simp
  finally show ?case
    by (simp add: algebra_simps)
qed simp

lemma split_port:
  assumes "\<forall>c \<in> set ds. is_digit c" "length ds \<le> 9" "h \<noteq> []"
  shows "splitHostAndPort (pre @ h @ CHR '':'' # ds @ rest) (length pre) (length pre + length h + Suc (length ds)) =
    Some (length pre + length h, digits_value ds)"
proof -
  let ?p = "pre @ h @ [CHR '':'']"
  have "at (pre @ h @ CHR '':'' # ds @ rest) (length pre + length h) = Some (CHR '':'')"
    using at_simps(2) [of "pre @ h" "CHR '':'' # ds @ rest" 0] by simp
  then show ?thesis
    using split_digits [of ds 0 0 "length pre" ?p rest] assms by (simp add: splitHostAndPort_def add.assoc)
qed

lemma split_no_port:
  assumes "\<forall>c \<in> set h. plain c" "length (takeWhile is_digit (rev h)) \<le> 9"
  shows "splitHostAndPort (pre @ h @ rest) (length pre) (length pre + length h) = Some (length pre + length h, -1)"
proof -
  define ds where "ds = rev (takeWhile is_digit (rev h))"
  define g where "g = rev (dropWhile is_digit (rev h))"
  have h: "h = g @ ds" "\<forall>c \<in> set ds. is_digit c" "length ds \<le> 9"
    using assms(2) arg_cong [OF takeWhile_dropWhile_id [of is_digit "rev h"], of rev]
    by (auto simp: ds_def g_def simp del: takeWhile_dropWhile_id dest: set_takeWhileD)
  show ?thesis
  proof (cases g rule: rev_cases)
    case Nil
    show ?thesis
    proof (cases ds)
      case Nil
      then show ?thesis
        using \<open>g = []\<close> h(1) by (cases "length pre") (simp_all add: splitHostAndPort_def)
    next
      case (Cons d ds')
      then show ?thesis
        using split_digits [of ds' 0 0 "length pre" "pre @ [d]" rest "length pre + length h"] h \<open>g = []\<close> by (simp add: splitHostAndPort_def)
    qed
  next
    case (snoc g' x)
    then have "dropWhile is_digit (rev h) = x # rev g'"
      by (simp add: g_def rev_swap)
    then have "\<not> is_digit x"
      using hd_dropWhile [of is_digit "rev h"] by simp
    moreover have "x \<noteq> CHR '':''"
      using assms(1) h(1) snoc plainD [of x] by auto
    moreover have "at (pre @ g' @ x # ds @ rest) (length pre + length g') = Some x"
      using at_simps(2) [of "pre @ g'" "x # ds @ rest" 0] by simp
    moreover have "splitHostAndPort (pre @ h @ rest) (length pre) (length pre + length h) =
        split_loop (pre @ h @ rest) (length pre) (length pre + length h) (length (pre @ g)) (digits_value ds) (10 ^ length ds)"
      using split_digits [of ds 0 0 "length pre" "pre @ g" rest "length pre + length h"] h snoc
      by (simp add: splitHostAndPort_def add.assoc del: split_loop.simps)
    ultimately show ?thesis
      using h(1) snoc by (auto simp: is_digit_def)
  qed
qed

lemma of_char_digit [simp]: "n < 10 \<Longrightarrow> (of_char (char_of (48 + n :: nat)) :: nat) = 48 + n"
  by simp

lemma digit_char: "n < 10 \<Longrightarrow> is_digit (char_of (48 + n :: nat)) \<and> (of_char (char_of (48 + n :: nat)) :: int) = 48 + int n"
  using of_nat_of_char [of "char_of (48 + n :: nat)", where 'a = int] by (simp add: is_digit_def)

lemma dec_digits: "(\<forall>c \<in> set (dec n). is_digit c) \<and> digits_value (dec n) = int n \<and> dec n \<noteq> []"
proof (induction n rule: dec.induct)
  case (1 n)
  show ?case
  proof (cases "n < 10")
    case True
    then show ?thesis
      using digit_char [of n] digits_value_snoc(2) [of "[]"] by (simp add: dec.simps [of n])
  next
    case False
    moreover have "10 * int (n div 10) + int (n mod 10) = int n"
      by presburger
    ultimately show ?thesis
      using 1 digit_char [of "n mod 10"] by (auto simp: dec.simps [of n])
  qed
qed

lemma dec_length: "n < 10 ^ Suc k \<Longrightarrow> length (dec n) \<le> Suc k"
proof (induction k arbitrary: n)
  case (Suc k)
  then show ?case
    using Suc(1) [of "n div 10"] by (simp add: dec.simps [of n] less_mult_imp_div_less)
qed (simp add: dec.simps)

section \<open>The text of a URI\<close>

definition schema_text :: "string \<Rightarrow> string" where
  "schema_text sc = (if sc = [] then [] else sc @ ''://'')"

definition user_text :: "string \<Rightarrow> string" where
  "user_text ui = (if ui = [] then [] else ui @ ''@'')"

definition port_text :: "int \<Rightarrow> string" where
  "port_text pt = (if pt = -1 then [] else CHR '':'' # dec (nat pt))"

definition query_text :: "string \<Rightarrow> string" where
  "query_text q = (if q = [] then [] else CHR ''?'' # q)"

definition fragment_text :: "string \<Rightarrow> string" where
  "fragment_text f = (if f = [] then [] else CHR ''#'' # f)"

definition uri_text :: "uri \<Rightarrow> string" where
  "uri_text u = schema_text (schema u) @ user_text (user_info u) @ host u @ port_text (port u) @
     path u @ query_text (query u) @ fragment_text (fragment u)"

text \<open>
  The URIs the text determines: no delimiter of a later part occurs in a part, a host with a port is not empty, and one
  without does not end in ten digits, which the code would read as a port.
\<close>

definition uri_ok :: "uri \<Rightarrow> bool" where
  "uri_ok u \<longleftrightarrow> (\<forall>c \<in> set (schema u). plain c) \<and> (\<forall>c \<in> set (user_info u). plain c \<or> c = CHR '':'') \<and> (\<forall>c \<in> set (host u). plain c) \<and>
     (if port u = -1 then length (takeWhile is_digit (rev (host u))) \<le> 9 else 0 \<le> port u \<and> port u < 10 ^ 9 \<and> host u \<noteq> []) \<and>
     (path u = [] \<or> hd (path u) = CHR ''/'' \<and> set (tl (path u)) \<inter> {CHR 0x00, CHR ''?'', CHR ''#'', CHR '' ''} = {}) \<and>
     set (query u) \<inter> {CHR 0x00, CHR ''#'', CHR '' ''} = {} \<and> set (fragment u) \<inter> {CHR 0x00, CHR '' ''} = {} \<and> parse_ok u"

lemma authority_schema:
  assumes "\<forall>c \<in> set sc. plain c"
  shows "authority_loop (schema_text sc @ rest) 0 0 True nu u =
    (if sc = [] then authority_loop rest 0 0 True nu u
     else authority_loop (schema_text sc @ rest) (length (schema_text sc)) (length (schema_text sc)) False nu (u\<lparr>schema := sc\<rparr>))"
proof -
  have "authority_loop (sc @ ''://'' @ rest) 0 0 True nu u = authority_loop (sc @ ''://'' @ rest) (length sc) 0 True nu u"
    using authority_skip [of sc True "''://'' @ rest" "[]"] assms by simp
  also have "\<dots> = authority_loop (sc @ ''://'' @ rest) (length sc + 3) (length sc + 3) False nu (u\<lparr>schema := sc\<rparr>)"
    using between_append [of "[]" sc "''://'' @ rest"]
    by (subst authority_loop.simps) (simp add: numeral_3_eq_3 numeral_2_eq_2)
  finally show ?thesis
    by (simp add: schema_text_def numeral_3_eq_3)
qed

lemma authority_user:
  assumes "\<forall>c \<in> set ui. plain c \<or> c = CHR '':''" "ui \<noteq> []"
  shows "authority_loop (pre @ user_text ui @ rest) (length pre) (length pre) ns True u =
    authority_loop (pre @ user_text ui @ rest) (length pre + length (user_text ui)) (length pre + length (user_text ui)) ns False (u\<lparr>user_info := ui\<rparr>)"
proof -
  have "authority_loop (pre @ ui @ CHR ''@'' # rest) (length pre) (length pre) ns True u =
      authority_loop (pre @ ui @ CHR ''@'' # rest) (length pre + length ui) (length pre) ns True u"
    using authority_skip [of ui ns "CHR ''@'' # rest" pre] assms(1) by auto
  also have "\<dots> = authority_loop (pre @ ui @ CHR ''@'' # rest) (length pre + length ui + 1) (length pre + length ui + 1) ns False (u\<lparr>user_info := ui\<rparr>)"
    using at_mid [of "pre @ ui" "CHR ''@''" rest] between_append [of pre ui "CHR ''@'' # rest"]
    by (subst authority_loop.simps) simp
  finally show ?thesis
    using assms(2) by (simp add: user_text_def)
qed

lemma digit_plain: "is_digit c \<Longrightarrow> plain c"
  by (auto simp: is_digit_def plain_def action_map_def)

lemma authority_host:
  assumes "\<forall>c \<in> set h. plain c" "at rest 0 \<in> {Some (CHR ''/''), Some (CHR ''?''), Some (CHR ''#''), Some (CHR 0x00)}"
  shows "authority_loop (pre @ h @ port_text pt @ rest) (length pre) b ns nu u =
    Some (Inr (u, length pre + length h + length (port_text pt), b))"
proof (cases "pt = -1")
  case True
  then show ?thesis
    using authority_skip [of h ns rest pre] authority_stop [OF assms(2), of "pre @ h"] assms(1) by (simp add: port_text_def)
next
  case False
  let ?ds = "dec (nat pt)"
  have "at (?ds @ rest) 0 \<noteq> Some (CHR ''/'')" "\<forall>c \<in> set ?ds. plain c"
    using dec_digits [of "nat pt"] digit_plain plainD by (cases ?ds; force)+
  then show ?thesis
    using authority_skip [of "h @ '':''" ns "?ds @ rest" pre] authority_skip [of ?ds ns rest "pre @ h @ '':''"]
      authority_stop [OF assms(2), of "pre @ h @ CHR '':'' # ?ds"] assms(1) False by (simp add: port_text_def add.assoc)
qed

lemma parse_fragment_text:
  assumes "set f \<inter> {CHR 0x00, CHR '' ''} = {}"
  shows "parse_fragment (pre @ fragment_text f) (length pre) u = Some (if f = [] then u else u\<lparr>fragment := f\<rparr>)"
  using fragment_loop_stop [OF assms, of "pre @ ''#''"] between_append [of "pre @ ''#''" f "[]"] at_simps(1) [of pre "[]"]
  by (simp add: parse_fragment_def fragment_text_def)

lemma parse_query_text:
  assumes "set q \<inter> {CHR 0x00, CHR ''#'', CHR '' ''} = {}" "set f \<inter> {CHR 0x00, CHR '' ''} = {}"
  shows "parse_query (pre @ query_text q @ fragment_text f) (length pre) u =
    Some (u\<lparr>query := if q = [] then query u else q, fragment := if f = [] then fragment u else f\<rparr>)"
proof (cases "q = []")
  case True
  then show ?thesis
    using parse_fragment_text [OF assms(2), of pre u]
    by (cases "f = []") (simp_all add: parse_query_def query_text_def fragment_text_def)
next
  case False
  have "at (fragment_text f) 0 \<in> {Some (CHR ''#''), Some (CHR 0x00)}"
    by (simp add: fragment_text_def)
  then show ?thesis
    using False query_loop_stop [OF assms(1), of "fragment_text f" "pre @ ''?''"] between_append [of "pre @ ''?''" q "fragment_text f"]
      parse_fragment_text [OF assms(2), of "pre @ CHR ''?'' # q" "u\<lparr>query := q\<rparr>"] by (simp add: parse_query_def query_text_def)
qed

lemma parse_path_text:
  assumes "pa = [] \<or> hd pa = CHR ''/'' \<and> set (tl pa) \<inter> {CHR 0x00, CHR ''?'', CHR ''#'', CHR '' ''} = {}"
    "set q \<inter> {CHR 0x00, CHR ''#'', CHR '' ''} = {}" "set f \<inter> {CHR 0x00, CHR '' ''} = {}" "path u = []"
  shows "parse_path (pre @ pa @ query_text q @ fragment_text f) (length pre) u =
    Some (u\<lparr>path := pa, query := if q = [] then query u else q, fragment := if f = [] then fragment u else f\<rparr>)"
proof (cases pa)
  case Nil
  have "u\<lparr>path := []\<rparr> = u"
    by (rule uri.equality) (simp_all add: assms(4))
  moreover obtain c where "at (query_text q @ fragment_text f) 0 = Some c" "c \<noteq> CHR ''/''"
    by (cases "q = []"; cases "f = []") (simp_all add: query_text_def fragment_text_def)
  ultimately show ?thesis
    using Nil parse_query_text [OF assms(2,3), of pre u] by (simp add: parse_path_def)
next
  case (Cons c qa)
  let ?r = "query_text q @ fragment_text f"
  have c: "c = CHR ''/''" "set qa \<inter> {CHR 0x00, CHR ''?'', CHR ''#'', CHR '' ''} = {}"
    using Cons assms(1) by simp_all
  have "at ?r 0 \<in> {Some (CHR ''?''), Some (CHR ''#''), Some (CHR 0x00)}"
    by (cases "q = []"; cases "f = []") (simp_all add: query_text_def fragment_text_def)
  from path_loop_stop [OF c(2) this, of "pre @ [c]"]
  have "path_loop (pre @ pa @ ?r) (Suc (length pre)) = Some (Inr (length pre + length pa))"
    using Cons by simp
  moreover have "at (pre @ pa @ ?r) (length pre) = Some (CHR ''/'')"
    using Cons c(1) by simp
  moreover have "parse_query (pre @ pa @ ?r) (length pre + length pa) (u\<lparr>path := pa\<rparr>) =
      Some (u\<lparr>path := pa, query := if q = [] then query u else q, fragment := if f = [] then fragment u else f\<rparr>)"
    using parse_query_text [OF assms(2,3), of "pre @ pa" "u\<lparr>path := pa\<rparr>"] by simp
  ultimately show ?thesis
    by (simp add: parse_path_def between_append del: at_simps)
qed

lemma split_text:
  assumes "uri_ok u"
  shows "splitHostAndPort (pre @ host u @ port_text (port u) @ rest) (length pre) (length pre + length (host u) + length (port_text (port u))) =
    Some (length pre + length (host u), port u)"
proof (cases "port u = -1")
  case True
  then show ?thesis
    using split_no_port [of "host u" pre rest] assms by (simp add: uri_ok_def port_text_def)
next
  case False
  then have p: "0 \<le> port u" "port u < 10 ^ 9" "host u \<noteq> []"
    using assms by (simp_all add: uri_ok_def)
  obtain n where n: "port u = int n"
    using p(1) by (metis nonneg_int_cases)
  then have "length (dec n) \<le> 9"
    using p(2) dec_length [of n 8] by simp
  then show ?thesis
    using split_port [of "dec n" "host u" pre rest] dec_digits [of n] p(3) n by (simp add: port_text_def)
qed

lemma at_in_set: "at s p = Some c \<Longrightarrow> c \<in> set s \<or> c = CHR 0x00"
  by (auto simp: at_def split: if_splits)

lemma text_no_space:
  assumes "uri_ok u"
  shows "CHR '' '' \<notin> set (uri_text u)"
proof -
  have sp: "\<not> plain (CHR '' '')"
    by (simp add: plain_def action_map_def)
  then have "CHR '' '' \<notin> set (schema u)" "CHR '' '' \<notin> set (user_info u)" "CHR '' '' \<notin> set (host u)"
    "CHR '' '' \<notin> set (query u)" "CHR '' '' \<notin> set (fragment u)"
    using assms by (auto simp: uri_ok_def)
  moreover have "CHR '' '' \<notin> set (path u)"
    using assms by (cases "path u") (auto simp: uri_ok_def)
  moreover have "CHR '' '' \<notin> set (dec (nat (port u)))"
    using dec_digits [of "nat (port u)"] digit_plain sp by blast
  ultimately show ?thesis
    by (simp add: uri_text_def schema_text_def user_text_def port_text_def query_text_def fragment_text_def)
qed

lemma skip_no_space: "CHR '' '' \<notin> set s \<Longrightarrow> skip_spaces s 0 = 0"
  using at_in_set [of s 0 "CHR '' ''"] by (cases "at s 0 = Some (CHR '' '')") (simp_all add: skip_spaces.simps [of s 0])

lemma clear_parts: "schema (clear_uri u) = []" "user_info (clear_uri u) = []"
  by (simp_all add: clear_uri_def)

lemma empty_update: "schema u = [] \<Longrightarrow> u\<lparr>schema := []\<rparr> = u" "user_info u = [] \<Longrightarrow> u\<lparr>user_info := []\<rparr> = u" for u :: uri
  by (rule uri.equality; simp)+

lemma authority_text:
  assumes "uri_ok u" "schema u0 = []" "user_info u0 = []"
  shows "authority_loop (uri_text u) 0 0 True True u0 =
    Some (Inr (u0\<lparr>schema := schema u, user_info := user_info u\<rparr>,
      length (schema_text (schema u) @ user_text (user_info u)) + length (host u) + length (port_text (port u)),
      length (schema_text (schema u) @ user_text (user_info u))))"
proof -
  let ?s = "schema_text (schema u)" and ?t = "user_text (user_info u)"
  let ?R = "path u @ query_text (query u) @ fragment_text (fragment u)"
  let ?u1 = "u0\<lparr>schema := schema u\<rparr>" and ?u2 = "u0\<lparr>schema := schema u, user_info := user_info u\<rparr>"
  have "at ?R 0 \<in> {Some (CHR ''/''), Some (CHR ''?''), Some (CHR ''#''), Some (CHR 0x00)}"
    using assms(1) by (cases "path u") (auto simp: uri_ok_def query_text_def fragment_text_def)
  note h = authority_host [OF _ this, of "host u" "?s @ ?t"]
  have "authority_loop (uri_text u) 0 0 True True u0 = authority_loop (uri_text u) (length ?s) (length ?s) (schema u = []) True ?u1"
    using authority_schema [of "schema u" "?t @ host u @ port_text (port u) @ ?R" True u0] assms(1,2)
    by (cases "schema u = []") (simp_all add: uri_ok_def uri_text_def schema_text_def empty_update)
  also have "\<dots> = authority_loop (uri_text u) (length (?s @ ?t)) (length (?s @ ?t)) (schema u = []) (user_info u = []) ?u2"
    using authority_user [of "user_info u" ?s "host u @ port_text (port u) @ ?R" "schema u = []" ?u1] assms(1,3)
    by (cases "user_info u = []") (simp_all add: uri_ok_def uri_text_def user_text_def empty_update)
  also have "\<dots> = Some (Inr (?u2, length (?s @ ?t) + length (host u) + length (port_text (port u)), length (?s @ ?t)))"
    using h assms(1) by (simp add: uri_ok_def uri_text_def)
  finally show ?thesis .
qed

lemma split_loop_range:
  assumes "split_loop s b e q pt (10 ^ k) = Some (e', pt')" "0 \<le> pt" "pt < 10 ^ k" "k \<le> 9"
  shows "-1 \<le> pt' \<and> pt' < 10 ^ 9"
  using assms
proof (induction q arbitrary: pt k)
  case (Suc q)
  note bound = pow10_bound [OF Suc(5)]
  show ?case
  proof (cases "\<exists>c. at s q = Some c \<and> is_digit c \<and> b < q")
    case True
    then obtain c d where c: "at s q = Some c" "is_digit c" "b < q" "d = (of_char c - 48) * (10 :: int) ^ k"
      "to_int (10 ^ k * 10) = Some (10 ^ k * 10)" "split_loop s b e q (pt + d) (10 ^ k * 10) = Some (e', pt')"
      using Suc(2) by (auto simp: is_digit_def to_int_def split: if_splits)
    have "(0 :: int) \<le> d" "d \<le> 9 * 10 ^ k"
      using c(4) digit_range [OF c(2)] by (auto intro: mult_right_mono)
    moreover have "Suc k \<le> 9"
    proof (rule ccontr)
      assume "\<not> Suc k \<le> 9"
      then have "(10 :: int) ^ 10 \<le> 10 ^ Suc k"
        by (intro power_increasing) simp_all
      then show False
        using c(5) by (simp add: to_int_def split: if_splits)
    qed
    ultimately show ?thesis
      using Suc(1) [OF c(6) [folded power_Suc2]] Suc(3,4) by simp
  next
    case False
    then show ?thesis
      using Suc(2-4) bound by (auto simp: is_digit_def split: if_splits)
  qed
qed simp

section \<open>The text of what was parsed\<close>

lemma take_between: "b \<le> e \<Longrightarrow> take e s = take b s @ between s b e"
  using take_add [of b "e - b" s] by (simp add: between_def)

lemma drop_between: "b \<le> e \<Longrightarrow> drop b s = between s b e @ drop e s"
  using append_take_drop_id [of "e - b" "drop b s"] by (simp add: between_def del: append_take_drop_id)

lemma between_same [simp]: "between s b b = []"
  by (simp add: between_def)

lemma between_snoc: "b \<le> p \<Longrightarrow> p < length s \<Longrightarrow> between s b (Suc p) = between s b p @ [s ! p]"
  by (simp add: between_def Suc_diff_le take_Suc_conv_app_nth)

lemma between_Cons: "p < q \<Longrightarrow> p < length s \<Longrightarrow> between s p q = s ! p # between s (Suc p) q"
  by (simp add: between_def Cons_nth_drop_Suc [symmetric] Suc_diff_Suc take_Cons')

lemma between_prefix: "b \<le> e \<Longrightarrow> e \<le> q \<Longrightarrow> between s b q = between s b e @ between s e q"
  using take_add [of "e - b" "q - e" "drop b s"] by (simp add: between_def)

lemma at_some: "at s p = Some c \<Longrightarrow> c \<noteq> CHR 0x00 \<Longrightarrow> p < length s \<and> s ! p = c"
  by (auto simp: at_def split: if_splits)

lemma at_drop: "at s p = Some c \<Longrightarrow> (drop p s = [] \<and> c = CHR 0x00) \<or> drop p s = c # drop (Suc p) s"
  by (auto simp: at_def Cons_nth_drop_Suc split: if_splits)

lemma skip_spaces_spec: "p \<le> length s \<Longrightarrow> p \<le> skip_spaces s p \<and> skip_spaces s p \<le> length s \<and> set (between s p (skip_spaces s p)) \<subseteq> {CHR '' ''}"
proof (induction s p rule: skip_spaces.induct)
  case (1 s p)
  show ?case
  proof (cases "at s p = Some (CHR '' '')")
    case True
    then have p: "p < length s" "s ! p = CHR '' ''"
      using at_some by auto
    then have "Suc p \<le> skip_spaces s (Suc p)" "skip_spaces s (Suc p) \<le> length s" "set (between s (Suc p) (skip_spaces s (Suc p))) \<subseteq> {CHR '' ''}"
      using 1(1) [OF True] by simp_all
    then show ?thesis
      using True p between_Cons [of p "skip_spaces s (Suc p)" s] by (simp add: skip_spaces.simps [of s p])
  qed (use 1(2) in \<open>simp add: skip_spaces.simps [of s p]\<close>)
qed

text \<open>
  What stands before the host: the schema with \<^verbatim>\<open>://\<close> and the user info with \<^verbatim>\<open>@\<close>, each only if it was found, in either order.
\<close>

definition authority_prefix :: "bool \<Rightarrow> bool \<Rightarrow> uri \<Rightarrow> string \<Rightarrow> bool" where
  "authority_prefix ns nu u A \<longleftrightarrow> (ns \<longrightarrow> schema u = []) \<and> (nu \<longrightarrow> user_info u = []) \<and>
     (let S = (if ns then [] else schema u @ ''://''); U = (if nu then [] else user_info u @ ''@'') in A = S @ U \<or> A = U @ S)"

definition ends_authority :: "char set" where
  "ends_authority = {CHR 0x00, CHR ''#'', CHR ''/'', CHR ''?'', CHR '' ''}"

definition authority_at :: "string \<Rightarrow> string \<Rightarrow> nat \<Rightarrow> nat \<Rightarrow> bool \<Rightarrow> bool \<Rightarrow> uri \<Rightarrow> bool" where
  "authority_at s sp p b ns nu u \<longleftrightarrow> b \<le> p \<and> p \<le> length s \<and> set (between s b p) \<inter> ends_authority = {} \<and>
     (\<exists>A. take b s = sp @ A \<and> authority_prefix ns nu u A)"

lemma authority_at_Suc:
  assumes "authority_at s sp p b ns nu u" "at s p = Some c" "c \<notin> ends_authority"
  shows "authority_at s sp (Suc p) b ns nu u"
proof -
  have "p < length s" "s ! p = c"
    using at_some [OF assms(2)] assms(3) by (auto simp: ends_authority_def)
  then show ?thesis
    using assms(1,3) between_snoc [of b p s] by (simp add: authority_at_def)
qed

lemma authority_at_schema:
  assumes "authority_at s sp p b True nu u" "at s p = Some (CHR '':'')" "at s (p + 1) = Some (CHR ''/'')" "at s (p + 2) = Some (CHR ''/'')"
  shows "authority_at s sp (p + 3) (p + 3) False nu (u\<lparr>schema := between s b p\<rparr>)"
proof -
  have len: "p + 2 < length s" and c: "s ! p = CHR '':''" "s ! (p + 1) = CHR ''/''" "s ! (p + 2) = CHR ''/''"
    using assms(2-4) [THEN at_some] by simp_all
  have "between s p (p + 3) = ''://''"
    using len c between_Cons [of p "p + 3" s] between_Cons [of "p + 1" "p + 3" s] between_Cons [of "p + 2" "p + 3" s] by (simp add: numeral_3_eq_3)
  moreover obtain A where "take b s = sp @ A" "authority_prefix True nu u A" "b \<le> p"
    using assms(1) by (auto simp: authority_at_def)
  ultimately show ?thesis
    using len take_between [of b p s] take_between [of p "p + 3" s] by (auto simp: authority_at_def authority_prefix_def Let_def)
qed

lemma authority_at_user:
  assumes "authority_at s sp p b ns True u" "at s p = Some (CHR ''@'')"
  shows "authority_at s sp (Suc p) (p + 1) ns False (u\<lparr>user_info := between s b p\<rparr>)"
proof -
  have len: "p < length s" and c: "s ! p = CHR ''@''"
    using assms(2) [THEN at_some] by simp_all
  have "between s p (p + 1) = ''@''"
    using len c between_Cons [of p "p + 1" s] by simp
  moreover obtain A where "take b s = sp @ A" "authority_prefix ns True u A" "b \<le> p"
    using assms(1) by (auto simp: authority_at_def)
  ultimately show ?thesis
    using len take_between [of b p s] take_between [of p "p + 1" s] by (auto simp: authority_at_def authority_prefix_def Let_def)
qed

lemma authority_loop_spec:
  assumes "authority_loop s p b ns nu u = Some (Inr (v, q, e))" "authority_at s sp p b ns nu u"
  shows "(\<exists>ns nu. authority_at s sp q e ns nu v) \<and> (\<exists>c \<in> ends_authority. at s q = Some c) \<and>
    path v = path u \<and> query v = query u \<and> fragment v = fragment u"
  using assms
proof (induction s p b ns nu u rule: authority_loop.induct)
  case (1 s p b ns nu u)
  obtain c a where ca: "at s p = Some c" "action_map c = Some a"
    using 1(6) by (subst (asm) authority_loop.simps) (simp split: option.splits)
  note step = authority_loop.simps [of s p b ns nu u]
  show ?case
  proof (cases a)
    case URI_PARSE_CONTINUE
    moreover from this have "c \<notin> ends_authority"
      using plainD [of c] ca(2) by (auto simp: plain_def ends_authority_def)
    ultimately show ?thesis
      using 1(1) [OF ca(1)] ca 1(6) step authority_at_Suc [OF 1(7) ca(1)] by simp
  next
    case URI_PARSE_BREAK
    moreover from this have "c \<in> ends_authority"
      using ca(2) by (auto simp: action_map_def ends_authority_def split: if_splits)
    ultimately show ?thesis
      using ca 1(6,7) step by auto
  next
    case URI_PARSE_CHECK
    then consider "c = CHR '':''" "at s (p + 1) = Some (CHR ''/'')" "at s (p + 2) = Some (CHR ''/'')" "ns"
      | "c = CHR '':''" "\<not> (at s (p + 1) = Some (CHR ''/'') \<and> at s (p + 2) = Some (CHR ''/'') \<and> ns)"
      | "c = CHR ''@''" "nu" | "c = CHR ''@''" "\<not> nu" | "c = CHR '' ''"
      using ca(2) by (auto simp: action_map_def split: if_splits)
    then show ?thesis
    proof cases
      case 1
      then show ?thesis
        using "1.IH"(2) [OF ca(1)] ca URI_PARSE_CHECK "1.prems" step authority_at_schema [of s sp p b nu u] by (simp add: numeral_3_eq_3)
    next
      case 2
      then show ?thesis
        using "1.IH"(3) [OF ca(1)] ca URI_PARSE_CHECK "1.prems" step authority_at_Suc [OF "1.prems"(2) ca(1)] by (auto simp: ends_authority_def split: if_splits)
    next
      case 3
      then show ?thesis
        using "1.IH"(4) [OF ca(1)] ca URI_PARSE_CHECK "1.prems" step authority_at_user [of s sp p b ns u] by simp
    next
      case 4
      then show ?thesis
        using "1.IH"(5) [OF ca(1)] ca URI_PARSE_CHECK "1.prems" step authority_at_Suc [OF "1.prems"(2) ca(1)] by (simp add: ends_authority_def)
    next
      case 5
      then show ?thesis
        using ca URI_PARSE_CHECK "1.prems" step by (auto simp: ends_authority_def split: option.splits bool.splits)
    qed
  qed
qed

lemma authority_loop_fails: "authority_loop s p b ns nu u = Some (Inl v) \<Longrightarrow> \<not> parse_ok v"
proof (induction s p b ns nu u rule: authority_loop.induct)
  case (1 s p b ns nu u)
  obtain c a where ca: "at s p = Some c" "action_map c = Some a"
    using 1(6) by (subst (asm) authority_loop.simps) (simp split: option.splits)
  note step = authority_loop.simps [of s p b ns nu u]
  show ?case
  proof (cases a)
    case URI_PARSE_CONTINUE
    then show ?thesis
      using 1(1) [OF ca(1)] ca 1(6) step by simp
  next
    case URI_PARSE_BREAK
    then show ?thesis
      using ca 1(6) step by simp
  next
    case URI_PARSE_CHECK
    then show ?thesis
      using 1(2-5) [OF ca(1)] ca 1(6) step by (auto split: if_splits option.splits bool.splits)
  qed
qed

text \<open>The port stands behind a colon, in decimal.\<close>

lemma digits_value_Cons: "digits_value (c # ds) = (of_char c - 48) * 10 ^ length ds + digits_value ds"
proof (induction ds rule: rev_induct)
  case Nil
  show ?case
    using digits_value_snoc(2) [of "[]" c] by simp
next
  case (snoc d ds)
  then show ?case
    using digits_value_snoc(2) [of "c # ds" d] by (simp add: algebra_simps)
qed

definition port_part :: "int \<Rightarrow> string \<Rightarrow> bool" where
  "port_part pt P \<longleftrightarrow> P = [] \<and> pt = -1 \<or> (\<exists>ds. P = CHR '':'' # ds \<and> (\<forall>c \<in> set ds. is_digit c) \<and> pt = digits_value ds)"

lemma split_loop_spec:
  assumes "split_loop s b e q (digits_value (between s q e)) (10 ^ (e - q)) = Some (e', pt)" "q \<le> e" "e \<le> length s" "b \<le> e"
    "\<forall>c \<in> set (between s q e). is_digit c"
  shows "b \<le> e' \<and> e' \<le> e \<and> port_part pt (between s e' e)"
  using assms
proof (induction q)
  case (Suc q)
  then have q: "q < length s" "between s q e = s ! q # between s (Suc q) e" "at s q = Some (s ! q)"
    using between_Cons [of q e s] by (simp_all add: at_def)
  have l: "length (between s (Suc q) e) = e - Suc q" "e - q = Suc (e - Suc q)"
    using Suc.prems(2,3) by (simp_all add: between_def)
  show ?case
  proof (cases "b < q")
    case False
    then show ?thesis
      using Suc.prems by (simp add: port_part_def)
  next
    case b: True
    consider "is_digit (s ! q)" | "s ! q = CHR '':''" | "\<not> is_digit (s ! q)" "s ! q \<noteq> CHR '':''"
      by blast
    then show ?thesis
    proof cases
      case 1
      have "split_loop s b e q (digits_value (between s q e)) (10 ^ (e - q)) = Some (e', pt)"
        using Suc.prems(1) q(2,3) b 1 l digits_value_Cons [of "s ! q" "between s (Suc q) e"]
        by (auto simp: is_digit_def to_int_def algebra_simps split: if_splits)
      then show ?thesis
        using Suc.IH Suc.prems(2-5) q(2) 1 by simp
    next
      case 2
      then show ?thesis
        using Suc.prems b q(2,3) by (auto simp: port_part_def)
    next
      case 3
      then show ?thesis
        using Suc.prems b q(3) by (auto simp: port_part_def is_digit_def)
    qed
  qed
qed (simp add: port_part_def)

lemma split_spec:
  assumes "splitHostAndPort s b e = Some (e', pt)" "b \<le> e" "e \<le> length s"
  shows "b \<le> e' \<and> e' \<le> e \<and> port_part pt (between s e' e)"
  using split_loop_spec [of s b e e e' pt] assms by (simp add: splitHostAndPort_def)

text \<open>The loops of the other parts stop at the first of their delimiters.\<close>

lemma path_loop_spec:
  assumes "path_loop s p = Some (Inr q)" "p \<le> length s"
  shows "p \<le> q \<and> q \<le> length s \<and> set (between s p q) \<inter> {CHR 0x00, CHR ''?'', CHR ''#'', CHR '' ''} = {} \<and>
    (\<exists>c \<in> {CHR 0x00, CHR ''?'', CHR ''#'', CHR '' ''}. at s q = Some c)"
  using assms
proof (induction s p rule: path_loop.induct)
  case (1 s p)
  obtain c where c: "at s p = Some c"
    using 1(2) by (subst (asm) path_loop.simps) (simp split: option.splits)
  show ?case
  proof (cases "c \<in> {CHR 0x00, CHR ''?'', CHR ''#'', CHR '' ''}")
    case True
    then have "q = p"
      using 1(2) c by (subst (asm) path_loop.simps) (auto split: if_splits bind_splits)
    then show ?thesis
      using True 1(3) c by auto
  next
    case False
    then have "path_loop s (Suc p) = Some (Inr q)" and p: "p < length s" "s ! p = c"
      using 1(2) c at_some [OF c] by (auto simp: path_loop.simps [of s p])
    then show ?thesis
      using 1(1) [OF c] False between_Cons [of p q s] by auto
  qed
qed

lemma query_loop_spec:
  assumes "query_loop s p = Some (Inr q)" "p \<le> length s"
  shows "p \<le> q \<and> q \<le> length s \<and> set (between s p q) \<inter> {CHR 0x00, CHR ''#'', CHR '' ''} = {} \<and>
    (\<exists>c \<in> {CHR 0x00, CHR ''#'', CHR '' ''}. at s q = Some c)"
  using assms
proof (induction s p rule: query_loop.induct)
  case (1 s p)
  obtain c where c: "at s p = Some c"
    using 1(2) by (subst (asm) query_loop.simps) (simp split: option.splits)
  show ?case
  proof (cases "c \<in> {CHR 0x00, CHR ''#'', CHR '' ''}")
    case True
    then have "q = p"
      using 1(2) c by (subst (asm) query_loop.simps) (auto split: if_splits bind_splits)
    then show ?thesis
      using True 1(3) c by auto
  next
    case False
    then have "query_loop s (Suc p) = Some (Inr q)" and p: "p < length s" "s ! p = c"
      using 1(2) c at_some [OF c] by (auto simp: query_loop.simps [of s p])
    then show ?thesis
      using 1(1) [OF c] False between_Cons [of p q s] by auto
  qed
qed

lemma fragment_loop_spec:
  assumes "fragment_loop s p = Some (Inr q)" "p \<le> length s"
  shows "p \<le> q \<and> q \<le> length s \<and> set (between s p q) \<inter> {CHR 0x00, CHR '' ''} = {} \<and>
    (\<exists>c \<in> {CHR 0x00, CHR '' ''}. at s q = Some c)"
  using assms
proof (induction s p rule: fragment_loop.induct)
  case (1 s p)
  obtain c where c: "at s p = Some c"
    using 1(2) by (subst (asm) fragment_loop.simps) (simp split: option.splits)
  show ?case
  proof (cases "c \<in> {CHR 0x00, CHR '' ''}")
    case True
    then have "q = p"
      using 1(2) c by (subst (asm) fragment_loop.simps) (auto split: if_splits bind_splits)
    then show ?thesis
      using True 1(3) c by auto
  next
    case False
    then have "fragment_loop s (Suc p) = Some (Inr q)" and p: "p < length s" "s ! p = c"
      using 1(2) c at_some [OF c] by (auto simp: fragment_loop.simps [of s p])
    then show ?thesis
      using 1(1) [OF c] False between_Cons [of p q s] by auto
  qed
qed

text \<open>A part that the text has behind its delimiter, or has not; then the object keeps what it held.\<close>

definition optional_part :: "char \<Rightarrow> string \<Rightarrow> string \<Rightarrow> string \<Rightarrow> bool" where
  "optional_part c old new X \<longleftrightarrow> X = [] \<and> new = old \<or> X = c # new"

definition rest_of_text :: "string \<Rightarrow> bool" where
  "rest_of_text t \<longleftrightarrow> t = [] \<or> hd t \<in> {CHR 0x00, CHR '' ''}"

lemma parse_fragment_spec:
  assumes "parse_fragment s p u = Some u'" "parse_ok u'" "\<exists>c \<in> {CHR 0x00, CHR ''#'', CHR '' ''}. at s p = Some c"
  obtains F t where "drop p s = F @ t" "optional_part (CHR ''#'') (fragment u) (fragment u') F" "rest_of_text t"
    "F \<noteq> [] \<longrightarrow> set (fragment u') \<inter> {CHR 0x00, CHR '' ''} = {}" "u' = u\<lparr>fragment := fragment u'\<rparr>"
proof -
  obtain c where c: "c \<in> {CHR 0x00, CHR ''#'', CHR '' ''}" "at s p = Some c"
    using assms(3) by blast
  show ?thesis
  proof (cases "c = CHR ''#''")
    case True
    then have d: "drop p s = c # drop (Suc p) s" "Suc p \<le> length s"
      using at_drop [OF c(2)] at_some [OF c(2)] by auto
    obtain q where q: "fragment_loop s (Suc p) = Some (Inr q)" "u' = u\<lparr>fragment := between s (Suc p) q\<rparr>"
      using assms(1,2) c True by (cases "fragment_loop s (Suc p)"; cases "the (fragment_loop s (Suc p))") (auto simp: parse_fragment_def)
    note f = fragment_loop_spec [OF q(1) d(2)]
    have "rest_of_text (drop q s)"
      using f at_drop [of s q] by (auto simp: rest_of_text_def)
    then show ?thesis
      using f d(1) q(2) drop_between [of "Suc p" q s] True
      by (intro that [of "c # between s (Suc p) q" "drop q s"]) (auto simp: optional_part_def)
  next
    case False
    then have "u' = u"
      using assms(1) c by (simp add: parse_fragment_def)
    then show ?thesis
      using that [of "[]" "drop p s"] at_drop [OF c(2)] c(1) False by (auto simp: optional_part_def rest_of_text_def)
  qed
qed

lemma parse_query_spec:
  assumes "parse_query s p u = Some u'" "parse_ok u'" "\<exists>c \<in> {CHR 0x00, CHR ''?'', CHR ''#'', CHR '' ''}. at s p = Some c"
  obtains Q F t where "drop p s = Q @ F @ t" "optional_part (CHR ''?'') (query u) (query u') Q"
    "optional_part (CHR ''#'') (fragment u) (fragment u') F" "rest_of_text t"
    "Q \<noteq> [] \<longrightarrow> set (query u') \<inter> {CHR 0x00, CHR ''#'', CHR '' ''} = {}"
    "F \<noteq> [] \<longrightarrow> set (fragment u') \<inter> {CHR 0x00, CHR '' ''} = {}" "u' = u\<lparr>query := query u', fragment := fragment u'\<rparr>"
proof -
  obtain c where c: "c \<in> {CHR 0x00, CHR ''?'', CHR ''#'', CHR '' ''}" "at s p = Some c"
    using assms(3) by blast
  show ?thesis
  proof (cases "c = CHR ''?''")
    case True
    then have d: "drop p s = c # drop (Suc p) s" "Suc p \<le> length s"
      using at_drop [OF c(2)] at_some [OF c(2)] by auto
    obtain q where q: "query_loop s (Suc p) = Some (Inr q)" "parse_fragment s q (u\<lparr>query := between s (Suc p) q\<rparr>) = Some u'"
      using assms(1,2) c True by (cases "query_loop s (Suc p)"; cases "the (query_loop s (Suc p))") (auto simp: parse_query_def)
    note f = query_loop_spec [OF q(1) d(2)]
    obtain F t where F: "drop q s = F @ t" "optional_part (CHR ''#'') (fragment u) (fragment u') F" "rest_of_text t"
      "F \<noteq> [] \<longrightarrow> set (fragment u') \<inter> {CHR 0x00, CHR '' ''} = {}" "u' = u\<lparr>query := between s (Suc p) q, fragment := fragment u'\<rparr>"
      by (rule parse_fragment_spec [OF q(2) assms(2)]) (use f in auto)
    have "query u' = between s (Suc p) q"
      using arg_cong [OF F(5), of query] by simp
    then show ?thesis
      using f d(1) F drop_between [of "Suc p" q s] True
      by (intro that [of "c # between s (Suc p) q" F t]) (auto simp: optional_part_def)
  next
    case False
    then have e: "parse_fragment s p u = Some u'"
      using assms(1) c by (simp add: parse_query_def)
    obtain F t where F: "drop p s = F @ t" "optional_part (CHR ''#'') (fragment u) (fragment u') F" "rest_of_text t"
      "F \<noteq> [] \<longrightarrow> set (fragment u') \<inter> {CHR 0x00, CHR '' ''} = {}" "u' = u\<lparr>fragment := fragment u'\<rparr>"
      by (rule parse_fragment_spec [OF e assms(2)]) (use c False in auto)
    moreover have "query u' = query u"
      using arg_cong [OF F(5), of query] by simp
    ultimately show ?thesis
      by (intro that [of "[]" F t]) (auto simp: optional_part_def)
  qed
qed

lemma parse_path_spec:
  assumes "parse_path s p u = Some u'" "parse_ok u'" "\<exists>c \<in> ends_authority. at s p = Some c" "path u = []"
  obtains Q F t where "drop p s = path u' @ Q @ F @ t" "optional_part (CHR ''?'') (query u) (query u') Q"
    "optional_part (CHR ''#'') (fragment u) (fragment u') F" "rest_of_text t"
    "path u' = [] \<or> hd (path u') = CHR ''/'' \<and> set (tl (path u')) \<inter> {CHR 0x00, CHR ''?'', CHR ''#'', CHR '' ''} = {}"
    "Q \<noteq> [] \<longrightarrow> set (query u') \<inter> {CHR 0x00, CHR ''#'', CHR '' ''} = {}"
    "F \<noteq> [] \<longrightarrow> set (fragment u') \<inter> {CHR 0x00, CHR '' ''} = {}" "u' = u\<lparr>path := path u', query := query u', fragment := fragment u'\<rparr>"
proof -
  obtain c where c: "c \<in> ends_authority" "at s p = Some c"
    using assms(3) by blast
  show ?thesis
  proof (cases "c = CHR ''/''")
    case True
    then have d: "Suc p \<le> length s" "s ! p = c"
      using at_some [OF c(2)] by auto
    obtain q where q: "path_loop s (Suc p) = Some (Inr q)" "parse_query s q (u\<lparr>path := between s p q\<rparr>) = Some u'"
      using assms(1,2) c True by (cases "path_loop s (Suc p)"; cases "the (path_loop s (Suc p))") (auto simp: parse_path_def)
    note f = path_loop_spec [OF q(1) d(1)]
    obtain Q F t where F: "drop q s = Q @ F @ t" "optional_part (CHR ''?'') (query u) (query u') Q"
      "optional_part (CHR ''#'') (fragment u) (fragment u') F" "rest_of_text t"
      "Q \<noteq> [] \<longrightarrow> set (query u') \<inter> {CHR 0x00, CHR ''#'', CHR '' ''} = {}"
      "F \<noteq> [] \<longrightarrow> set (fragment u') \<inter> {CHR 0x00, CHR '' ''} = {}" "u' = u\<lparr>path := between s p q, query := query u', fragment := fragment u'\<rparr>"
      by (rule parse_query_spec [OF q(2) assms(2)]) (use f in auto)
    moreover have "path u' = between s p q"
      using arg_cong [OF F(7), of path] by simp
    ultimately show ?thesis
      using f d drop_between [of p q s] between_Cons [of p q s] True by (intro that [of Q F t]) auto
  next
    case False
    then have e: "parse_query s p u = Some u'"
      using assms(1) c by (simp add: parse_path_def)
    obtain Q F t where F: "drop p s = Q @ F @ t" "optional_part (CHR ''?'') (query u) (query u') Q"
      "optional_part (CHR ''#'') (fragment u) (fragment u') F" "rest_of_text t"
      "Q \<noteq> [] \<longrightarrow> set (query u') \<inter> {CHR 0x00, CHR ''#'', CHR '' ''} = {}"
      "F \<noteq> [] \<longrightarrow> set (fragment u') \<inter> {CHR 0x00, CHR '' ''} = {}" "u' = u\<lparr>query := query u', fragment := fragment u'\<rparr>"
      by (rule parse_query_spec [OF e assms(2)]) (use c False in \<open>auto simp: ends_authority_def\<close>)
    moreover obtain q f where "u' = u\<lparr>query := q, fragment := f\<rparr>"
      using F(7) by blast
    then have "path u' = path u" "u' = u\<lparr>path := path u', query := query u', fragment := fragment u'\<rparr>"
      by simp_all
    ultimately show ?thesis
      using assms(4) by (intro that [of Q F t]) simp_all
  qed
qed

text \<open>
  C29. A text that is accepted is the text of what was parsed: spaces, the schema with \<^verbatim>\<open>://\<close> and the user info with \<^verbatim>\<open>@\<close>, each
  only if it was found, the host, the port in decimal behind a colon unless it is -1, the path, the query behind \<^verbatim>\<open>?\<close> and the
  fragment behind \<^verbatim>\<open>#\<close>, one after the other, and then nothing or a rest that starts with a space or a zero byte. No part holds
  the delimiter that ends it, and the port is below 10^9. A query or fragment the text does not have keeps the value of an
  earlier text.
\<close>

theorem uri_parsed_from_text:
  assumes "parseFromString s u = Some u'" "parse_ok u'"
  shows "\<exists>spaces ns nu A P Q F t. s = spaces @ A @ host u' @ P @ path u' @ Q @ F @ t \<and> set spaces \<subseteq> {CHR '' ''} \<and>
    authority_prefix ns nu u' A \<and> port_part (port u') P \<and> port u' < 10 ^ 9 \<and> optional_part (CHR ''?'') (query u) (query u') Q \<and>
    optional_part (CHR ''#'') (fragment u) (fragment u') F \<and> rest_of_text t \<and> set (host u') \<inter> ends_authority = {} \<and>
    (path u' = [] \<or> hd (path u') = CHR ''/'' \<and> set (tl (path u')) \<inter> {CHR 0x00, CHR ''?'', CHR ''#'', CHR '' ''} = {}) \<and>
    (Q = [] \<or> set (query u') \<inter> {CHR 0x00, CHR ''#'', CHR '' ''} = {}) \<and> (F = [] \<or> set (fragment u') \<inter> {CHR 0x00, CHR '' ''} = {})"
proof -
  let ?p = "skip_spaces s 0"
  have sp: "?p \<le> length s" "set (take ?p s) \<subseteq> {CHR '' ''}"
    using skip_spaces_spec [of 0 s] by (simp_all add: between_def)
  have start: "authority_at s (take ?p s) ?p ?p True True (clear_uri u)"
    using sp by (simp add: authority_at_def authority_prefix_def clear_uri_def)
  obtain v q b e pt where a: "authority_loop s ?p ?p True True (clear_uri u) = Some (Inr (v, q, b))"
    and split: "splitHostAndPort s b q = Some (e, pt)"
    and rest: "parse_path s q (v\<lparr>port := pt, host := between s b e\<rparr>) = Some u'"
  proof -
    obtain r where r: "authority_loop s ?p ?p True True (clear_uri u) = Some r"
      using assms(1) by (auto simp: parseFromString_def Let_def)
    then obtain x where "r = Inr x"
      using assms authority_loop_fails [of s ?p ?p True True "clear_uri u"] by (cases r) (auto simp: parseFromString_def Let_def)
    then show ?thesis
      using that assms(1) r by (cases x) (auto simp: parseFromString_def Let_def)
  qed
  obtain ns nu A where A: "b \<le> q" "q \<le> length s" "set (between s b q) \<inter> ends_authority = {}" "take b s = take ?p s @ A" "authority_prefix ns nu v A"
    using authority_loop_spec [OF a start] by (auto simp: authority_at_def)
  have v: "path v = []" "query v = query u" "fragment v = fragment u" "\<exists>c \<in> ends_authority. at s q = Some c"
    using authority_loop_spec [OF a start] by (simp_all add: clear_uri_def)
  have e: "b \<le> e" "e \<le> q" "port_part pt (between s e q)" "pt < 10 ^ 9"
    using split_spec [OF split A(1,2)] split_loop_range [of s b q q 0 0 e pt] split by (simp_all add: splitHostAndPort_def)
  have p0: "path (v\<lparr>port := pt, host := between s b e\<rparr>) = []"
    using v(1) by simp
  obtain Q F t where F: "drop q s = path u' @ Q @ F @ t" "optional_part (CHR ''?'') (query u) (query u') Q"
    "optional_part (CHR ''#'') (fragment u) (fragment u') F" "rest_of_text t"
    "path u' = [] \<or> hd (path u') = CHR ''/'' \<and> set (tl (path u')) \<inter> {CHR 0x00, CHR ''?'', CHR ''#'', CHR '' ''} = {}"
    "Q \<noteq> [] \<longrightarrow> set (query u') \<inter> {CHR 0x00, CHR ''#'', CHR '' ''} = {}" "F \<noteq> [] \<longrightarrow> set (fragment u') \<inter> {CHR 0x00, CHR '' ''} = {}"
    "u' = v\<lparr>port := pt, host := between s b e, path := path u', query := query u', fragment := fragment u'\<rparr>"
    by (rule parse_path_spec [OF rest assms(2) v(4) p0]) (simp_all add: v)
  have u': "host u' = between s b e" "port u' = pt" "schema u' = schema v" "user_info u' = user_info v"
    using arg_cong [OF F(8), of host] arg_cong [OF F(8), of port] arg_cong [OF F(8), of schema] arg_cong [OF F(8), of user_info] by simp_all
  have "s = take q s @ drop q s"
    by simp
  also have "\<dots> = take ?p s @ A @ host u' @ between s e q @ path u' @ Q @ F @ t"
    unfolding F(1) u' using take_between [OF A(1), of s] take_between [OF e(1), of s] take_between [OF e(2), of s] A(4) by simp
  finally have s: "s = take ?p s @ A @ host u' @ between s e q @ path u' @ Q @ F @ t" .
  have A': "authority_prefix ns nu u' A"
    using A(5) unfolding authority_prefix_def u'(3,4) .
  have h: "set (host u') \<inter> ends_authority = {}"
    using A(3) u'(1) between_prefix [OF e(1,2), of s] by auto
  have "port_part (port u') (between s e q)" "port u' < 10 ^ 9" "Q = [] \<or> set (query u') \<inter> {CHR 0x00, CHR ''#'', CHR '' ''} = {}"
    "F = [] \<or> set (fragment u') \<inter> {CHR 0x00, CHR '' ''} = {}"
    using e(3,4) u'(2) F(6,7) by auto
  then show ?thesis
    using s sp(2) A' h F(2-5)
    by (intro exI [of _ "take ?p s"] exI [of _ ns] exI [of _ nu] exI [of _ A] exI [of _ "between s e q"] exI [of _ Q] exI [of _ F] exI [of _ t] conjI)
qed

definition sample_uri :: uri where
  "sample_uri = \<lparr>schema = ''x'', host = ''h'', path = ''/p'', user_info = ''me'', query = [], fragment = [], port = 80, parse_ok = True\<rparr>"

theorem uri_parsed_from_text_witness:
  "parseFromString '' me@x://h:80/p z'' (URI 0) = Some sample_uri \<and>
   (\<exists>spaces ns nu A P Q F t. '' me@x://h:80/p z'' = spaces @ A @ ''h'' @ P @ ''/p'' @ Q @ F @ t \<and> set spaces \<subseteq> {CHR '' ''} \<and>
     authority_prefix ns nu sample_uri A \<and> port_part 80 P \<and> optional_part (CHR ''?'') [] [] Q \<and> optional_part (CHR ''#'') [] [] F \<and> rest_of_text t)"
proof -
  have "parseFromString '' me@x://h:80/p z'' (URI 0) = Some sample_uri"
    by (simp add: sample_uri_def parseFromString_def skip_spaces.simps authority_loop.simps path_loop.simps action_map_def clear_uri_def URI_def
        isAllSpace_def splitHostAndPort_def to_int_def between_def parse_path_def parse_query_def parse_fragment_def at_def numeral_nat)
  moreover note uri_parsed_from_text [OF this]
  ultimately show ?thesis
    by (simp add: sample_uri_def URI_def) blast
qed

text \<open>
  C24. Parsing the text of a URI gives back its parts: schema, user info, host, port below 10^9, path, query and fragment. It
  holds for every object the text is parsed into; only a query or a fragment the text does not have keeps its value.
\<close>

theorem uri_roundtrip:
  assumes "uri_ok u"
  shows "parseFromString (uri_text u) u0 =
    Some (u\<lparr>query := if query u = [] then query u0 else query u, fragment := if fragment u = [] then fragment u0 else fragment u\<rparr>)"
proof -
  let ?p = "schema_text (schema u) @ user_text (user_info u)"
  let ?R = "path u @ query_text (query u) @ fragment_text (fragment u)"
  let ?u2 = "(clear_uri u0)\<lparr>schema := schema u, user_info := user_info u, port := port u, host := host u\<rparr>"
  have "between (uri_text u) (length ?p) (length ?p + length (host u)) = host u"
    using between_append [of ?p "host u"] by (simp add: uri_text_def)
  moreover have "splitHostAndPort (uri_text u) (length ?p) (length ?p + length (host u) + length (port_text (port u))) =
      Some (length ?p + length (host u), port u)"
    using split_text [OF assms, of ?p ?R] by (simp add: uri_text_def)
  moreover have "parse_path (uri_text u) (length ?p + length (host u) + length (port_text (port u))) ?u2 =
      Some (?u2\<lparr>path := path u, query := if query u = [] then query ?u2 else query u, fragment := if fragment u = [] then fragment ?u2 else fragment u\<rparr>)"
    using parse_path_text [of "path u" "query u" "fragment u" ?u2 "?p @ host u @ port_text (port u)"] assms
    by (simp add: uri_text_def uri_ok_def clear_uri_def add.assoc)
  ultimately have "parseFromString (uri_text u) u0 =
      Some (?u2\<lparr>path := path u, query := if query u = [] then query ?u2 else query u, fragment := if fragment u = [] then fragment ?u2 else fragment u\<rparr>)"
    using authority_text [OF assms, of "clear_uri u0", OF clear_parts] skip_no_space [OF text_no_space [OF assms]]
    by (simp add: parseFromString_def)
  also have "\<dots> = Some (u\<lparr>query := if query u = [] then query u0 else query u, fragment := if fragment u = [] then fragment u0 else fragment u\<rparr>)"
    unfolding option.inject by (rule uri.equality) (use assms in \<open>simp_all add: uri_ok_def clear_uri_def\<close>)
  finally show ?thesis .
qed

theorem uri_roundtrip_witness:
  "parseFromString ''https://me@127.0.0.1:8080/test?a=b'' (URI 0) =
     Some \<lparr>schema = ''https'', host = ''127.0.0.1'', path = ''/test'', user_info = ''me'', query = ''a=b'', fragment = [], port = 8080, parse_ok = True\<rparr>"
proof -
  let ?u = "\<lparr>schema = ''https'', host = ''127.0.0.1'', path = ''/test'', user_info = ''me'', query = ''a=b'', fragment = [], port = 8080, parse_ok = True\<rparr>"
  have "uri_ok ?u"
    by (simp add: uri_ok_def plain_def action_map_def)
  moreover have "uri_text ?u = ''https://me@127.0.0.1:8080/test?a=b''"
    by (simp add: uri_text_def schema_text_def user_text_def port_text_def query_text_def fragment_text_def dec.simps char_of_def bit_Suc_0_iff)
  ultimately show ?thesis
    using uri_roundtrip [of ?u "URI 0"] by (simp add: URI_def)
qed

end
