(* ===== verification/HttpMessages.thy ===== *)
theory HttpMessages
  imports HttpParserSafety BoltResponse Uri "HOL-Library.Multiset" "HOL-Library.Code_Target_Nat"
begin

text \<open>
  The HTTP messages of the client: \<^verbatim>\<open>include/protocol/http\<close>, \<^verbatim>\<open>src/protocol/http/http_header.cpp\<close>,
  \<^verbatim>\<open>http_request.cpp\<close>, \<^verbatim>\<open>http_response.cpp\<close> and \<^verbatim>\<open>http_protocol.cpp\<close>. A request is written to an
  \<^verbatim>\<open>IOBuffer\<close>; a response is read by feeding the slices of a buffer to the HTTP parser, whose callbacks collect the
  message in a \<^verbatim>\<open>HttpMessageInfo\<close>. The parser of a response that is not complete is kept between two calls.

  The strings of the messages are lists of characters, the contents of buffers lists of bytes. The order in which an
  \<^verbatim>\<open>unordered_map\<close> is iterated is a parameter. \<^term>\<open>None\<close> as a result is a failing assertion, an access outside an
  array, or a loop that does not end.
\<close>

definition bytes_of :: "string \<Rightarrow> bytes" where
  "bytes_of s = map of_char s"

definition chars_of :: "bytes \<Rightarrow> string" where
  "chars_of xs = map (\<lambda>b. char_of (unat b)) xs"

section \<open>Header names and methods\<close>

datatype EHttpMethod = HTTP_METHOD_GET | HTTP_METHOD_POST | HTTP_METHOD_TOTAL

datatype EHttpHeaderKey = LOG_ID | CONTENT_TYPE_JSON | CONNECTION | HTTP_HEADER_KEY_SIZE

fun getHeaderKey :: "EHttpHeaderKey \<Rightarrow> string option" where
  "getHeaderKey LOG_ID = Some ''log-id''"
| "getHeaderKey CONTENT_TYPE_JSON = Some ''application/json''"
| "getHeaderKey CONNECTION = Some ''connection''"
| "getHeaderKey HTTP_HEADER_KEY_SIZE = None"

fun getMethod :: "EHttpMethod \<Rightarrow> string option" where
  "getMethod HTTP_METHOD_GET = Some ''GET''"
| "getMethod HTTP_METHOD_POST = Some ''POST''"
| "getMethod HTTP_METHOD_TOTAL = None"

section \<open>Requests\<close>

record HttpRequest =
  request_uri :: uri
  request_method :: EHttpMethod
  attch_type :: string
  request_data :: "iobuf option"

text \<open>\<^verbatim>\<open>_method\<close> and the port of the URI are not set by the constructor.\<close>

definition new_HttpRequest :: "EHttpMethod \<Rightarrow> int \<Rightarrow> HttpRequest" where
  "new_HttpRequest m p = \<lparr>request_uri = URI p, request_method = m, attch_type = [], request_data = None\<rparr>"

definition set_uri :: "string \<Rightarrow> HttpRequest \<Rightarrow> HttpRequest option" where
  "set_uri s r = do { u \<leftarrow> parseFromString s (request_uri r); Some (r\<lparr>request_uri := u\<rparr>) }"

definition set_http_method :: "EHttpMethod \<Rightarrow> HttpRequest \<Rightarrow> HttpRequest" where
  "set_http_method m r = r\<lparr>request_method := m\<rparr>"

definition attach :: "heap \<Rightarrow> bytes \<Rightarrow> HttpRequest \<Rightarrow> (heap \<times> HttpRequest) option" where
  "attach h xs r = do { (h', b) \<leftarrow> append_data h buf_new (Some xs); Some (h', r\<lparr>request_data := Some b\<rparr>) }"

definition attach_cstr :: "heap \<Rightarrow> bytes \<Rightarrow> HttpRequest \<Rightarrow> (heap \<times> HttpRequest) option" where
  "attach_cstr h s r = do { (h', b) \<leftarrow> append_cstr h buf_new s; Some (h', r\<lparr>request_data := Some b\<rparr>) }"

definition attach_size :: "HttpRequest \<Rightarrow> nat" where
  "attach_size r = (case request_data r of Some b \<Rightarrow> buf_length b | None \<Rightarrow> 0)"

definition attach_type :: "string \<Rightarrow> HttpRequest \<Rightarrow> HttpRequest" where
  "attach_type t r = r\<lparr>attch_type := t\<rparr>"

definition attach_type_key :: "EHttpHeaderKey \<Rightarrow> HttpRequest \<Rightarrow> HttpRequest option" where
  "attach_type_key k r = do { t \<leftarrow> getHeaderKey k; Some (r\<lparr>attch_type := t\<rparr>) }"

section \<open>Writing a request\<close>

type_synonym header_map = "EHttpHeaderKey \<rightharpoonup> string"

definition setHeader :: "EHttpHeaderKey \<Rightarrow> string \<Rightarrow> header_map \<Rightarrow> header_map" where
  "setHeader key value m = m(key \<mapsto> value)"

definition internal_headers :: "nat \<Rightarrow> header_map" where
  "internal_headers request_id = setHeader CONNECTION ''keep-alive'' (setHeader LOG_ID (dec request_id) Map.empty)"

definition s_http_line_end :: string where
  "s_http_line_end = [CHR 0x0D, CHR 0x0A]"

definition dec_int :: "int \<Rightarrow> string" where
  "dec_int i = (if i < 0 then CHR ''-'' # dec (nat (- i)) else dec (nat i))"

fun header_lines :: "(EHttpHeaderKey \<times> string) list \<Rightarrow> string option" where
  "header_lines [] = Some []"
| "header_lines ((k, v) # kvs) = do {
     name \<leftarrow> getHeaderKey k;
     rest \<leftarrow> header_lines kvs;
     Some (name @ '': '' @ v @ s_http_line_end @ rest)
   }"

text \<open>The text of the stream \<^verbatim>\<open>http_ss\<close> when it is appended to the buffer.\<close>

definition request_text :: "(header_map \<Rightarrow> (EHttpHeaderKey \<times> string) list) \<Rightarrow> HttpRequest \<Rightarrow> header_map \<Rightarrow> string option" where
  "request_text iter r hm = do {
     m \<leftarrow> getMethod (request_method r);
     hs \<leftarrow> header_lines (iter hm);
     Some (m @ '' '' @ path (request_uri r) @ '' HTTP/1.1'' @ s_http_line_end @
       (if request_method r \<noteq> HTTP_METHOD_GET then ''Content-Length: '' @ dec (attach_size r) @ s_http_line_end else []) @
       (if attch_type r \<noteq> [] then ''Content-Type: '' @ attch_type r @ s_http_line_end else []) @
       ''Host: '' @ host (request_uri r) @ '':'' @ dec_int (port (request_uri r)) @ s_http_line_end @
       ''Accept: */*'' @ s_http_line_end @
       ''User-Agent: curl/7.0'' @ s_http_line_end @
       hs @ s_http_line_end)
   }"

definition Http_serialize ::
  "(header_map \<Rightarrow> (EHttpHeaderKey \<times> string) list) \<Rightarrow> heap \<Rightarrow> HttpRequest \<Rightarrow> header_map \<Rightarrow> iobuf \<Rightarrow> (bool \<times> heap \<times> iobuf \<times> HttpRequest) option" where
  "Http_serialize iter h r hm buffer = do {
     t \<leftarrow> request_text iter r hm;
     (h1, buffer1) \<leftarrow> append_data h buffer (Some (bytes_of t));
     case request_data r of
       Some d \<Rightarrow> let (buffer2, d') = append_move buffer1 d in Some (True, h1, buffer2, r\<lparr>request_data := Some d'\<rparr>)
     | None \<Rightarrow> Some (True, h1, buffer1, r)
   }"

definition assembleHttpRequest ::
  "(header_map \<Rightarrow> (EHttpHeaderKey \<times> string) list) \<Rightarrow> heap \<Rightarrow> HttpRequest \<Rightarrow> nat \<Rightarrow> iobuf \<Rightarrow> (bool \<times> heap \<times> iobuf \<times> HttpRequest) option" where
  "assembleHttpRequest iter h r request_id buffer =
     (if \<not> parse_ok (request_uri r) then Some (False, h, buffer, r)
      else Http_serialize iter h r (internal_headers request_id) buffer)"

section \<open>Collecting a response\<close>

datatype HttpParserStage = HTTP_ON_MESSAGE_BEGIN | HTTP_ON_URL | HTTP_ON_STATUS | HTTP_ON_HEADER_FIELD | HTTP_ON_HEADER_VALUE
  | HTTP_ON_HEADERS_COMPLELE | HTTP_ON_BODY | HTTP_ON_MESSAGE_COMPLELE

record HttpMessageInfo =
  stage :: HttpParserStage
  url :: string
  cur_header :: string
  body :: string
  header :: "string \<rightharpoonup> string"

text \<open>\<^verbatim>\<open>new HttpMessageInfo\<close> leaves the stage unset: \<open>s\<close> is what the memory holds.\<close>

definition new_info :: "HttpParserStage \<Rightarrow> HttpMessageInfo" where
  "new_info s = \<lparr>stage = s, url = [], cur_header = [], body = [], header = Map.empty\<rparr>"

definition onMessageBegin :: "HttpMessageInfo http_cb" where
  "onMessageBegin parser msg = (0, msg\<lparr>stage := HTTP_ON_MESSAGE_BEGIN\<rparr>)"

definition onUrl :: "HttpMessageInfo http_data_cb" where
  "onUrl parser data msg = (0, msg\<lparr>stage := HTTP_ON_URL, url := url msg @ data\<rparr>)"

definition onStatus :: "HttpMessageInfo http_data_cb" where
  "onStatus parser data msg = (0, msg\<lparr>stage := HTTP_ON_STATUS\<rparr>)"

definition onHeaderField :: "HttpMessageInfo http_data_cb" where
  "onHeaderField parser data msg =
     (let msg1 = (if stage msg \<noteq> HTTP_ON_HEADER_FIELD then msg\<lparr>stage := HTTP_ON_HEADER_FIELD, cur_header := []\<rparr> else msg)
      in (0, msg1\<lparr>cur_header := cur_header msg1 @ data\<rparr>))"

definition onHeaderValue :: "HttpMessageInfo http_data_cb" where
  "onHeaderValue parser data msg =
     (let first = (stage msg \<noteq> HTTP_ON_HEADER_VALUE); msg1 = msg\<lparr>stage := HTTP_ON_HEADER_VALUE\<rparr>
      in if first \<and> cur_header msg1 = [] then (-1, msg1)
      else (0, msg1\<lparr>header := (header msg1)(cur_header msg1 \<mapsto>
        (case header msg1 (cur_header msg1) of None \<Rightarrow> data | Some v \<Rightarrow> v @ '','' @ data))\<rparr>))"

definition onHeadersComplete :: "HttpMessageInfo http_cb" where
  "onHeadersComplete parser msg = (0, msg\<lparr>stage := HTTP_ON_HEADERS_COMPLELE\<rparr>)"

definition onBodyCb :: "HttpMessageInfo http_data_cb" where
  "onBodyCb parser data msg = (0, msg\<lparr>stage := HTTP_ON_BODY, body := body msg @ data\<rparr>)"

definition onMessageCompleteCb :: "HttpMessageInfo http_cb" where
  "onMessageCompleteCb parser msg = (0, msg\<lparr>stage := HTTP_ON_MESSAGE_COMPLELE\<rparr>)"

definition g_parser_settings :: "HttpMessageInfo http_parser_settings" where
  "g_parser_settings =
     \<lparr>on_message_begin = Some onMessageBegin, on_url = Some onUrl, on_status = Some onStatus,
      on_header_field = Some onHeaderField, on_header_value = Some onHeaderValue,
      on_headers_complete = Some onHeadersComplete, on_body = Some onBodyCb, on_message_complete = Some onMessageCompleteCb,
      on_chunk_header = None, on_chunk_complete = None\<rparr>"

section \<open>Reading a response\<close>

text \<open>A parser and the message its \<^verbatim>\<open>data\<close> points to.\<close>

type_synonym http_data = "http_parser \<times> HttpMessageInfo"

fun check_loop :: "heap \<Rightarrow> iobuf \<Rightarrow> nat list \<Rightarrow> nat \<Rightarrow> http_data \<Rightarrow> (EResParseResult \<times> nat \<times> http_data option) option" where
  "check_loop h buffer [] nr d = Some (PARSE_NOT_ENOUGH_DATA, nr, Some d)"
| "check_loop h buffer (i # is) nr (parser, info) = do {
     data \<leftarrow> slice_at h buffer i;
     if 0 < length data then do {
       (parser', info', n) \<leftarrow> http_parser_execute g_parser_settings (chars_of data) parser info;
       if http_errno parser' \<noteq> HPE_OK then Some (PARSE_ERROR, nr + n, None)
       else if stage info' = HTTP_ON_MESSAGE_COMPLELE then Some (PARSE_OK, nr + n, Some (parser', info'))
       else check_loop h buffer is (nr + n) (parser', info')
     }
     else check_loop h buffer is nr (parser, info)
   }"

text \<open>
  The argument \<open>p\<close> is \<^term>\<open>None\<close> for a null \<^verbatim>\<open>p\<close>, and \<open>Some q\<close> for a pointer to \<open>q\<close>. The results are the value returned, the
  buffer, \<^verbatim>\<open>data_size\<close> and what \<^verbatim>\<open>p\<close> points to.
\<close>

definition Http_checkHeader ::
  "HttpParserStage \<Rightarrow> heap \<Rightarrow> iobuf \<Rightarrow> http_data option option \<Rightarrow> (EResParseResult \<times> iobuf \<times> nat \<times> http_data option option) option" where
  "Http_checkHeader unset h buffer p = do {
     let d = (case p of Some (Some d) \<Rightarrow> d | _ \<Rightarrow> (http_parser_init HTTP_BOTH, new_info unset));
     (ret, nr, d') \<leftarrow> check_loop h buffer [0 ..< slice_num buffer] 0 d;
     Some (ret, fst (pop_front nr buffer), 0, (case p of None \<Rightarrow> None | Some _ \<Rightarrow> Some d'))
   }"

record HttpResponse =
  rsp_parser :: "(http_parser \<times> HttpMessageInfo option) option"
  rsp_url :: string
  rsp_body :: string
  rsp_header :: "string \<rightharpoonup> string"

definition new_HttpResponse :: HttpResponse where
  "new_HttpResponse = \<lparr>rsp_parser = None, rsp_url = [], rsp_body = [], rsp_header = Map.empty\<rparr>"

definition setHttpParser :: "(http_parser \<times> HttpMessageInfo option) option \<Rightarrow> HttpResponse \<Rightarrow> HttpResponse" where
  "setHttpParser p r = r\<lparr>rsp_parser := p\<rparr>"

definition Http_deserialize :: "HttpResponse \<Rightarrow> EResParseResult \<times> HttpResponse" where
  "Http_deserialize r =
     (case rsp_parser r of
        None \<Rightarrow> (PARSE_ERROR, r\<lparr>rsp_parser := None\<rparr>)
      | Some (_, None) \<Rightarrow> (PARSE_ERROR, r\<lparr>rsp_parser := None\<rparr>)
      | Some (_, Some info) \<Rightarrow>
          if stage info \<noteq> HTTP_ON_MESSAGE_COMPLELE then (PARSE_ERROR, r\<lparr>rsp_parser := None\<rparr>)
          else (PARSE_OK, r\<lparr>rsp_parser := None, rsp_url := url info, rsp_body := body info, rsp_header := header info\<rparr>))"

definition parseHttpResponse :: "HttpResponse \<Rightarrow> http_data option \<Rightarrow> EResParseResult \<times> HttpResponse" where
  "parseHttpResponse rsp addition_data =
     Http_deserialize (setHttpParser (map_option (\<lambda>(parser, info). (parser, Some info)) addition_data) rsp)"

definition converseHttpRequest :: "nat \<Rightarrow> nat" where
  "converseHttpRequest request_id = request_id"

section \<open>The body of a response\<close>

lemma g_body_more:
  assumes "pstate p = s_body_identity" "http_errno p = HPE_OK" "content_length p < ULLONG_MAX" "buf \<noteq> []" "length buf < content_length p"
  shows "http_parser_execute g_parser_settings buf p m =
    Some (p\<lparr>content_length := content_length p - length buf\<rparr>, m\<lparr>stage := HTTP_ON_BODY, body := body m @ buf\<rparr>, length buf)"
  by (rule execute_body [OF assms, of _ onBodyCb]) (simp_all add: g_parser_settings_def onBodyCb_def)

lemma g_body_done:
  assumes "pstate p = s_body_identity" "http_errno p = HPE_OK" "content_length p < ULLONG_MAX" "buf \<noteq> []" "length buf = content_length p"
    "\<not> upgrade p"
  shows "\<exists>p'. http_parser_execute g_parser_settings buf p m =
    Some (p', m\<lparr>stage := HTTP_ON_MESSAGE_COMPLELE, body := body m @ buf\<rparr>, length buf) \<and> http_errno p' = HPE_OK"
  using execute_body_done [OF assms, of g_parser_settings onBodyCb m "m\<lparr>stage := HTTP_ON_BODY, body := body m @ buf\<rparr>" onMessageCompleteCb
      "m\<lparr>stage := HTTP_ON_MESSAGE_COMPLELE, body := body m @ buf\<rparr>"] assms(2)
  by (simp add: g_parser_settings_def onBodyCb_def onMessageCompleteCb_def after_body_def Let_def)

text \<open>The loop over the slices, on the list of their contents.\<close>

fun feed :: "bytes list \<Rightarrow> nat \<Rightarrow> http_data \<Rightarrow> (EResParseResult \<times> nat \<times> http_data option) option" where
  "feed [] nr d = Some (PARSE_NOT_ENOUGH_DATA, nr, Some d)"
| "feed (xs # xss) nr (parser, info) =
     (if xs = [] then feed xss nr (parser, info)
      else do {
        (parser', info', n) \<leftarrow> http_parser_execute g_parser_settings (chars_of xs) parser info;
        if http_errno parser' \<noteq> HPE_OK then Some (PARSE_ERROR, nr + n, None)
        else if stage info' = HTTP_ON_MESSAGE_COMPLELE then Some (PARSE_OK, nr + n, Some (parser', info'))
        else feed xss (nr + n) (parser', info')
      })"

definition slices_of :: "heap \<Rightarrow> iobuf \<Rightarrow> bytes list" where
  "slices_of h b = map (slice_bytes h) (drop (ref_offset b) (refs b))"

lemma slices_of_simps [simp]: "concat (slices_of h b) = to_string h b" "length (slices_of h b) = slice_num b"
  by (simp_all add: slices_of_def to_string_def slice_num_def)

lemma chars_of_simps [simp]: "length (chars_of xs) = length xs" "chars_of xs = [] \<longleftrightarrow> xs = []" "chars_of (xs @ ys) = chars_of xs @ chars_of ys"
  "chars_of [] = []"
  by (simp_all add: chars_of_def)

lemma check_loop_feed: "check_loop h b [i ..< slice_num b] nr d = feed (drop i (slices_of h b)) nr d"
proof (induction "slice_num b - i" arbitrary: i nr d)
  case 0
  then show ?case
    using slices_of_simps(2) [of h b] by simp
next
  case (Suc k)
  then have i: "i < slice_num b" by simp
  then have "[i ..< slice_num b] = i # [Suc i ..< slice_num b]"
    by (simp add: upt_conv_Cons)
  moreover have "slice_at h b i = Some (slices_of h b ! i)"
    using i by (simp add: slice_at_def slices_of_def slice_num_def less_diff_conv2 add.commute)
  moreover have "drop i (slices_of h b) = slices_of h b ! i # drop (Suc i) (slices_of h b)"
    using i by (simp add: Cons_nth_drop_Suc)
  moreover have "k = slice_num b - Suc i"
    using Suc(2) by simp
  note Suc(1) [OF this]
  ultimately show ?case
    by (cases d) (simp cong: if_cong)
qed

lemma feed_body_more:
  assumes "pstate p = s_body_identity" "http_errno p = HPE_OK" "content_length p < ULLONG_MAX" "length (concat xss) < content_length p"
  shows "feed xss nr (p, m) = Some (PARSE_NOT_ENOUGH_DATA, nr + length (concat xss), Some (p\<lparr>content_length := content_length p - length (concat xss)\<rparr>,
    m\<lparr>stage := if concat xss = [] then stage m else HTTP_ON_BODY, body := body m @ chars_of (concat xss)\<rparr>))"
  using assms
proof (induction xss arbitrary: p m nr)
  case (Cons xs xss)
  show ?case
  proof (cases "xs = []")
    case False
    let ?p = "p\<lparr>content_length := content_length p - length xs\<rparr>" and ?m = "m\<lparr>stage := HTTP_ON_BODY, body := body m @ chars_of xs\<rparr>"
    have "http_parser_execute g_parser_settings (chars_of xs) p m = Some (?p, ?m, length xs)"
      using g_body_more [of p "chars_of xs" m] Cons(2-5) False by simp
    then show ?thesis
      using Cons(1) [of ?p "nr + length xs" ?m] Cons(2-5) False by simp
  qed (use Cons in simp)
qed simp

lemma feed_body_done:
  assumes "pstate p = s_body_identity" "http_errno p = HPE_OK" "content_length p < ULLONG_MAX" "length (concat xss) = content_length p"
    "content_length p \<noteq> 0" "\<not> upgrade p"
  shows "\<exists>p'. feed xss nr (p, m) = Some (PARSE_OK, nr + length (concat xss), Some (p',
    m\<lparr>stage := HTTP_ON_MESSAGE_COMPLELE, body := body m @ chars_of (concat xss)\<rparr>))"
  using assms
proof (induction xss arbitrary: p m nr)
  case (Cons xs xss)
  consider "xs = []" | "xs \<noteq> []" "length xs < content_length p" | "xs \<noteq> []" "length xs = content_length p"
    using Cons(5) by fastforce
  then show ?case
  proof cases
    case 2
    let ?p = "p\<lparr>content_length := content_length p - length xs\<rparr>" and ?m = "m\<lparr>stage := HTTP_ON_BODY, body := body m @ chars_of xs\<rparr>"
    have "http_parser_execute g_parser_settings (chars_of xs) p m = Some (?p, ?m, length xs)"
      using g_body_more [of p "chars_of xs" m] Cons(2-5) 2 by simp
    then show ?thesis
      using Cons(1) [of ?p "nr + length xs" ?m] Cons(2-7) 2 by (auto simp: add.assoc)
  next
    case 3
    then have "concat (xs # xss) = xs"
      using Cons(5) by simp
    moreover obtain p' where "http_parser_execute g_parser_settings (chars_of xs) p m =
        Some (p', m\<lparr>stage := HTTP_ON_MESSAGE_COMPLELE, body := body m @ chars_of xs\<rparr>, length xs)" "http_errno p' = HPE_OK"
      using g_body_done [of p "chars_of xs" m] Cons(2-7) 3 by auto
    ultimately show ?thesis
      using 3(1) by (intro exI [of _ p']) (simp del: concat.simps)
  qed (use Cons in simp)
qed simp

lemma feed_safe:
  assumes "parser_inv p"
  shows "\<exists>ret k d. feed xss nr (p, m) = Some (ret, nr + k, d) \<and> k \<le> length (concat xss) \<and> (d = None \<longleftrightarrow> ret = PARSE_ERROR) \<and>
    (\<forall>p' m'. d = Some (p', m') \<longrightarrow> parser_inv p' \<and> (ret = PARSE_OK \<longrightarrow> stage m' = HTTP_ON_MESSAGE_COMPLELE))"
  using assms
proof (induction xss arbitrary: p m nr)
  case (Cons xs xss)
  show ?case
  proof (cases "xs = []")
    case False
    then obtain p' m' n where e: "http_parser_execute g_parser_settings (chars_of xs) p m = Some (p', m', n)" "parser_inv p'" "n \<le> length xs"
      using execute_ok [OF Cons(2), of g_parser_settings "chars_of xs" m] by (auto simp: max_def Suc_le_eq)
    consider "http_errno p' \<noteq> HPE_OK" | "http_errno p' = HPE_OK" "stage m' = HTTP_ON_MESSAGE_COMPLELE"
      | "http_errno p' = HPE_OK" "stage m' \<noteq> HTTP_ON_MESSAGE_COMPLELE"
      by blast
    then show ?thesis
    proof cases
      case 3
      obtain ret k d where "feed xss (nr + n) (p', m') = Some (ret, nr + n + k, d)" "k \<le> length (concat xss)" "d = None \<longleftrightarrow> ret = PARSE_ERROR"
        "\<forall>p' m'. d = Some (p', m') \<longrightarrow> parser_inv p' \<and> (ret = PARSE_OK \<longrightarrow> stage m' = HTTP_ON_MESSAGE_COMPLELE)"
        using Cons(1) [OF e(2), of "nr + n" m'] by blast
      then show ?thesis
        using 3 e False by (intro exI [of _ ret] exI [of _ "n + k"] exI [of _ d]) simp
    qed (use e False in auto)
  qed (use Cons in simp)
qed simp

lemma checkHeader_feed:
  assumes "buf_ok h b" "feed (slices_of h b) 0 d = Some (ret, k, d')"
  shows "\<exists>b'. Http_checkHeader unset h b (Some (Some d)) = Some (ret, b', 0, Some d') \<and> buf_ok h b' \<and> to_string h b' = drop k (to_string h b)"
  using assms(2) check_loop_feed [of h b 0 0 d] pop_front_spec [OF assms(1) prod.collapse [symmetric], of k]
  by (simp add: Http_checkHeader_def)

text \<open>Buffers that arrive one after the other while the response is not complete: each is used up.\<close>

primrec receive :: "HttpParserStage \<Rightarrow> (heap \<times> iobuf) list \<Rightarrow> http_data \<Rightarrow> http_data option" where
  "receive unset [] d = Some d"
| "receive unset (hb # hbs) d =
     (case Http_checkHeader unset (fst hb) (snd hb) (Some (Some d)) of
        Some (PARSE_NOT_ENOUGH_DATA, b', _, Some (Some d')) \<Rightarrow> if to_string (fst hb) b' = [] then receive unset hbs d' else None
      | _ \<Rightarrow> None)"

definition contents :: "(heap \<times> iobuf) list \<Rightarrow> bytes" where
  "contents hbs = concat (map (\<lambda>(h, b). to_string h b) hbs)"

lemma receive_body:
  assumes "\<forall>(h, b) \<in> set hbs. buf_ok h b" "pstate p = s_body_identity" "http_errno p = HPE_OK" "content_length p < ULLONG_MAX"
    "length (contents hbs) < content_length p"
  shows "\<exists>m'. receive unset hbs (p, m) = Some (p\<lparr>content_length := content_length p - length (contents hbs)\<rparr>, m') \<and>
    body m' = body m @ chars_of (contents hbs) \<and> url m' = url m \<and> header m' = header m"
  using assms
proof (induction hbs arbitrary: p m)
  case (Cons hb hbs)
  obtain h b where hb: "hb = (h, b)"
    by fastforce
  let ?xs = "to_string h b"
  let ?p = "p\<lparr>content_length := content_length p - length ?xs\<rparr>"
  let ?m = "m\<lparr>stage := if ?xs = [] then stage m else HTTP_ON_BODY, body := body m @ chars_of ?xs\<rparr>"
  have b: "buf_ok h b" and len: "length ?xs + length (contents hbs) < content_length p"
    using Cons(2,6) hb by (auto simp: contents_def)
  have "feed (slices_of h b) 0 (p, m) = Some (PARSE_NOT_ENOUGH_DATA, length ?xs, Some (?p, ?m))"
    using feed_body_more [OF Cons(3,4,5), of "slices_of h b" 0 m] len by simp
  then obtain b' where "Http_checkHeader unset h b (Some (Some (p, m))) = Some (PARSE_NOT_ENOUGH_DATA, b', 0, Some (Some (?p, ?m)))"
    "to_string h b' = []"
    using checkHeader_feed [OF b] by fastforce
  then have "receive unset (hb # hbs) (p, m) = receive unset hbs (?p, ?m)"
    using hb by simp
  moreover have "contents (hb # hbs) = ?xs @ contents hbs"
    using hb by (simp add: contents_def)
  ultimately show ?case
    using Cons(1) [of ?p ?m] Cons(2-5) len by (auto simp: diff_diff_left)
qed (simp add: contents_def)

text \<open>
  C5. A body of known length that arrives in any number of buffers of any number of slices is handed to the caller byte for
  byte. While bytes are missing, \<^verbatim>\<open>checkHeader\<close> asks for more and uses up the buffer; the buffer with the last byte
  completes the response, and \<^verbatim>\<open>deserialize\<close> gives the response this body and the headers that came before it.
\<close>

theorem http_body_received:
  assumes "\<forall>(h, b) \<in> set hbs. buf_ok h b" "buf_ok h b" "pstate p = s_body_identity" "http_errno p = HPE_OK" "\<not> upgrade p"
    "content_length p < ULLONG_MAX" "length (contents hbs) < content_length p" "length (contents hbs @ to_string h b) = content_length p"
  shows "\<exists>d b' d' rsp'. receive unset hbs (p, m) = Some d \<and>
    Http_checkHeader unset h b (Some (Some d)) = Some (PARSE_OK, b', 0, Some (Some d')) \<and> to_string h b' = [] \<and>
    parseHttpResponse rsp (Some d') = (PARSE_OK, rsp') \<and> rsp_body rsp' = body m @ chars_of (contents hbs @ to_string h b) \<and>
    rsp_url rsp' = url m \<and> rsp_header rsp' = header m"
proof -
  let ?p = "p\<lparr>content_length := content_length p - length (contents hbs)\<rparr>"
  obtain m' where m': "receive unset hbs (p, m) = Some (?p, m')" "body m' = body m @ chars_of (contents hbs)" "url m' = url m" "header m' = header m"
    using receive_body [OF assms(1,3,4,6,7), of unset m] by blast
  let ?m = "m'\<lparr>stage := HTTP_ON_MESSAGE_COMPLELE, body := body m' @ chars_of (to_string h b)\<rparr>"
  have len: "buf_length b = content_length p - length (contents hbs)" "content_length p - length (contents hbs) < ULLONG_MAX"
    using assms(6-8) by simp_all
  obtain p' where "feed (slices_of h b) 0 (?p, m') = Some (PARSE_OK, length (to_string h b), Some (p', ?m))"
    using feed_body_done [of ?p "slices_of h b" 0 m'] assms(3-8) len by auto
  then obtain b' where "Http_checkHeader unset h b (Some (Some (?p, m'))) = Some (PARSE_OK, b', 0, Some (Some (p', ?m)))" "to_string h b' = []"
    using checkHeader_feed [OF assms(2)] by fastforce
  moreover obtain rsp' where "parseHttpResponse rsp (Some (p', ?m)) = (PARSE_OK, rsp')" "rsp_body rsp' = body ?m" "rsp_url rsp' = url m'"
    "rsp_header rsp' = header m'"
    by (simp add: parseHttpResponse_def setHttpParser_def Http_deserialize_def)
  ultimately show ?thesis
    using m' by (intro exI [of _ "(?p, m')"] exI [of _ b'] exI [of _ "(p', ?m)"] exI [of _ rsp']) simp
qed

theorem http_body_received_witness:
  "\<exists>d b' d' rsp'. receive HTTP_ON_URL [(heap1, buf1)] ((http_parser_init HTTP_RESPONSE)\<lparr>pstate := s_body_identity, content_length := 12\<rparr>, new_info HTTP_ON_URL) = Some d \<and>
    Http_checkHeader HTTP_ON_URL heap1 buf1 (Some (Some d)) = Some (PARSE_OK, b', 0, Some (Some d')) \<and>
    parseHttpResponse new_HttpResponse (Some d') = (PARSE_OK, rsp') \<and>
    rsp_body rsp' = chars_of [4, 5, 6, 7, 8, 9, 4, 5, 6, 7, 8, 9]"
proof -
  let ?p = "(http_parser_init HTTP_RESPONSE)\<lparr>pstate := s_body_identity, content_length := 12\<rparr>"
  have "contents [(heap1, buf1)] = [4, 5, 6, 7, 8, 9]"
    by (simp add: contents_def buf1_bytes)
  then show ?thesis
    using http_body_received [of "[(heap1, buf1)]" heap1 buf1 ?p HTTP_ON_URL "new_info HTTP_ON_URL" new_HttpResponse] buf1_bytes
    by (fastforce simp: http_parser_init_def ULLONG_MAX_def new_info_def)
qed

text \<open>
  C9. Whatever bytes the server sends, cut into slices anyhow, \<^verbatim>\<open>checkHeader\<close> returns: no assertion of the parser
  fails and nothing outside a slice is read. It removes a prefix of the buffer. After an error no parser is kept; otherwise
  the kept parser is sound for the next call, and a response reported as complete is accepted by \<^verbatim>\<open>deserialize\<close>.
\<close>

theorem http_check_safe:
  assumes "buf_ok h b" "\<forall>parser info. p = Some (Some (parser, info)) \<longrightarrow> parser_inv parser"
  shows "\<exists>ret b' k q. Http_checkHeader unset h b p = Some (ret, b', 0, (case p of None \<Rightarrow> None | Some _ \<Rightarrow> Some q)) \<and>
    buf_ok h b' \<and> to_string h b' = drop k (to_string h b) \<and> k \<le> length (to_string h b) \<and> (q = None \<longleftrightarrow> ret = PARSE_ERROR) \<and>
    (\<forall>parser info. q = Some (parser, info) \<longrightarrow> parser_inv parser) \<and>
    (ret = PARSE_OK \<longrightarrow> fst (parseHttpResponse rsp q) = PARSE_OK)"
proof -
  define d where "d = (case p of Some (Some d) \<Rightarrow> d | _ \<Rightarrow> (http_parser_init HTTP_BOTH, new_info unset))"
  have "parser_inv (fst d)"
    using assms(2) init_inv by (auto simp: d_def split: option.splits)
  then obtain ret k q where f: "feed (slices_of h b) 0 (fst d, snd d) = Some (ret, k, q)" "k \<le> length (to_string h b)" "q = None \<longleftrightarrow> ret = PARSE_ERROR"
    "\<forall>p' m'. q = Some (p', m') \<longrightarrow> parser_inv p' \<and> (ret = PARSE_OK \<longrightarrow> stage m' = HTTP_ON_MESSAGE_COMPLELE)"
    using feed_safe [of "fst d" "slices_of h b" 0 "snd d"] by auto
  then have "Http_checkHeader unset h b p = Some (ret, fst (pop_front k b), 0, (case p of None \<Rightarrow> None | Some _ \<Rightarrow> Some q))"
    using check_loop_feed [of h b 0 0 d] by (simp add: Http_checkHeader_def d_def [symmetric])
  moreover have "fst (parseHttpResponse rsp q) = PARSE_OK" if "ret = PARSE_OK"
    using that f(3,4) by (cases q) (auto simp: parseHttpResponse_def setHttpParser_def Http_deserialize_def)
  ultimately show ?thesis
    using f pop_front_spec [OF assms(1) prod.collapse [symmetric], of k] by blast
qed

theorem http_check_safe_witness:
  "\<exists>ret b' q. Http_checkHeader HTTP_ON_URL heap1 buf1 (Some None) = Some (ret, b', 0, Some q)"
  using http_check_safe [of heap1 buf1 "Some None" HTTP_ON_URL new_HttpResponse] by auto

section \<open>The layout of a request\<close>

text \<open>What the standard promises of an iteration: every entry once, in some order.\<close>

definition iteration_ok :: "(header_map \<Rightarrow> (EHttpHeaderKey \<times> string) list) \<Rightarrow> bool" where
  "iteration_ok iter \<longleftrightarrow> (\<forall>m. finite (dom m) \<longrightarrow> distinct (map fst (iter m)) \<and> map_of (iter m) = m)"

definition lines_text :: "string list \<Rightarrow> string" where
  "lines_text ls = concat (map (\<lambda>l. l @ [CHR 0x0D, CHR 0x0A]) ls)"

definition attached :: "heap \<Rightarrow> HttpRequest \<Rightarrow> bytes" where
  "attached h r = (case request_data r of None \<Rightarrow> [] | Some d \<Rightarrow> to_string h d)"

text \<open>The lines of a request before the two that belong to the client, given the name of its method.\<close>

definition request_lines :: "string \<Rightarrow> heap \<Rightarrow> HttpRequest \<Rightarrow> string list" where
  "request_lines m h r = [m @ '' '' @ path (request_uri r) @ '' HTTP/1.1''] @
     (if m = ''GET'' then [] else [''Content-Length: '' @ dec (length (attached h r))]) @
     (if attch_type r = [] then [] else [''Content-Type: '' @ attch_type r]) @
     [''Host: '' @ host (request_uri r) @ '':'' @ dec_int (port (request_uri r)), ''Accept: */*'', ''User-Agent: curl/7.0'']"

definition client_lines :: "nat \<Rightarrow> string list" where
  "client_lines request_id = [''log-id: '' @ dec request_id, ''connection: keep-alive'']"

lemma lines_text_simps [simp]: "lines_text [] = []" "lines_text (l # ls) = l @ s_http_line_end @ lines_text ls" "lines_text (ls @ ks) = lines_text ls @ lines_text ks"
  by (simp_all add: lines_text_def s_http_line_end_def)

lemma client_header_lines:
  assumes "iteration_ok iter"
  obtains ks where "header_lines (iter (internal_headers request_id)) = Some (lines_text ks)" "mset ks = mset (client_lines request_id)"
proof -
  let ?m = "internal_headers request_id"
  let ?a = "(LOG_ID, dec request_id)" and ?b = "(CONNECTION, ''keep-alive'')"
  have m: "?m k = Some v \<longleftrightarrow> (k, v) \<in> {?a, ?b}" for k v
    by (auto simp: internal_headers_def setHeader_def)
  have "dom ?m = {CONNECTION, LOG_ID}"
    by (auto simp: internal_headers_def setHeader_def)
  then have it: "distinct (map fst (iter ?m))" "map_of (iter ?m) = ?m"
    using assms by (auto simp: iteration_ok_def)
  have "(k, v) \<in> set (iter ?m) \<longleftrightarrow> (k, v) \<in> {?a, ?b}" for k v
    using map_of_eq_Some_iff [OF it(1), of k v] it(2) m by simp
  then have "set (iter ?m) = {?a, ?b}"
    by (intro set_eqI) (simp only: split_paired_all)
  moreover have "distinct (iter ?m)"
    using it(1) by (simp add: distinct_map)
  ultimately have "mset (iter ?m) = mset [?a, ?b]"
    using set_eq_iff_mset_eq_distinct [of "iter ?m" "[?a, ?b]"] by simp
  then consider "iter ?m = [?a, ?b]" | "iter ?m = [?b, ?a]"
    by (cases "iter ?m"; cases "tl (iter ?m)") (auto simp: add_eq_conv_ex add_mset_eq_single)
  then show ?thesis
    by cases (use that [of "client_lines request_id"] that [of "rev (client_lines request_id)"] in
      \<open>simp_all add: client_lines_def s_http_line_end_def\<close>)
qed

text \<open>
  C11. Assembling a request with a parsed URI appends to the buffer the request line, the header lines, the client's two
  lines in some order, an empty line and the attached bytes. The length announced is the number of attached bytes. The
  attached bytes are moved: the request holds none afterwards. Every other buffer keeps its contents.
\<close>

theorem http_request_layout:
  assumes "iteration_ok iter" "heap_ready h" "buf_ok h b" "parse_ok (request_uri r)" "getMethod (request_method r) = Some m"
    "\<forall>d. request_data r = Some d \<longrightarrow> buf_ok h d \<and> ref_offset d = 0" "buf_ok h c"
  shows "\<exists>h' b' r' ks. assembleHttpRequest iter h r request_id b = Some (True, h', b', r') \<and> heap_ready h' \<and> buf_ok h' b' \<and>
    mset ks = mset (client_lines request_id) \<and>
    to_string h' b' = to_string h b @ bytes_of (lines_text (request_lines m h r @ ks @ [[]])) @ attached h r \<and>
    attached h' r' = [] \<and> to_string h' c = to_string h c"
proof -
  obtain ks where ks: "header_lines (iter (internal_headers request_id)) = Some (lines_text ks)" "mset ks = mset (client_lines request_id)"
    by (rule client_header_lines [OF assms(1)])
  have "attach_size r = length (attached h r)"
    by (simp add: attach_size_def attached_def split: option.splits)
  moreover have "request_method r \<noteq> HTTP_METHOD_GET \<longleftrightarrow> m \<noteq> ''GET''"
    using assms(5) by (cases "request_method r") auto
  ultimately have t: "request_text iter r (internal_headers request_id) = Some (lines_text (request_lines m h r @ ks @ [[]]))"
    using assms(5) ks(1) by (simp add: request_text_def request_lines_def)
  obtain h1 b1 where 1: "append_data h b (Some (bytes_of (lines_text (request_lines m h r @ ks @ [[]])))) = Some (h1, b1)" "heap_ready h1" "grows h h1"
    "buf_ok h1 b1" "to_string h1 b1 = to_string h b @ bytes_of (lines_text (request_lines m h r @ ks @ [[]]))"
    using sink.appE [OF assms(2,3)] by blast
  note keep = sink.frame [OF 1(3)]
  show ?thesis
  proof (cases "request_data r")
    case None
    then show ?thesis
      using t 1 keep [OF assms(7)] ks(2) assms(4) by (auto simp: assembleHttpRequest_def Http_serialize_def attached_def)
  next
    case (Some d)
    then have d: "buf_ok h1 d" "to_string h1 d = to_string h d" "ref_offset d = 0"
      using assms(6) keep by auto
    have "assembleHttpRequest iter h r request_id b = Some (True, h1, fst (append_move b1 d), r\<lparr>request_data := Some (buf_clear d)\<rparr>)"
      using t 1(1) Some assms(4) by (simp add: assembleHttpRequest_def Http_serialize_def append_move_def)
    moreover have "attached h1 (r\<lparr>request_data := Some (buf_clear d)\<rparr>) = []"
      by (simp add: attached_def buf_clear_def to_string_def)
    ultimately show ?thesis
      using append_move_spec [OF 1(4) d(1,3)] d(2) 1(2,5) ks(2) keep [OF assms(7)] Some by (auto simp: attached_def)
  qed
qed

definition iterate :: "header_map \<Rightarrow> (EHttpHeaderKey \<times> string) list" where
  "iterate m = concat (map (\<lambda>k. case m k of None \<Rightarrow> [] | Some v \<Rightarrow> [(k, v)]) [LOG_ID, CONTENT_TYPE_JSON, CONNECTION, HTTP_HEADER_KEY_SIZE])"

lemma iterate_ok: "iteration_ok iterate"
  unfolding iteration_ok_def
proof (intro allI impI conjI)
  fix m :: header_map
  show "distinct (map fst (iterate m))"
    by (simp add: iterate_def split: option.splits)
  show "map_of (iterate m) = m"
  proof
    fix k
    show "map_of (iterate m) k = m k"
      by (cases k) (simp_all add: iterate_def split: option.splits)
  qed
qed

theorem http_request_layout_witness:
  "\<exists>h' b' r'. assembleHttpRequest iterate heap0 \<lparr>request_uri = (URI 80)\<lparr>host := ''h'', path := ''/''\<rparr>, request_method = HTTP_METHOD_POST,
      attch_type = [], request_data = Some buf_new\<rparr> 7 buf_new = Some (True, h', b', r') \<and> attached h' r' = []"
proof -
  have "ref_offset buf_new = 0"
    by (simp add: buf_new_def)
  then show ?thesis
    using http_request_layout [OF iterate_ok heap_ready_heap0 buf_new_ok(1), of "\<lparr>request_uri = (URI 80)\<lparr>host := ''h'', path := ''/''\<rparr>,
        request_method = HTTP_METHOD_POST, attch_type = [], request_data = Some buf_new\<rparr>" "''POST''" buf_new 7] buf_new_ok(1) [of heap0]
    by (auto simp: URI_def)
qed

section \<open>Whole slices\<close>








lemma chars_of_bytes_of [simp]: "chars_of (bytes_of s) = s"
proof -
  have "char_of (unat (of_char c :: u8)) = c" for c
    by (simp add: of_nat_of_char [of c, where 'a = u8, symmetric] unsigned_of_nat take_bit_eq_mod del: of_nat_of_char)
  then show ?thesis
    by (simp add: chars_of_def bytes_of_def comp_def)
qed




end
