(* ===== verification/LockFreeQueue.thy ===== *)
theory LockFreeQueue
  imports Prelude
begin

text \<open>
  The three ring queues of \<^verbatim>\<open>include/common/lockfree_queue.h\<close>. A queue is a buffer of a power of two of slots and two
  free-running 64-bit indices, masked when a slot is accessed. A slot is raw memory (\<open>None\<close>) or holds an object. Each
  operation is given as a function; the step relations interleave its accesses to the shared indices with those of the
  other threads, and record what was pushed and popped in order.
\<close>

section \<open>The ring\<close>

record 'a ring =
  q_capacity :: u64
  q_mask :: u64
  q_buffer :: "nat \<Rightarrow> 'a option"
  read_idx :: u64
  write_idx :: u64

definition new_ring :: "u64 \<Rightarrow> 'a ring" where
  "new_ring capacity =
     \<lparr>q_capacity = capacity, q_mask = capacity - 1, q_buffer = (\<lambda>_. None), read_idx = 0, write_idx = 0\<rparr>"

definition slot :: "'a ring \<Rightarrow> u64 \<Rightarrow> nat" where
  "slot q i = unat (i AND q_mask q)"

definition size_q :: "'a ring \<Rightarrow> u64" where
  "size_q q = (let w = write_idx q; r = read_idx q in if w \<le> r then 0 else w - r)"

definition full :: "'a ring \<Rightarrow> bool" where
  "full q \<longleftrightarrow> write_idx q \<ge> read_idx q + q_capacity q"

definition empty_q :: "'a ring \<Rightarrow> bool" where
  "empty_q q \<longleftrightarrow> read_idx q = write_idx q"

definition construct :: "'a \<Rightarrow> 'a ring \<Rightarrow> 'a ring" where
  "construct v q = q\<lparr>q_buffer := (q_buffer q)(slot q (write_idx q) := Some v)\<rparr>"

definition publish :: "'a ring \<Rightarrow> 'a ring" where
  "publish q = q\<lparr>write_idx := write_idx q + 1\<rparr>"

definition destruct :: "u64 \<Rightarrow> 'a ring \<Rightarrow> 'a ring" where
  "destruct i q = q\<lparr>q_buffer := (q_buffer q)(slot q i := None)\<rparr>"

definition retire :: "'a ring \<Rightarrow> 'a ring" where
  "retire q = q\<lparr>read_idx := read_idx q + 1\<rparr>"

section \<open>What a bounded queue promises\<close>

text \<open>
  \<open>holds r xs q\<close> says that \<open>q\<close> holds \<open>xs\<close> after \<open>r\<close> elements have been taken. A client that pushes no more than the
  capacity and then takes as much gets it back in order.
\<close>

fun push_all :: "('a \<Rightarrow> 'q \<Rightarrow> 'q \<times> bool) \<Rightarrow> 'a list \<Rightarrow> 'q \<Rightarrow> 'q" where
  "push_all push [] q = q"
| "push_all push (x # xs) q = push_all push xs (fst (push x q))"

fun pop_all :: "('q \<Rightarrow> 'q \<times> bool \<times> 'a option) \<Rightarrow> nat \<Rightarrow> 'q \<Rightarrow> 'a option list" where
  "pop_all pop 0 q = []"
| "pop_all pop (Suc n) q = (let (q', ok, x) = pop q in x # pop_all pop n q')"

locale bounded_queue =
  fixes holds :: "nat \<Rightarrow> 'a list \<Rightarrow> 'q \<Rightarrow> bool" and cap :: nat
    and push :: "'a \<Rightarrow> 'q \<Rightarrow> 'q \<times> bool" and pop :: "'q \<Rightarrow> 'q \<times> bool \<times> 'a option"
  assumes push_law: "holds r xs q \<Longrightarrow> r + cap < 2 ^ 64 \<Longrightarrow>
      if length xs < cap then \<exists>q'. push v q = (q', True) \<and> holds r (xs @ [v]) q' else push v q = (q, False)"
    and pop_law: "holds r xs q \<Longrightarrow>
      case xs of [] \<Rightarrow> pop q = (q, False, None) | y # ys \<Rightarrow> \<exists>q'. pop q = (q', True, Some y) \<and> holds (Suc r) ys q'"
begin

lemma push_all_holds:
  "holds r xs q \<Longrightarrow> r + cap < 2 ^ 64 \<Longrightarrow> length (xs @ ys) \<le> cap \<Longrightarrow> holds r (xs @ ys) (push_all push ys q)"
proof (induction ys arbitrary: xs q)
  case (Cons y ys)
  then have "holds r (xs @ [y]) (fst (push y q))"
    using push_law [of r xs q y] by auto
  from Cons.IH [OF this] Cons.prems show ?case
    by simp
qed simp

lemma pop_all_holds: "holds r (xs @ ys) q \<Longrightarrow> pop_all pop (length xs) q = map Some xs"
proof (induction xs arbitrary: r q)
  case (Cons x xs)
  from pop_law [OF Cons.prems] obtain q' where q': "pop q = (q', True, Some x)" "holds (Suc r) (xs @ ys) q'"
    by auto
  then show ?case
    using Cons.IH [OF q'(2)] by simp
qed simp

lemma push_pop_all:
  assumes "holds r [] q" "r + cap < 2 ^ 64" "length xs \<le> cap"
  shows "pop_all pop (length xs) (push_all push xs q) = map Some xs"
  using push_all_holds [OF assms(1,2), of xs] assms(3) pop_all_holds [of r xs "[]"] by simp

end

section \<open>The queue of one producer and one consumer\<close>

definition SPSC_push :: "'a \<Rightarrow> 'a ring \<Rightarrow> 'a ring \<times> bool" where
  "SPSC_push v q = (if full q then (q, False) else (publish (construct v q), True))"

definition SPSC_front :: "'a ring \<Rightarrow> 'a option" where
  "SPSC_front q = q_buffer q (slot q (read_idx q))"

definition SPSC_pop :: "'a ring \<Rightarrow> 'a ring \<times> bool \<times> 'a option" where
  "SPSC_pop q =
     (if empty_q q then (q, False, None)
      else let val = q_buffer q (slot q (read_idx q)) in (retire (destruct (read_idx q) q), True, val))"

function SPSC_destroy_loop :: "u64 \<Rightarrow> u64 \<Rightarrow> 'a ring \<Rightarrow> 'a ring" where
  "SPSC_destroy_loop read write q =
     (if read \<noteq> write then SPSC_destroy_loop (read + 1) write (destruct read q) else q)"
  by auto
termination
proof (relation "measure (\<lambda>(read, write, q). unat (write - read))", goal_cases)
  case (2 r w q)
  then have "0 < unat (w - r)"
    by (simp add: unat_gt_0)
  then have "unat (w - r - 1) = unat (w - r) - 1"
    by (simp add: unat_sub word_le_nat_alt)
  then show ?case
    using \<open>0 < unat (w - r)\<close> by (simp add: algebra_simps)
qed simp

declare SPSC_destroy_loop.simps [simp del]

definition SPSC_destroy :: "'a ring \<Rightarrow> 'a ring" where
  "SPSC_destroy q = SPSC_destroy_loop (read_idx q) (write_idx q) q"

text \<open>
  The producer and the consumer between their accesses to the shared indices. The producer reads its own index and the
  consumer's in one step, as nobody else changes its own; so does the consumer.
\<close>

datatype 'a producer = P_idle | P_checked 'a | P_constructed 'a
datatype 'a consumer = C_idle | C_checked | C_taken "'a option"

record 'a spsc_run =
  sp_queue :: "'a ring"
  producer :: "'a producer"
  consumer :: "'a consumer"
  pushed :: "'a list"
  popped :: "'a option list"

definition spsc_start :: "u64 \<Rightarrow> 'a spsc_run" where
  "spsc_start capacity =
     \<lparr>sp_queue = new_ring capacity, producer = P_idle, consumer = C_idle, pushed = [], popped = []\<rparr>"

inductive spsc_step :: "'a spsc_run \<Rightarrow> 'a spsc_run \<Rightarrow> bool" where
  push_check: "producer s = P_idle \<Longrightarrow> \<not> full (sp_queue s) \<Longrightarrow> spsc_step s (s\<lparr>producer := P_checked v\<rparr>)"
| push_construct: "producer s = P_checked v \<Longrightarrow>
    spsc_step s (s\<lparr>producer := P_constructed v, sp_queue := construct v (sp_queue s)\<rparr>)"
| push_publish: "producer s = P_constructed v \<Longrightarrow>
    spsc_step s (s\<lparr>producer := P_idle, sp_queue := publish (sp_queue s), pushed := pushed s @ [v]\<rparr>)"
| pop_check: "consumer s = C_idle \<Longrightarrow> \<not> empty_q (sp_queue s) \<Longrightarrow> spsc_step s (s\<lparr>consumer := C_checked\<rparr>)"
| pop_take: "consumer s = C_checked \<Longrightarrow>
    spsc_step s (s\<lparr>consumer := C_taken (SPSC_front (sp_queue s)),
      sp_queue := destruct (read_idx (sp_queue s)) (sp_queue s)\<rparr>)"
| pop_retire: "consumer s = C_taken x \<Longrightarrow>
    spsc_step s (s\<lparr>consumer := C_idle, sp_queue := retire (sp_queue s), popped := popped s @ [x]\<rparr>)"

text \<open>
  The state of a ring after \<open>r\<close> pops of what was pushed in the order \<open>xs\<close>: the indices count modulo their width.
\<close>

definition ring_counts :: "nat \<Rightarrow> nat \<Rightarrow> nat \<Rightarrow> 'a ring \<Rightarrow> bool" where
  "ring_counts k r w q \<longleftrightarrow> k < 64 \<and> q_capacity q = 2 ^ k \<and> q_mask q = 2 ^ k - 1 \<and>
     read_idx q = of_nat r \<and> write_idx q = of_nat w \<and> r \<le> w \<and> w \<le> r + 2 ^ k"

lemma slot_counts: "ring_counts k r w q \<Longrightarrow> slot q (of_nat i) = i mod 2 ^ k"
proof -
  assume c: "ring_counts k r w q"
  have "unat (of_nat i AND mask k :: u64) = i mod 2 ^ 64 mod 2 ^ k"
    by (simp only: unat_and_mask unsigned_of_nat take_bit_eq_mod) simp
  also have "\<dots> = i mod 2 ^ k"
    by (intro mod_mod_cancel le_imp_power_dvd) (use c in \<open>simp add: ring_counts_def\<close>)
  finally show ?thesis
    using c by (simp add: slot_def ring_counts_def mask_eq_exp_minus_1)
qed

lemma of_nat_counts:
  assumes "ring_counts k r w q" "r \<le> a" "a \<le> r + 2 ^ k" "r \<le> b" "b \<le> r + 2 ^ k"
  shows "(of_nat a :: u64) = of_nat b \<longleftrightarrow> a = b"
proof
  assume "(of_nat a :: u64) = of_nat b"
  then have "unat (of_nat (a - r) :: u64) = unat (of_nat (b - r) :: u64)"
    using assms(2,4) by (simp add: of_nat_diff)
  moreover have "(2::nat) ^ k < 2 ^ 64"
    using assms(1) by (intro power_strict_increasing) (auto simp: ring_counts_def)
  then have "a - r < 2 ^ 64" "b - r < 2 ^ 64"
    using assms by linarith+
  ultimately have "a - r = b - r"
    by (simp add: unsigned_of_nat take_bit_eq_mod del: of_nat_diff)
  then show "a = b"
    using assms(2,4) by linarith
qed simp

lemma empty_counts: "ring_counts k r w q \<Longrightarrow> empty_q q \<longleftrightarrow> r = w"
  using of_nat_counts [of k r w q r w] by (auto simp: empty_q_def ring_counts_def)

lemma full_counts: "ring_counts k r w q \<Longrightarrow> \<not> full q \<Longrightarrow> w < r + 2 ^ k"
  by (cases "w = r + 2 ^ k") (auto simp: full_def ring_counts_def)

lemma ring_counts_simps [simp]:
  "ring_counts k r w (construct v q) = ring_counts k r w q"
  "ring_counts k r w (destruct i q) = ring_counts k r w q"
  by (auto simp: ring_counts_def construct_def destruct_def)

lemma ring_counts_publish: "ring_counts k r w q \<Longrightarrow> w < r + 2 ^ k \<Longrightarrow> ring_counts k r (Suc w) (publish q)"
  by (auto simp: ring_counts_def publish_def algebra_simps)

lemma ring_counts_retire: "ring_counts k r w q \<Longrightarrow> r < w \<Longrightarrow> ring_counts k (Suc r) w (retire q)"
  by (auto simp: ring_counts_def retire_def algebra_simps)

lemma ring_counts_new: "k < 64 \<Longrightarrow> ring_counts k 0 0 (new_ring (2 ^ k))"
  by (simp add: ring_counts_def new_ring_def)

lemma window_inj:
  assumes "r \<le> a" "a < r + m" "r \<le> b" "b < r + m" "a mod m = b mod (m :: nat)"
  shows "a = b"
proof -
  have "a = b" if "a \<le> b" "b - a < m" "a mod m = b mod m" for a b :: nat
  proof -
    have "m dvd b - a"
      using that mod_eq_dvd_iff_nat [of a b m] by simp
    then show ?thesis
      using that dvd_imp_le [of m "b - a"] by (cases "b = a") auto
  qed
  from this [of a b] this [of b a] show ?thesis
    using assms by linarith
qed

text \<open>What the slot of the \<open>i\<close>-th element holds, for the indices of one turn of the ring.\<close>

fun taken :: "'a consumer \<Rightarrow> bool" where
  "taken (C_taken x) = True"
| "taken _ = False"

definition spsc_slot :: "'a spsc_run \<Rightarrow> nat \<Rightarrow> 'a option" where
  "spsc_slot s i =
     (if i < length (pushed s) then if i = length (popped s) \<and> taken (consumer s) then None else Some (pushed s ! i)
      else if i = length (pushed s) then (case producer s of P_constructed v \<Rightarrow> Some v | _ \<Rightarrow> None)
      else None)"

definition spsc_inv :: "nat \<Rightarrow> 'a spsc_run \<Rightarrow> bool" where
  "spsc_inv k s \<longleftrightarrow>
     (let q = sp_queue s; xs = pushed s; r = length (popped s); w = length xs in
      ring_counts k r w q \<and> map Some (take r xs) = popped s \<and>
      (producer s \<noteq> P_idle \<longrightarrow> w < r + 2 ^ k) \<and> (consumer s \<noteq> C_idle \<longrightarrow> r < w) \<and>
      (\<forall>x. consumer s = C_taken x \<longrightarrow> x = Some (xs ! r)) \<and>
      (\<forall>i. r \<le> i \<and> i < r + 2 ^ k \<longrightarrow> q_buffer q (i mod 2 ^ k) = spsc_slot s i))"

lemma spsc_invD:
  assumes "spsc_inv k s"
  shows "ring_counts k (length (popped s)) (length (pushed s)) (sp_queue s)"
    and "map Some (take (length (popped s)) (pushed s)) = popped s"
    and "producer s \<noteq> P_idle \<Longrightarrow> length (pushed s) < length (popped s) + 2 ^ k"
    and "consumer s \<noteq> C_idle \<Longrightarrow> length (popped s) < length (pushed s)"
    and "consumer s = C_taken x \<Longrightarrow> x = Some (pushed s ! length (popped s))"
    and "length (popped s) \<le> i \<Longrightarrow> i < length (popped s) + 2 ^ k \<Longrightarrow> q_buffer (sp_queue s) (i mod 2 ^ k) = spsc_slot s i"
  using assms unfolding spsc_inv_def Let_def by blast+

lemma spsc_invI:
  assumes "ring_counts k (length (popped s)) (length (pushed s)) (sp_queue s)"
    and "map Some (take (length (popped s)) (pushed s)) = popped s"
    and "producer s \<noteq> P_idle \<Longrightarrow> length (pushed s) < length (popped s) + 2 ^ k"
    and "consumer s \<noteq> C_idle \<Longrightarrow> length (popped s) < length (pushed s)"
    and "\<And>x. consumer s = C_taken x \<Longrightarrow> x = Some (pushed s ! length (popped s))"
    and "\<And>i. length (popped s) \<le> i \<Longrightarrow> i < length (popped s) + 2 ^ k \<Longrightarrow>
      q_buffer (sp_queue s) (i mod 2 ^ k) = spsc_slot s i"
  shows "spsc_inv k s"
  using assms unfolding spsc_inv_def Let_def by blast

lemma spsc_inv_start: "k < 64 \<Longrightarrow> spsc_inv k (spsc_start (2 ^ k))"
  using ring_counts_new [of k] by (auto simp: spsc_inv_def spsc_start_def spsc_slot_def new_ring_def)

lemma slot_read: "ring_counts k r w q \<Longrightarrow> slot q (read_idx q) = r mod 2 ^ k"
  using slot_counts [of k r w q r] by (simp add: ring_counts_def)

lemma slot_write: "ring_counts k r w q \<Longrightarrow> slot q (write_idx q) = w mod 2 ^ k"
  using slot_counts [of k r w q w] by (simp add: ring_counts_def)

lemma spsc_push_check:
  assumes "spsc_inv k s" "producer s = P_idle" "\<not> full (sp_queue s)"
  shows "spsc_inv k (s\<lparr>producer := P_checked v\<rparr>)"
proof (rule spsc_invI)
  note I = spsc_invD [OF assms(1)]
  show "x = Some (pushed (s\<lparr>producer := P_checked v\<rparr>) ! length (popped (s\<lparr>producer := P_checked v\<rparr>)))" if "consumer (s\<lparr>producer := P_checked v\<rparr>) = C_taken x" for x
    using that I(5) [of x] by simp
  show "length (pushed (s\<lparr>producer := P_checked v\<rparr>)) < length (popped (s\<lparr>producer := P_checked v\<rparr>)) + 2 ^ k"
    using full_counts [OF I(1) assms(3)] by simp
  show "q_buffer (sp_queue (s\<lparr>producer := P_checked v\<rparr>)) (i mod 2 ^ k) = spsc_slot (s\<lparr>producer := P_checked v\<rparr>) i"
    if "length (popped (s\<lparr>producer := P_checked v\<rparr>)) \<le> i" "i < length (popped (s\<lparr>producer := P_checked v\<rparr>)) + 2 ^ k" for i
    using that I(6) [of i] assms(2) by (auto simp: spsc_slot_def)
qed (use spsc_invD(1-4) [OF assms(1)] in simp_all)

lemma spsc_push_construct:
  assumes "spsc_inv k s" "producer s = P_checked v"
  shows "spsc_inv k (s\<lparr>producer := P_constructed v, sp_queue := construct v (sp_queue s)\<rparr>)" (is "spsc_inv k ?s")
proof (rule spsc_invI)
  note I = spsc_invD [OF assms(1)]
  show "x = Some (pushed ?s ! length (popped ?s))" if "consumer ?s = C_taken x" for x
    using that I(5) [of x] by simp
  have w: "length (popped s) \<le> length (pushed s)" "length (pushed s) < length (popped s) + 2 ^ k"
    using I(1,3) assms(2) by (simp_all add: ring_counts_def)
  show "q_buffer (sp_queue ?s) (i mod 2 ^ k) = spsc_slot ?s i"
    if "length (popped ?s) \<le> i" "i < length (popped ?s) + 2 ^ k" for i
    using that I(6) [of i] w window_inj [of "length (popped s)" i "2 ^ k" "length (pushed s)"]
    by (auto simp: construct_def slot_write [OF I(1)] spsc_slot_def)
qed (use spsc_invD(1-4) [OF assms(1)] assms(2) in simp_all)

lemma spsc_push_publish:
  assumes "spsc_inv k s" "producer s = P_constructed v"
  shows "spsc_inv k (s\<lparr>producer := P_idle, sp_queue := publish (sp_queue s), pushed := pushed s @ [v]\<rparr>)" (is "spsc_inv k ?s")
proof (rule spsc_invI)
  note I = spsc_invD [OF assms(1)]
  have w: "length (popped s) \<le> length (pushed s)" "length (pushed s) < length (popped s) + 2 ^ k"
    using I(1,3) assms(2) by (simp_all add: ring_counts_def)
  show "ring_counts k (length (popped ?s)) (length (pushed ?s)) (sp_queue ?s)"
    using ring_counts_publish [OF I(1) w(2)] by simp
  show "map Some (take (length (popped ?s)) (pushed ?s)) = popped ?s"
    using I(2) w(1) by simp
  show "length (popped ?s) < length (pushed ?s)" if "consumer ?s \<noteq> C_idle"
    using w(1) by simp
  show "x = Some (pushed ?s ! length (popped ?s))" if "consumer ?s = C_taken x" for x
    using that I(4) I(5) [of x] by (simp add: nth_append)
  show "q_buffer (sp_queue ?s) (i mod 2 ^ k) = spsc_slot ?s i"
    if "length (popped ?s) \<le> i" "i < length (popped ?s) + 2 ^ k" for i
    using that I(4) I(6) [of i] assms(2) by (cases "consumer s") (auto simp: publish_def spsc_slot_def nth_append)
qed simp

lemma spsc_pop_check:
  assumes "spsc_inv k s" "consumer s = C_idle" "\<not> empty_q (sp_queue s)"
  shows "spsc_inv k (s\<lparr>consumer := C_checked\<rparr>)" (is "spsc_inv k ?s")
proof (rule spsc_invI)
  note I = spsc_invD [OF assms(1)]
  show "x = Some (pushed ?s ! length (popped ?s))" if "consumer ?s = C_taken x" for x
    using that I(5) [of x] by simp
  show "length (popped ?s) < length (pushed ?s)"
    using I(1) empty_counts [OF I(1)] assms(3) by (simp add: ring_counts_def)
  show "q_buffer (sp_queue ?s) (i mod 2 ^ k) = spsc_slot ?s i"
    if "length (popped ?s) \<le> i" "i < length (popped ?s) + 2 ^ k" for i
    using that I(6) [of i] assms(2) by (auto simp: spsc_slot_def)
qed (use spsc_invD(1-4) [OF assms(1)] in simp_all)

lemma spsc_pop_take:
  assumes "spsc_inv k s" "consumer s = C_checked"
  shows "spsc_inv k (s\<lparr>consumer := C_taken (SPSC_front (sp_queue s)),
      sp_queue := destruct (read_idx (sp_queue s)) (sp_queue s)\<rparr>)" (is "spsc_inv k ?s")
proof (rule spsc_invI)
  note I = spsc_invD [OF assms(1)]
  have r: "length (popped s) < length (pushed s)"
    using I(4) assms(2) by simp
  show "x = Some (pushed ?s ! length (popped ?s))" if "consumer ?s = C_taken x" for x
    using that r I(6) [of "length (popped s)"] assms(2) by (auto simp: SPSC_front_def slot_read [OF I(1)] spsc_slot_def)
  show "q_buffer (sp_queue ?s) (i mod 2 ^ k) = spsc_slot ?s i"
    if "length (popped ?s) \<le> i" "i < length (popped ?s) + 2 ^ k" for i
  proof (cases "i = length (popped s)")
    case True
    then show ?thesis
      using r by (simp add: destruct_def slot_read [OF I(1)] spsc_slot_def)
  next
    case False
    then have "i mod 2 ^ k \<noteq> length (popped s) mod 2 ^ k"
      using that window_inj [of "length (popped s)" i "2 ^ k" "length (popped s)"] by auto
    then show ?thesis
      using False that I(6) [of i] assms(2) by (auto simp: destruct_def slot_read [OF I(1)] spsc_slot_def)
  qed
qed (use spsc_invD(1-4) [OF assms(1)] assms(2) in simp_all)

lemma spsc_pop_retire:
  assumes "spsc_inv k s" "consumer s = C_taken x"
  shows "spsc_inv k (s\<lparr>consumer := C_idle, sp_queue := retire (sp_queue s), popped := popped s @ [x]\<rparr>)" (is "spsc_inv k ?s")
proof (rule spsc_invI)
  note I = spsc_invD [OF assms(1)]
  have r: "length (popped s) < length (pushed s)"
    using I(4) assms(2) by simp
  have x: "x = Some (pushed s ! length (popped s))"
    using I(5) assms(2) .
  show "ring_counts k (length (popped ?s)) (length (pushed ?s)) (sp_queue ?s)"
    using ring_counts_retire [OF I(1) r] by simp
  show "map Some (take (length (popped ?s)) (pushed ?s)) = popped ?s"
    using I(2) r x by (simp add: take_Suc_conv_app_nth)
  show "length (pushed ?s) < length (popped ?s) + 2 ^ k" if "producer ?s \<noteq> P_idle"
    using that I(3) by simp
  show "q_buffer (sp_queue ?s) (i mod 2 ^ k) = spsc_slot ?s i"
    if i: "length (popped ?s) \<le> i" "i < length (popped ?s) + 2 ^ k" for i
  proof (cases "i = length (popped s) + 2 ^ k")
    case True
    then have "q_buffer (sp_queue s) (i mod 2 ^ k) = None"
      using r I(6) [of "length (popped s)"] assms(2) by (simp add: spsc_slot_def)
    then show ?thesis
      using True I(1,3) by (auto simp: retire_def spsc_slot_def ring_counts_def split: producer.splits)
  next
    case False
    then show ?thesis
      using i I(6) [of i] assms(2) by (auto simp: retire_def spsc_slot_def)
  qed
qed simp_all

lemma spsc_step_inv: "spsc_step s s' \<Longrightarrow> spsc_inv k s \<Longrightarrow> spsc_inv k s'"
  by (cases rule: spsc_step.cases)
     (auto intro: spsc_push_check spsc_push_construct spsc_push_publish spsc_pop_check spsc_pop_take spsc_pop_retire)

lemma spsc_steps_inv: "spsc_step\<^sup>*\<^sup>* s s' \<Longrightarrow> spsc_inv k s \<Longrightarrow> spsc_inv k s'"
  by (induction rule: rtranclp_induct) (auto intro: spsc_step_inv)

text \<open>
  The operations run without interruption, on a ring that holds \<open>xs\<close> after \<open>r\<close> pops and is raw elsewhere.
\<close>

definition ring_holds :: "nat \<Rightarrow> nat \<Rightarrow> 'a list \<Rightarrow> 'a ring \<Rightarrow> bool" where
  "ring_holds k r xs q \<longleftrightarrow> ring_counts k r (r + length xs) q \<and>
     (\<forall>i < 2 ^ k. q_buffer q ((r + i) mod 2 ^ k) = (if i < length xs then Some (xs ! i) else None))"

lemma ring_holdsD:
  assumes "ring_holds k r xs q"
  shows "ring_counts k r (r + length xs) q" "length xs \<le> 2 ^ k"
    and "i < 2 ^ k \<Longrightarrow> q_buffer q ((r + i) mod 2 ^ k) = (if i < length xs then Some (xs ! i) else None)"
  using assms by (auto simp: ring_holds_def ring_counts_def)

lemma ring_holds_new: "k < 64 \<Longrightarrow> ring_holds k 0 [] (new_ring (2 ^ k))"
  using ring_counts_new [of k] by (simp add: ring_holds_def new_ring_def)

lemma full_iff:
  assumes "ring_counts k r w q" "r + 2 ^ k < 2 ^ 64"
  shows "full q \<longleftrightarrow> w = r + 2 ^ k"
proof -
  have w: "r \<le> w" "w \<le> r + 2 ^ k"
    using assms(1) by (simp_all add: ring_counts_def)
  then have "unat (of_nat w :: u64) = w" "unat (of_nat (r + 2 ^ k) :: u64) = r + 2 ^ k"
    using assms(2) by (simp_all only: unsigned_of_nat take_bit_eq_mod) simp_all
  moreover have "full q \<longleftrightarrow> (of_nat (r + 2 ^ k) :: u64) \<le> of_nat w"
    using assms(1) by (simp add: full_def ring_counts_def)
  ultimately show ?thesis
    using w by (simp only: word_le_nat_alt) auto
qed

lemma push_holds:
  assumes "ring_holds k r xs q" "length xs < 2 ^ k"
  shows "ring_holds k r (xs @ [v]) (publish (construct v q))"
proof -
  note H = ring_holdsD [OF assms(1)]
  have "ring_counts k r (r + length (xs @ [v])) (publish (construct v q))"
    using ring_counts_publish [of k r "r + length xs" "construct v q"] H(1) assms(2) by simp
  moreover have "q_buffer (publish (construct v q)) ((r + i) mod 2 ^ k) =
      (if i < length (xs @ [v]) then Some ((xs @ [v]) ! i) else None)" if "i < 2 ^ k" for i
  proof -
    have "(r + i) mod 2 ^ k = (r + length xs) mod 2 ^ k \<longleftrightarrow> i = length xs"
      using that assms(2) window_inj [of r "r + i" "2 ^ k" "r + length xs"] by auto
    then show ?thesis
      using that H(3) by (auto simp: publish_def construct_def slot_write [OF H(1)] nth_append)
  qed
  ultimately show ?thesis
    by (simp add: ring_holds_def)
qed

lemma pop_holds:
  assumes "ring_holds k r (x # xs) q"
  shows "q_buffer q (slot q (read_idx q)) = Some x" "ring_holds k (Suc r) xs (retire (destruct (read_idx q) q))"
proof -
  note H = ring_holdsD [OF assms]
  show "q_buffer q (slot q (read_idx q)) = Some x"
    using H(3) [of 0] by (simp add: slot_read [OF H(1)])
  have "ring_counts k (Suc r) (Suc r + length xs) (retire (destruct (read_idx q) q))"
    using ring_counts_retire [of k r "r + length (x # xs)" "destruct (read_idx q) q"] H(1) by simp
  moreover have "q_buffer (retire (destruct (read_idx q) q)) ((Suc r + i) mod 2 ^ k) =
      (if i < length xs then Some (xs ! i) else None)" if "i < 2 ^ k" for i
  proof (cases "Suc i = 2 ^ k")
    case True
    then have "Suc r + i = r + 2 ^ k"
      by simp
    then have "(Suc r + i) mod 2 ^ k = r mod 2 ^ k"
      by (simp only: mod_add_self2)
    then show ?thesis
      using True H(2) by (simp add: retire_def destruct_def slot_read [OF H(1)])
  next
    case False
    then have "(Suc r + i) mod 2 ^ k \<noteq> r mod 2 ^ k"
      using that window_inj [of r "Suc r + i" "2 ^ k" r] by auto
    then show ?thesis
      using False that H(3) [of "Suc i"] by (simp add: retire_def destruct_def slot_read [OF H(1)])
  qed
  ultimately show "ring_holds k (Suc r) xs (retire (destruct (read_idx q) q))"
    by (simp add: ring_holds_def)
qed

lemma empty_holds: "ring_holds k r xs q \<Longrightarrow> empty_q q \<longleftrightarrow> xs = []"
  using empty_counts [OF ring_holdsD(1)] by fastforce

lemma size_holds:
  assumes "ring_holds k r xs q" "r + 2 ^ k < 2 ^ 64"
  shows "size_q q = of_nat (length xs)"
proof -
  note H = ring_holdsD [OF assms(1)]
  have "unat (of_nat (r + length xs) :: u64) = r + length xs" "unat (of_nat r :: u64) = r"
    using assms(2) H(2) by (simp_all only: unsigned_of_nat take_bit_eq_mod) simp_all
  then have "(of_nat (r + length xs) :: u64) \<le> of_nat r \<longleftrightarrow> length xs = 0"
    by (simp only: word_le_nat_alt) auto
  then show ?thesis
    using H(1) by (auto simp: size_q_def ring_counts_def)
qed

lemma SPSC_push_holds:
  assumes "ring_holds k r xs q" "r + 2 ^ k < 2 ^ 64"
  shows "if length xs < 2 ^ k then \<exists>q'. SPSC_push v q = (q', True) \<and> ring_holds k r (xs @ [v]) q'
    else SPSC_push v q = (q, False)"
  using full_iff [OF ring_holdsD(1) [OF assms(1)] assms(2)] push_holds [OF assms(1), of v] ring_holdsD(2) [OF assms(1)]
  by (auto simp: SPSC_push_def)

lemma SPSC_pop_holds:
  assumes "ring_holds k r xs q"
  shows "case xs of [] \<Rightarrow> SPSC_pop q = (q, False, None)
    | y # ys \<Rightarrow> \<exists>q'. SPSC_pop q = (q', True, Some y) \<and> ring_holds k (Suc r) ys q'"
  using empty_holds [OF assms] pop_holds [of k r _ _ q] assms
  by (auto simp: SPSC_pop_def split: list.splits)

interpretation spsc: bounded_queue "ring_holds k" "2 ^ k" SPSC_push SPSC_pop for k
  by unfold_locales (rule SPSC_push_holds SPSC_pop_holds; assumption)+

lemma sum_mod: "r mod 2 ^ k + (i + (2 ^ k - r mod 2 ^ k)) = i + (2 :: nat) ^ k"
proof -
  have "r mod 2 ^ k < 2 ^ k"
    by simp
  then show ?thesis
    by linarith
qed

text \<open>The destructor destroys what the queue still holds, and leaves every slot raw.\<close>

lemma SPSC_destroy_loop_holds:
  "ring_holds k r xs q \<Longrightarrow> i < 2 ^ k \<Longrightarrow> q_buffer (SPSC_destroy_loop (of_nat r) (of_nat (r + length xs)) q) i = None"
proof (induction xs arbitrary: r q)
  case Nil
  note H = ring_holdsD [OF Nil(1)]
  define j where "j = (i + (2 ^ k - r mod 2 ^ k)) mod 2 ^ k"
  have "(r + j) mod 2 ^ k = (r mod 2 ^ k + (i + (2 ^ k - r mod 2 ^ k))) mod 2 ^ k"
    by (simp add: j_def mod_simps)
  also have "r mod 2 ^ k + (i + (2 ^ k - r mod 2 ^ k)) = i + 2 ^ k"
    by (rule sum_mod)
  finally have "(r + j) mod 2 ^ k = i"
    using Nil(2) by simp
  then show ?case
    using H(3) [of j] by (simp add: j_def SPSC_destroy_loop.simps [of "of_nat r" "of_nat r" q])
next
  case (Cons x xs)
  note H = ring_holdsD [OF Cons(2)]
  have ne: "(of_nat r :: u64) \<noteq> of_nat (r + length (x # xs))"
    using of_nat_counts [OF H(1), of r "r + length (x # xs)"] H(2) by simp
  define q1 where "q1 = retire (destruct (read_idx q) q)"
  have "q_buffer (SPSC_destroy_loop (of_nat (Suc r)) (of_nat (Suc r + length xs)) q1) i = None"
    using Cons pop_holds(2) [OF Cons(2)] by (simp only: q1_def)
  moreover have "q_buffer (SPSC_destroy_loop a b (retire q)) = q_buffer (SPSC_destroy_loop a b q)" for a b and q :: "'a ring"
  proof (induction a b q rule: SPSC_destroy_loop.induct)
    case (1 a b q)
    have "destruct a (retire q) = retire (destruct a q)"
      by (simp add: destruct_def retire_def slot_def)
    then show ?case
      using 1 by (simp add: SPSC_destroy_loop.simps [of a b] retire_def)
  qed
  ultimately show ?case
    using ne H(1) by (simp add: SPSC_destroy_loop.simps [of "of_nat r"] q1_def ring_counts_def algebra_simps)
qed

lemma SPSC_destroy_holds: "ring_holds k r xs q \<Longrightarrow> i < 2 ^ k \<Longrightarrow> q_buffer (SPSC_destroy q) i = None"
  using SPSC_destroy_loop_holds [of k r xs q i] by (simp add: SPSC_destroy_def ring_holds_def ring_counts_def)

text \<open>A run in which the producer has pushed one element.\<close>

definition pushed_one :: "nat spsc_run" where
  "pushed_one = \<lparr>sp_queue = publish (construct 5 (new_ring 2)), producer = P_idle, consumer = C_idle, pushed = [5], popped = []\<rparr>"

lemma pushed_one_reachable: "spsc_step\<^sup>*\<^sup>* (spsc_start 2) pushed_one"
proof -
  let ?a = "(spsc_start 2)\<lparr>producer := P_checked 5\<rparr> :: nat spsc_run"
  let ?b = "?a\<lparr>producer := P_constructed 5, sp_queue := construct 5 (new_ring 2)\<rparr>"
  have "spsc_step (spsc_start 2) ?a"
    by (rule spsc_step.push_check) (simp_all add: spsc_start_def full_def new_ring_def)
  moreover have "spsc_step ?a ?b"
    using spsc_step.push_construct [of ?a 5] by (simp add: spsc_start_def)
  moreover have "spsc_step ?b pushed_one"
    using spsc_step.push_publish [of ?b 5] by (simp add: spsc_start_def pushed_one_def)
  ultimately show ?thesis
    by (auto intro: converse_rtranclp_into_rtranclp)
qed

text \<open>
  C13. However the producer and the consumer of the single-producer, single-consumer queue interleave, and however often the
  indices wrap around, the consumer gets what was pushed, in the order it was pushed and never from raw memory; the
  queue never holds more than its capacity, and the slot a producer is about to construct in is raw.
\<close>

theorem spsc_fifo:
  assumes "spsc_step\<^sup>*\<^sup>* (spsc_start (2 ^ k)) s" "k < 64"
  shows "popped s = map Some (take (length (popped s)) (pushed s)) \<and>
    length (popped s) \<le> length (pushed s) \<and> length (pushed s) \<le> length (popped s) + 2 ^ k \<and>
    (\<forall>v. producer s = P_checked v \<longrightarrow> q_buffer (sp_queue s) (slot (sp_queue s) (write_idx (sp_queue s))) = None)"
proof -
  note I = spsc_invD [OF spsc_steps_inv [OF assms(1) spsc_inv_start [OF assms(2)]]]
  have w: "length (popped s) \<le> length (pushed s)" "length (pushed s) \<le> length (popped s) + 2 ^ k"
    using I(1) by (simp_all add: ring_counts_def)
  moreover have "q_buffer (sp_queue s) (slot (sp_queue s) (write_idx (sp_queue s))) = None" if "producer s = P_checked v" for v
    using that w I(3) I(6) [of "length (pushed s)"] by (simp add: slot_write [OF I(1)] spsc_slot_def)
  ultimately show ?thesis
    using I(2) by simp
qed

theorem spsc_fifo_witness:
  "popped pushed_one = map Some (take 0 (pushed pushed_one)) \<and> length (pushed pushed_one) \<le> 2"
proof -
  have r: "spsc_step\<^sup>*\<^sup>* (spsc_start (2 ^ 1)) pushed_one"
    using pushed_one_reachable by simp
  show ?thesis
    using spsc_fifo [OF r] by (simp add: pushed_one_def)
qed

text \<open>
  Run without interruption the queue is a bounded list: a push appends, and fails exactly when the capacity is reached;
  a pop takes the first element, and fails exactly when there is none; the size is the length. All this as long as the
  read index stays a capacity away from the end of its width.
\<close>

theorem spsc_refines:
  assumes "ring_holds k r xs q" "r + 2 ^ k < 2 ^ 64"
  shows "(if length xs < 2 ^ k then \<exists>q'. SPSC_push v q = (q', True) \<and> ring_holds k r (xs @ [v]) q'
      else SPSC_push v q = (q, False)) \<and>
    (case xs of [] \<Rightarrow> SPSC_pop q = (q, False, None)
      | y # ys \<Rightarrow> SPSC_front q = Some y \<and> (\<exists>q'. SPSC_pop q = (q', True, Some y) \<and> ring_holds k (Suc r) ys q')) \<and>
    size_q q = of_nat (length xs) \<and> (\<forall>i < 2 ^ k. q_buffer (SPSC_destroy q) i = None)"
proof -
  have "case xs of [] \<Rightarrow> SPSC_pop q = (q, False, None)
      | y # ys \<Rightarrow> SPSC_front q = Some y \<and> (\<exists>q'. SPSC_pop q = (q', True, Some y) \<and> ring_holds k (Suc r) ys q')"
    using SPSC_pop_holds [OF assms(1)] pop_holds(1) [of k r _ _ q] assms(1)
    by (cases xs) (auto simp: SPSC_front_def)
  then show ?thesis
    using SPSC_push_holds [OF assms] size_holds [OF assms] SPSC_destroy_holds [OF assms(1)] by blast
qed

theorem spsc_refines_witness:
  "SPSC_pop (new_ring 4 :: nat ring) = (new_ring 4, False, None) \<and> size_q (new_ring 4 :: nat ring) = 0"
proof -
  have h: "ring_holds 2 0 [] (new_ring 4 :: nat ring)"
    using ring_holds_new [of 2] by simp
  show ?thesis
    using spsc_refines [OF h] by simp
qed

section \<open>The queue of one producer and many consumers\<close>

definition SPMC_push :: "'a \<Rightarrow> 'a ring \<Rightarrow> 'a ring \<times> bool" where
  "SPMC_push v q = (if full q then (q, False) else (publish (construct v q), True))"

definition SPMC_pop :: "'a ring \<Rightarrow> 'a ring \<times> bool \<times> 'a option" where
  "SPMC_pop q =
     (if empty_q q then (q, False, None)
      else let val = q_buffer q (slot q (read_idx q)) in (retire q, True, val))"

text \<open>This queue leaves what it has handed out in its slots.\<close>

definition ring_keeps :: "nat \<Rightarrow> nat \<Rightarrow> 'a list \<Rightarrow> 'a ring \<Rightarrow> bool" where
  "ring_keeps k r xs q \<longleftrightarrow> ring_counts k r (r + length xs) q \<and>
     (\<forall>i < length xs. q_buffer q ((r + i) mod 2 ^ k) = Some (xs ! i))"

lemma ring_keeps_new: "k < 64 \<Longrightarrow> ring_keeps k 0 [] (new_ring (2 ^ k))"
  using ring_counts_new [of k] by (simp add: ring_keeps_def)

lemma SPMC_push_keeps:
  assumes "ring_keeps k r xs q" "r + 2 ^ k < 2 ^ 64"
  shows "if length xs < 2 ^ k then \<exists>q'. SPMC_push v q = (q', True) \<and> ring_keeps k r (xs @ [v]) q'
    else SPMC_push v q = (q, False)"
proof -
  have c: "ring_counts k r (r + length xs) q"
    using assms(1) by (simp add: ring_keeps_def)
  have "ring_keeps k r (xs @ [v]) (publish (construct v q))" if "length xs < 2 ^ k"
  proof -
    have "(r + i) mod 2 ^ k \<noteq> (r + length xs) mod 2 ^ k" if "i < length xs" for i
      using that \<open>length xs < 2 ^ k\<close> window_inj [of r "r + i" "2 ^ k" "r + length xs"] by auto
    then have "q_buffer (publish (construct v q)) ((r + i) mod 2 ^ k) = Some ((xs @ [v]) ! i)" if "i < length (xs @ [v])" for i
      using that assms(1)
      by (cases "i = length xs") (auto simp: ring_keeps_def publish_def construct_def slot_write [OF c] nth_append)
    then show ?thesis
      using ring_counts_publish [of k r "r + length xs" "construct v q"] c that by (simp add: ring_keeps_def)
  qed
  then show ?thesis
    using full_iff [OF c assms(2)] c by (auto simp: SPMC_push_def ring_counts_def)
qed

lemma SPMC_pop_keeps:
  assumes "ring_keeps k r xs q"
  shows "case xs of [] \<Rightarrow> SPMC_pop q = (q, False, None)
    | y # ys \<Rightarrow> \<exists>q'. SPMC_pop q = (q', True, Some y) \<and> ring_keeps k (Suc r) ys q'"
proof -
  have c: "ring_counts k r (r + length xs) q" and keeps: "\<And>i. i < length xs \<Longrightarrow> q_buffer q ((r + i) mod 2 ^ k) = Some (xs ! i)"
    using assms by (auto simp: ring_keeps_def)
  show ?thesis
  proof (cases xs)
    case Nil
    then show ?thesis
      using empty_counts [OF c] by (simp add: SPMC_pop_def)
  next
    case (Cons y ys)
    then have "ring_keeps k (Suc r) ys (retire q)"
      using ring_counts_retire [OF c] keeps [of "Suc i" for i] by (auto simp: ring_keeps_def retire_def)
    then show ?thesis
      using Cons keeps [of 0] empty_counts [OF c] by (simp add: SPMC_pop_def slot_read [OF c])
  qed
qed

interpretation spmc: bounded_queue "ring_keeps k" "2 ^ k" SPMC_push SPMC_pop for k
  by unfold_locales (rule SPMC_push_keeps SPMC_pop_keeps; assumption)+

text \<open>
  Both queues with a single producer give back what they were given: up to a capacity of elements, pushed one after the
  other into an empty queue and then popped, come out unchanged and in order.
\<close>

theorem queues_roundtrip:
  assumes "k < 64" "length xs \<le> 2 ^ k"
  shows "pop_all SPSC_pop (length xs) (push_all SPSC_push xs (new_ring (2 ^ k))) = map Some xs \<and>
    pop_all SPMC_pop (length xs) (push_all SPMC_push xs (new_ring (2 ^ k))) = map Some xs"
proof -
  have "0 + 2 ^ k < (2 :: nat) ^ 64"
    using assms(1) power_strict_increasing [of k 64 "2 :: nat"] by simp
  then show ?thesis
    using spsc.push_pop_all [OF ring_holds_new _ assms(2)] spmc.push_pop_all [OF ring_keeps_new _ assms(2)] assms(1)
    by simp
qed

theorem queues_roundtrip_witness:
  "pop_all SPSC_pop 3 (push_all SPSC_push [1, 2, 3 :: nat] (new_ring 4)) = [Some 1, Some 2, Some 3]"
  using queues_roundtrip [of 2 "[1, 2, 3 :: nat]"] by (simp add: numeral_eq_Suc)

text \<open>
  A consumer holds the index it has loaded, then knows that the slot had been published, then holds a copy of the slot; it
  gets the element if the index is still the current one, and takes the current one otherwise.
\<close>

datatype 'a taker = T_idle | T_loaded u64 | T_checked u64 | T_copied u64 "'a option"

record 'a spmc_run =
  mc_queue :: "'a ring"
  mc_producer :: "'a producer"
  takers :: "nat \<Rightarrow> 'a taker"
  mc_pushed :: "'a list"
  mc_popped :: "'a option list"

definition spmc_start :: "u64 \<Rightarrow> 'a spmc_run" where
  "spmc_start capacity =
     \<lparr>mc_queue = new_ring capacity, mc_producer = P_idle, takers = (\<lambda>_. T_idle), mc_pushed = [], mc_popped = []\<rparr>"

inductive spmc_step :: "'a spmc_run \<Rightarrow> 'a spmc_run \<Rightarrow> bool" where
  push_check: "mc_producer s = P_idle \<Longrightarrow> \<not> full (mc_queue s) \<Longrightarrow> spmc_step s (s\<lparr>mc_producer := P_checked v\<rparr>)"
| push_construct: "mc_producer s = P_checked v \<Longrightarrow>
    spmc_step s (s\<lparr>mc_producer := P_constructed v, mc_queue := construct v (mc_queue s)\<rparr>)"
| push_publish: "mc_producer s = P_constructed v \<Longrightarrow>
    spmc_step s (s\<lparr>mc_producer := P_idle, mc_queue := publish (mc_queue s), mc_pushed := mc_pushed s @ [v]\<rparr>)"
| pop_load: "takers s t = T_idle \<Longrightarrow> spmc_step s (s\<lparr>takers := (takers s)(t := T_loaded (read_idx (mc_queue s)))\<rparr>)"
| pop_empty: "takers s t = T_loaded a \<Longrightarrow> a = write_idx (mc_queue s) \<Longrightarrow>
    spmc_step s (s\<lparr>takers := (takers s)(t := T_idle)\<rparr>)"
| pop_check: "takers s t = T_loaded a \<Longrightarrow> a \<noteq> write_idx (mc_queue s) \<Longrightarrow>
    spmc_step s (s\<lparr>takers := (takers s)(t := T_checked a)\<rparr>)"
| pop_copy: "takers s t = T_checked a \<Longrightarrow>
    spmc_step s (s\<lparr>takers := (takers s)(t := T_copied a (q_buffer (mc_queue s) (slot (mc_queue s) a)))\<rparr>)"
| pop_take: "takers s t = T_copied a x \<Longrightarrow> read_idx (mc_queue s) = a \<Longrightarrow>
    spmc_step s (s\<lparr>takers := (takers s)(t := T_idle), mc_queue := retire (mc_queue s), mc_popped := mc_popped s @ [x]\<rparr>)"
| pop_retry: "takers s t = T_copied a x \<Longrightarrow> read_idx (mc_queue s) \<noteq> a \<Longrightarrow>
    spmc_step s (s\<lparr>takers := (takers s)(t := T_loaded (read_idx (mc_queue s)))\<rparr>)"

fun taker_ok :: "'a list \<Rightarrow> nat \<Rightarrow> 'a taker \<Rightarrow> bool" where
  "taker_ok xs r T_idle = True"
| "taker_ok xs r (T_loaded a) = (unat a \<le> r)"
| "taker_ok xs r (T_checked a) = (unat a \<le> r \<and> unat a < length xs)"
| "taker_ok xs r (T_copied a x) = (unat a \<le> r \<and> unat a < length xs \<and> (unat a = r \<longrightarrow> x = Some (xs ! r)))"

definition spmc_inv :: "nat \<Rightarrow> 'a spmc_run \<Rightarrow> bool" where
  "spmc_inv k s \<longleftrightarrow>
     (let q = mc_queue s; xs = mc_pushed s; r = length (mc_popped s); w = length xs in
      ring_counts k r w q \<and> map Some (take r xs) = mc_popped s \<and>
      (mc_producer s \<noteq> P_idle \<longrightarrow> w < r + 2 ^ k) \<and>
      (\<forall>v. mc_producer s = P_constructed v \<longrightarrow> q_buffer q (w mod 2 ^ k) = Some v) \<and>
      (\<forall>i. r \<le> i \<and> i < w \<longrightarrow> q_buffer q (i mod 2 ^ k) = Some (xs ! i)) \<and>
      (\<forall>t. taker_ok xs r (takers s t)))"

lemma spmc_inv_start: "k < 64 \<Longrightarrow> spmc_inv k (spmc_start (2 ^ k))"
  using ring_counts_new [of k] by (simp add: spmc_inv_def spmc_start_def)

lemma taker_ok_push: "taker_ok xs r c \<Longrightarrow> r \<le> length xs \<Longrightarrow> taker_ok (xs @ [v]) r c"
  by (cases c) (auto simp: nth_append)

lemma taker_ok_take: "taker_ok xs r c \<Longrightarrow> taker_ok xs (Suc r) c"
  by (cases c) auto

lemma spmc_push_inv:
  assumes "spmc_inv k s"
  shows "\<not> full (mc_queue s) \<Longrightarrow> spmc_inv k (s\<lparr>mc_producer := P_checked v\<rparr>)"
    and "mc_producer s = P_checked v \<Longrightarrow> spmc_inv k (s\<lparr>mc_producer := P_constructed v, mc_queue := construct v (mc_queue s)\<rparr>)"
    and "mc_producer s = P_constructed v \<Longrightarrow>
      spmc_inv k (s\<lparr>mc_producer := P_idle, mc_queue := publish (mc_queue s), mc_pushed := mc_pushed s @ [v]\<rparr>)"
proof -
  let ?r = "length (mc_popped s)" and ?w = "length (mc_pushed s)"
  have c: "ring_counts k ?r ?w (mc_queue s)" and le: "?r \<le> ?w"
    using assms by (simp_all add: spmc_inv_def Let_def ring_counts_def)
  show "spmc_inv k (s\<lparr>mc_producer := P_checked v\<rparr>)" if "\<not> full (mc_queue s)"
    using assms full_counts [OF c that] by (simp add: spmc_inv_def Let_def)
  show "spmc_inv k (s\<lparr>mc_producer := P_constructed v, mc_queue := construct v (mc_queue s)\<rparr>)" if p: "mc_producer s = P_checked v"
  proof -
    have "i mod 2 ^ k \<noteq> ?w mod 2 ^ k" if "?r \<le> i" "i < ?w" for i
      using that p assms window_inj [of ?r i "2 ^ k" ?w] by (auto simp: spmc_inv_def Let_def)
    then show ?thesis
      using assms p by (simp add: spmc_inv_def Let_def construct_def [of v "mc_queue s"] slot_write [OF c])
         (simp add: ring_counts_def)
  qed
  show "spmc_inv k (s\<lparr>mc_producer := P_idle, mc_queue := publish (mc_queue s), mc_pushed := mc_pushed s @ [v]\<rparr>)"
    if p: "mc_producer s = P_constructed v"
  proof -
    have "taker_ok (mc_pushed s @ [v]) ?r (takers s t)" for t
      using assms le by (intro taker_ok_push) (simp_all add: spmc_inv_def Let_def)
    then show ?thesis
      using assms p ring_counts_publish [OF c] le
      by (simp add: spmc_inv_def Let_def nth_append) (simp add: publish_def less_Suc_eq)
  qed
qed

text \<open>An index that a consumer holds is current exactly when it counts the pops, as long as these fit the width.\<close>

lemma spmc_read_idx:
  assumes "spmc_inv k s" "length (mc_popped s) < 2 ^ 64"
  shows "read_idx (mc_queue s) = a \<longleftrightarrow> unat a = length (mc_popped s)"
proof -
  have "read_idx (mc_queue s) = of_nat (length (mc_popped s))"
    using assms(1) by (simp add: spmc_inv_def Let_def ring_counts_def)
  moreover have "unat (of_nat (length (mc_popped s)) :: u64) = length (mc_popped s)"
    using assms(2) by (simp only: unsigned_of_nat take_bit_eq_mod) simp
  ultimately show ?thesis
    by (auto simp: word_unat_eq_iff)
qed

lemma spmc_set_taker:
  assumes "spmc_inv k s" "taker_ok (mc_pushed s) (length (mc_popped s)) c"
  shows "spmc_inv k (s\<lparr>takers := (takers s)(t := c)\<rparr>)"
  using assms by (simp add: spmc_inv_def Let_def)

lemma spmc_take_inv:
  assumes "spmc_inv k s" "length (mc_popped s) < 2 ^ 64" "takers s t = T_copied a x" "read_idx (mc_queue s) = a"
  shows "spmc_inv k (s\<lparr>takers := (takers s)(t := T_idle), mc_queue := retire (mc_queue s), mc_popped := mc_popped s @ [x]\<rparr>)"
proof -
  let ?r = "length (mc_popped s)" and ?w = "length (mc_pushed s)"
  have c: "ring_counts k ?r ?w (mc_queue s)" and "taker_ok (mc_pushed s) ?r (takers s t)"
    and ok: "taker_ok (mc_pushed s) (Suc ?r) (takers s u)" for u
    using assms(1) by (auto simp: spmc_inv_def Let_def intro: taker_ok_take)
  then have x: "?r < ?w" "x = Some (mc_pushed s ! ?r)"
    using assms(3,4) spmc_read_idx [OF assms(1,2), of a] by auto
  show ?thesis
    using assms(1) x ok ring_counts_retire [OF c x(1)]
    by (simp add: spmc_inv_def Let_def take_Suc_conv_app_nth) (auto simp: retire_def)
qed

lemma spmc_copy_ok:
  assumes "spmc_inv k s" "takers s t = T_checked a"
  shows "taker_ok (mc_pushed s) (length (mc_popped s)) (T_copied a (q_buffer (mc_queue s) (slot (mc_queue s) a)))"
proof -
  let ?r = "length (mc_popped s)" and ?w = "length (mc_pushed s)"
  have c: "ring_counts k ?r ?w (mc_queue s)" and "taker_ok (mc_pushed s) ?r (takers s t)"
    using assms(1) by (auto simp: spmc_inv_def Let_def)
  then have a: "unat a \<le> ?r" "unat a < ?w"
    using assms(2) by auto
  have "slot (mc_queue s) a = unat a mod 2 ^ k"
    using slot_counts [OF c, of "unat a"] by simp
  then show ?thesis
    using a assms(1) by (auto simp: spmc_inv_def Let_def)
qed

lemma spmc_step_inv:
  assumes "spmc_step s s'" "spmc_inv k s" "length (mc_popped s) < 2 ^ 64"
  shows "spmc_inv k s'"
  using assms(1)
proof cases
  case (push_check v)
  then show ?thesis
    using spmc_push_inv(1) assms(2) by simp
next
  case (push_construct v)
  then show ?thesis
    using spmc_push_inv(2) assms(2) by simp
next
  case (push_publish v)
  then show ?thesis
    using spmc_push_inv(3) assms(2) by simp
next
  case (pop_load t)
  then show ?thesis
    using spmc_set_taker [OF assms(2), of "T_loaded (read_idx (mc_queue s))" t]
      spmc_read_idx [OF assms(2,3), of "read_idx (mc_queue s)"] by simp
next
  case (pop_empty t a)
  then show ?thesis
    using spmc_set_taker [OF assms(2), of T_idle t] by simp
next
  case (pop_check t a)
  have "taker_ok (mc_pushed s) (length (mc_popped s)) (takers s t)"
    and w: "write_idx (mc_queue s) = of_nat (length (mc_pushed s))" "length (mc_popped s) \<le> length (mc_pushed s)"
    using assms(2) by (simp_all add: spmc_inv_def Let_def ring_counts_def)
  moreover have "unat a \<noteq> length (mc_pushed s)"
  proof
    assume "unat a = length (mc_pushed s)"
    then have "of_nat (unat a) = write_idx (mc_queue s)"
      using w(1) by simp
    then show False
      using pop_check(3) by simp
  qed
  ultimately show ?thesis
    using pop_check spmc_set_taker [OF assms(2), of "T_checked a" t] by simp
next
  case (pop_copy t a)
  then show ?thesis
    using spmc_set_taker [OF assms(2) spmc_copy_ok [OF assms(2) pop_copy(2)]] by simp
next
  case (pop_take t a x)
  then show ?thesis
    using spmc_take_inv [OF assms(2,3) pop_take(2,3)] by simp
next
  case (pop_retry t a x)
  then show ?thesis
    using spmc_set_taker [OF assms(2), of "T_loaded (read_idx (mc_queue s))" t]
      spmc_read_idx [OF assms(2,3), of "read_idx (mc_queue s)"] by simp
qed

lemma spmc_steps_inv:
  assumes "spmc_step\<^sup>*\<^sup>* s s'" "spmc_inv k s" "length (mc_popped s') < 2 ^ 64"
  shows "spmc_inv k s'"
  using assms
proof (induction rule: rtranclp_induct)
  case (step y z)
  have "length (mc_popped y) \<le> length (mc_popped z)"
    using step(2) by cases auto
  then show ?case
    using step spmc_step_inv [of y z k] by simp
qed simp

text \<open>
  C31. However the producer and any number of consumers interleave, the elements are handed out in the order they were
  pushed, each of them once and never from raw memory, as long as fewer elements have been taken than the indices can count.
\<close>

theorem spmc_fifo:
  assumes "spmc_step\<^sup>*\<^sup>* (spmc_start (2 ^ k)) s" "k < 64" "length (mc_popped s) < 2 ^ 64"
  shows "mc_popped s = map Some (take (length (mc_popped s)) (mc_pushed s)) \<and>
    length (mc_popped s) \<le> length (mc_pushed s) \<and> length (mc_pushed s) \<le> length (mc_popped s) + 2 ^ k"
  using spmc_steps_inv [OF assms(1) spmc_inv_start [OF assms(2)] assms(3)]
  by (simp add: spmc_inv_def Let_def ring_counts_def)

theorem spmc_fifo_witness:
  "\<exists>s. spmc_step\<^sup>*\<^sup>* (spmc_start 2) s \<and> mc_pushed s = [5 :: nat] \<and> mc_popped s = [] \<and> length (mc_pushed s) \<le> 2"
proof -
  let ?a = "(spmc_start 2)\<lparr>mc_producer := P_checked 5\<rparr> :: nat spmc_run"
  let ?b = "?a\<lparr>mc_producer := P_constructed 5, mc_queue := construct 5 (new_ring 2)\<rparr>"
  let ?c = "?b\<lparr>mc_producer := P_idle, mc_queue := publish (construct 5 (new_ring 2)), mc_pushed := [5]\<rparr>"
  have "spmc_step (spmc_start 2) ?a"
    by (rule spmc_step.push_check) (simp_all add: spmc_start_def full_def new_ring_def)
  moreover have "spmc_step ?a ?b"
    using spmc_step.push_construct [of ?a 5] by (simp add: spmc_start_def)
  moreover have "spmc_step ?b ?c"
    using spmc_step.push_publish [of ?b 5] by (simp add: spmc_start_def)
  ultimately have r: "spmc_step\<^sup>*\<^sup>* (spmc_start (2 ^ 1)) ?c"
    by (auto intro: converse_rtranclp_into_rtranclp)
  then show ?thesis
    using spmc_fifo [OF r] by (intro exI [of _ ?c]) (simp add: spmc_start_def)
qed

section \<open>The queue of many producers and one consumer\<close>

text \<open>
  A producer reserves the slot of the index it has seen, writes it, and then moves the index of the published slots on by
  one. \<^verbatim>\<open>compare_exchange_strong\<close> replaces the expected value by the current one when it fails, in the loop that reserves
  and in the loop that publishes alike.
\<close>

datatype 'a maker = M_idle | M_loaded u64 'a | M_checked u64 'a | M_reserved u64 'a | M_written u64

record 'a mpsc_run =
  mp_queue :: "'a ring"
  write_prepare_idx :: u64
  makers :: "nat \<Rightarrow> 'a maker"
  mp_consumer :: "'a consumer"
  mp_popped :: "'a option list"

definition mpsc_start :: "u64 \<Rightarrow> 'a mpsc_run" where
  "mpsc_start capacity =
     \<lparr>mp_queue = new_ring capacity, write_prepare_idx = 0, makers = (\<lambda>_. M_idle), mp_consumer = C_idle, mp_popped = []\<rparr>"

definition MPSC_full :: "u64 \<Rightarrow> 'a ring \<Rightarrow> bool" where
  "MPSC_full write q \<longleftrightarrow> write \<ge> read_idx q + q_capacity q"

definition set_slot :: "u64 \<Rightarrow> 'a \<Rightarrow> 'a ring \<Rightarrow> 'a ring" where
  "set_slot i v q = q\<lparr>q_buffer := (q_buffer q)(slot q i := Some v)\<rparr>"

text \<open>The next access of a producer that pushes \<open>v\<close>, and of the consumer.\<close>

definition MPSC_push_step :: "nat \<Rightarrow> 'a \<Rightarrow> 'a mpsc_run \<Rightarrow> 'a mpsc_run" where
  "MPSC_push_step t v s =
     (case makers s t of
        M_idle \<Rightarrow> s\<lparr>makers := (makers s)(t := M_loaded (write_prepare_idx s) v)\<rparr>
      | M_loaded write x \<Rightarrow>
          s\<lparr>makers := (makers s)(t := if MPSC_full write (mp_queue s) then M_idle else M_checked write x)\<rparr>
      | M_checked write x \<Rightarrow>
          if write_prepare_idx s = write
          then s\<lparr>write_prepare_idx := write + 1, makers := (makers s)(t := M_reserved write x)\<rparr>
          else s\<lparr>makers := (makers s)(t := M_loaded (write_prepare_idx s) x)\<rparr>
      | M_reserved write x \<Rightarrow>
          s\<lparr>mp_queue := set_slot write x (mp_queue s), makers := (makers s)(t := M_written write)\<rparr>
      | M_written write_commit \<Rightarrow>
          if write_idx (mp_queue s) = write_commit
          then s\<lparr>mp_queue := publish (mp_queue s), makers := (makers s)(t := M_idle)\<rparr>
          else s\<lparr>makers := (makers s)(t := M_written (write_idx (mp_queue s)))\<rparr>)"

definition MPSC_pop_step :: "'a mpsc_run \<Rightarrow> 'a mpsc_run" where
  "MPSC_pop_step s =
     (case mp_consumer s of
        C_idle \<Rightarrow> if empty_q (mp_queue s) then s else s\<lparr>mp_consumer := C_checked\<rparr>
      | C_checked \<Rightarrow> s\<lparr>mp_consumer := C_taken (q_buffer (mp_queue s) (slot (mp_queue s) (read_idx (mp_queue s))))\<rparr>
      | C_taken x \<Rightarrow> s\<lparr>mp_consumer := C_idle, mp_queue := retire (mp_queue s), mp_popped := mp_popped s @ [x]\<rparr>)"

text \<open>A schedule names who moves next: a producer with what it pushes, or the consumer.\<close>

fun mpsc_run_all :: "(nat \<times> 'a) option list \<Rightarrow> 'a mpsc_run \<Rightarrow> 'a mpsc_run" where
  "mpsc_run_all [] s = s"
| "mpsc_run_all (None # es) s = mpsc_run_all es (MPSC_pop_step s)"
| "mpsc_run_all (Some (t, v) # es) s = mpsc_run_all es (MPSC_push_step t v s)"

text \<open>
  C38. The queue of many producers hands out a slot that nobody has written: while one producer still holds its
  reservation, another one publishes with the index that its failed exchange has left in the expected value.
\<close>

theorem mpsc_pops_unwritten:
  "\<exists>es. mp_popped (mpsc_run_all es (mpsc_start 2)) = [None :: nat option]"
proof -
  let ?a = "Some (0, 7)" and ?b = "Some (1, 8)"
  have "mp_popped (mpsc_run_all [?a, ?a, ?a, ?b, ?b, ?b, ?b, ?b, ?b, None, None, None] (mpsc_start 2)) = [None :: nat option]"
    by code_simp
  then show ?thesis
    by blast
qed

end
