(* ===== verification/StdHeap.thy ===== *)
theory StdHeap
  imports Prelude "HOL-Library.Multiset"
begin

text \<open>
  The heap algorithms of the C++ standard library that the timer thread uses, \<^verbatim>\<open>std::push_heap\<close> and \<^verbatim>\<open>std::pop_heap\<close>, on
  the list of the elements of a vector. The order is given by a key, the element with the least key being at the front; the
  comparison of the timer's tasks is the reverse order of their times. The locale \<open>priority_vector\<close> is what a user of the
  algorithms relies on, whichever implementation the library has.
\<close>

section \<open>The algorithms\<close>

definition parent :: "nat \<Rightarrow> nat" where
  "parent i = (i - 1) div 2"

definition swap :: "nat \<Rightarrow> nat \<Rightarrow> 'a list \<Rightarrow> 'a list" where
  "swap i j xs = xs[i := xs ! j, j := xs ! i]"

lemma parent_less: "0 < i \<Longrightarrow> parent i < i"
  by (simp add: parent_def)

function sift_up :: "('a \<Rightarrow> 'b::linorder) \<Rightarrow> nat \<Rightarrow> 'a list \<Rightarrow> 'a list" where
  "sift_up f i xs =
     (if 0 < i \<and> f (xs ! i) < f (xs ! parent i) then sift_up f (parent i) (swap i (parent i) xs) else xs)"
  by auto
termination
  by (relation "measure (\<lambda>(f, i, xs). i)") (auto simp: parent_less)

declare sift_up.simps [simp del]

text \<open>The smaller one of the children of \<open>i\<close> among the first \<open>n\<close> elements.\<close>

definition child :: "('a \<Rightarrow> 'b::linorder) \<Rightarrow> nat \<Rightarrow> nat \<Rightarrow> 'a list \<Rightarrow> nat" where
  "child f n i xs = (let l = 2 * i + 1; r = 2 * i + 2 in if r < n \<and> f (xs ! r) < f (xs ! l) then r else l)"

function sift_down :: "('a \<Rightarrow> 'b::linorder) \<Rightarrow> nat \<Rightarrow> nat \<Rightarrow> 'a list \<Rightarrow> 'a list" where
  "sift_down f n i xs =
     (let c = child f n i xs in
      if c < n \<and> f (xs ! c) < f (xs ! i) then sift_down f n c (swap i c xs) else xs)"
  by auto
termination
  by (relation "measure (\<lambda>(f, n, i, xs). n - i)") (auto simp: child_def Let_def split: if_splits)

declare sift_down.simps [simp del]

definition push_heap :: "('a \<Rightarrow> 'b::linorder) \<Rightarrow> 'a list \<Rightarrow> 'a list" where
  "push_heap f xs = sift_up f (length xs - 1) xs"

definition pop_heap :: "('a \<Rightarrow> 'b::linorder) \<Rightarrow> 'a list \<Rightarrow> 'a list" where
  "pop_heap f xs = sift_down f (length xs - 1) 0 (swap 0 (length xs - 1) xs)"

section \<open>Heaps\<close>

definition is_heap :: "('a \<Rightarrow> 'b::linorder) \<Rightarrow> nat \<Rightarrow> 'a list \<Rightarrow> bool" where
  "is_heap f n xs \<longleftrightarrow> (\<forall>j. 0 < j \<and> j < n \<longrightarrow> f (xs ! parent j) \<le> f (xs ! j))"

lemma mset_swap: "i < length xs \<Longrightarrow> j < length xs \<Longrightarrow> mset (swap i j xs) = mset xs"
  unfolding swap_def by (rule Multiset.mset_swap)

lemma swap_simps [simp]:
  "length (swap i j xs) = length xs"
  "i < length xs \<Longrightarrow> j < length xs \<Longrightarrow> swap i j xs ! k = (if k = i then xs ! j else if k = j then xs ! i else xs ! k)"
  by (auto simp: swap_def nth_list_update)

lemma sift_up_mset: "i < length xs \<Longrightarrow> mset (sift_up f i xs) = mset xs"
proof (induction f i xs rule: sift_up.induct)
  case (1 f i xs)
  show ?case
  proof (cases "0 < i \<and> f (xs ! i) < f (xs ! parent i)")
    case True
    then have "parent i < length xs"
      using 1(2) parent_less [of i] by simp
    then show ?thesis
      using 1 True by (subst sift_up.simps) (simp add: mset_swap)
  qed (subst sift_up.simps, auto)
qed

lemma sift_down_mset: "i < n \<Longrightarrow> n \<le> length xs \<Longrightarrow> mset (sift_down f n i xs) = mset xs"
proof (induction f n i xs rule: sift_down.induct)
  case (1 f n i xs)
  show ?case
    using 1 by (subst sift_down.simps) (auto simp: Let_def mset_swap)
qed

lemma sift_down_above: "i < n \<Longrightarrow> n \<le> length xs \<Longrightarrow> n \<le> k \<Longrightarrow> sift_down f n i xs ! k = xs ! k"
proof (induction f n i xs rule: sift_down.induct)
  case (1 f n i xs)
  show ?case
    using 1 by (subst sift_down.simps) (auto simp: Let_def)
qed

lemma parent_parent: "0 < j \<Longrightarrow> parent j \<noteq> j"
  using parent_less [of j] by simp

text \<open>
  While an element moves up, it may be smaller than its parent only; the parent is not greater than its other descendants.
\<close>

lemma sift_up_heap:
  assumes "i < n" "n \<le> length xs"
    and "\<forall>j. 0 < j \<and> j < n \<and> j \<noteq> i \<longrightarrow> f (xs ! parent j) \<le> f (xs ! j)"
    and "\<forall>j. 0 < j \<and> j < n \<and> parent j = i \<and> 0 < i \<longrightarrow> f (xs ! parent i) \<le> f (xs ! j)"
  shows "is_heap f n (sift_up f i xs)"
  using assms
proof (induction f i xs rule: sift_up.induct)
  case (1 f i xs)
  show ?case
  proof (cases "0 < i \<and> f (xs ! i) < f (xs ! parent i)")
    case True
    let ?p = "parent i" and ?ys = "swap i (parent i) xs"
    have p: "?p < i" "?p < length xs" "i < length xs"
      using True 1(2,3) parent_less [of i] by simp_all
    have "f (?ys ! parent j) \<le> f (?ys ! j)" if "0 < j" "j < n" "j \<noteq> ?p" for j
    proof (cases "j = i")
      case False
      then show ?thesis
        using 1(4,5) that p True by (fastforce simp: parent_parent)
    qed (use True p in auto)
    moreover have "f (?ys ! parent ?p) \<le> f (?ys ! j)" if "0 < j" "j < n" "parent j = ?p" "0 < ?p" for j
    proof -
      have "f (xs ! parent ?p) \<le> f (xs ! ?p)" "parent ?p < ?p"
        using 1(4) that(4) p 1(2) parent_less [of ?p] by auto
      moreover have "f (xs ! ?p) \<le> f (xs ! j)" if "j \<noteq> i"
        using 1(4) that \<open>0 < j\<close> \<open>j < n\<close> \<open>parent j = ?p\<close> by fastforce
      ultimately show ?thesis
        using p that parent_less [of j] by (auto intro: order_trans)
    qed
    ultimately have "is_heap f n (sift_up f ?p ?ys)"
      using 1(1) [OF True] 1(2,3) p by simp
    then show ?thesis
      using True by (subst sift_up.simps) simp
  next
    case False
    then have "sift_up f i xs = xs"
      by (subst sift_up.simps) auto
    moreover have "0 < i \<Longrightarrow> f (xs ! parent i) \<le> f (xs ! i)"
      using False by auto
    ultimately show ?thesis
      using 1(4) by (auto simp: is_heap_def)
  qed
qed

lemma child_props:
  assumes "child f n i xs < n"
  shows "parent (child f n i xs) = i" "i < child f n i xs"
    "\<forall>j. 0 < j \<and> j < n \<and> parent j = i \<longrightarrow> f (xs ! child f n i xs) \<le> f (xs ! j)"
proof -
  show "parent (child f n i xs) = i" "i < child f n i xs"
    by (auto simp: child_def parent_def Let_def)
  show "\<forall>j. 0 < j \<and> j < n \<and> parent j = i \<longrightarrow> f (xs ! child f n i xs) \<le> f (xs ! j)"
  proof (intro allI impI, elim conjE)
    fix j
    assume "0 < j" "j < n" "parent j = i"
    then have "j = 2 * i + 1 \<or> j = 2 * i + 2"
      by (auto simp: parent_def)
    then show "f (xs ! child f n i xs) \<le> f (xs ! j)"
      using \<open>j < n\<close> by (cases "2 * i + 2 < n \<and> f (xs ! (2 * i + 2)) < f (xs ! (2 * i + 1))") (auto simp: child_def Let_def)
  qed
qed

lemma no_child: "\<not> child f n i xs < n \<Longrightarrow> 0 < j \<Longrightarrow> j < n \<Longrightarrow> parent j \<noteq> i"
  by (auto simp: child_def parent_def Let_def split: if_splits)

lemma sift_down_heap:
  assumes "i < n" "n \<le> length xs"
    and "\<forall>j. 0 < j \<and> j < n \<and> parent j \<noteq> i \<longrightarrow> f (xs ! parent j) \<le> f (xs ! j)"
    and "\<forall>j. 0 < j \<and> j < n \<and> parent j = i \<and> 0 < i \<longrightarrow> f (xs ! parent i) \<le> f (xs ! j)"
  shows "is_heap f n (sift_down f n i xs)"
  using assms
proof (induction f n i xs rule: sift_down.induct)
  case (1 f n i xs)
  let ?c = "child f n i xs"
  show ?case
  proof (cases "?c < n \<and> f (xs ! ?c) < f (xs ! i)")
    case True
    let ?ys = "swap i ?c xs"
    note c = child_props [OF conjunct1 [OF True]]
    have l: "i < length xs" "?c < length xs"
      using 1(2,3) True by simp_all
    have "f (?ys ! parent j) \<le> f (?ys ! j)" if "0 < j" "j < n" "parent j \<noteq> ?c" for j
    proof -
      consider "j = ?c" | "j = i" | "parent j = i" "j \<noteq> ?c" "j \<noteq> i" | "parent j \<noteq> i" "j \<noteq> ?c" "j \<noteq> i"
        by blast
      then show ?thesis
      proof cases
        case 1
        then show ?thesis using True c l by auto
      next
        case 2
        then show ?thesis
          using "1"(5) True c l that parent_less [of i] by auto
      next
        case 3
        then show ?thesis using True c l that by auto
      next
        case 4
        then show ?thesis using "1"(4) l that by auto
      qed
    qed
    moreover have "f (?ys ! parent ?c) \<le> f (?ys ! j)" if "0 < j" "j < n" "parent j = ?c" "0 < ?c" for j
    proof -
      have "parent j \<noteq> i" "?c < j"
        using that c(2) parent_less [of j] by auto
      then have "f (xs ! ?c) \<le> f (xs ! j)"
        using 1(4) that by metis
      then show ?thesis
        using c l \<open>?c < j\<close> by auto
    qed
    ultimately have "is_heap f n (sift_down f n ?c ?ys)"
      using 1(1) [OF refl True] True 1(3) by simp
    then show ?thesis
      using True by (subst sift_down.simps) (simp add: Let_def)
  next
    case False
    then have "sift_down f n i xs = xs"
      by (subst sift_down.simps) (auto simp: Let_def)
    moreover have "f (xs ! i) \<le> f (xs ! j)" if "0 < j" "j < n" "parent j = i" for j
    proof (cases "?c < n")
      case True
      then have "f (xs ! i) \<le> f (xs ! ?c)" "f (xs ! ?c) \<le> f (xs ! j)"
        using False that child_props(3) [OF True] by auto
      then show ?thesis
        by (rule order_trans)
    qed (use that no_child in blast)
    ultimately show ?thesis
      using 1(4) by (simp add: is_heap_def) blast
  qed
qed

lemma heap_top: "is_heap f n xs \<Longrightarrow> i < n \<Longrightarrow> f (xs ! 0) \<le> f (xs ! i)"
proof (induction i rule: less_induct)
  case (less i)
  show ?case
  proof (cases "i = 0")
    case False
    then have "f (xs ! 0) \<le> f (xs ! parent i)"
      using less parent_less [of i] by simp
    also have "\<dots> \<le> f (xs ! i)"
      using less(2,3) False by (simp add: is_heap_def)
    finally show ?thesis .
  qed simp
qed

section \<open>What a user relies on\<close>

locale priority_vector =
  fixes heap :: "'a list \<Rightarrow> bool" and key :: "'a \<Rightarrow> 'b::linorder" and push :: "'a list \<Rightarrow> 'a list" and pop :: "'a list \<Rightarrow> 'a list"
  assumes heap_Nil: "heap []"
    and top_law: "heap xs \<Longrightarrow> x \<in> set xs \<Longrightarrow> key (xs ! 0) \<le> key x"
    and push_law: "heap xs \<Longrightarrow> heap (push (xs @ [x])) \<and> mset (push (xs @ [x])) = add_mset x (mset xs)"
    and pop_law: "heap xs \<Longrightarrow> xs \<noteq> [] \<Longrightarrow> pop xs = butlast (pop xs) @ [xs ! 0] \<and> heap (butlast (pop xs)) \<and> mset (pop xs) = mset xs"
begin

lemma push_all:
  assumes "heap xs"
  shows "heap (fold (\<lambda>x xs. push (xs @ [x])) ys xs) \<and> mset (fold (\<lambda>x xs. push (xs @ [x])) ys xs) = mset xs + mset ys"
  using assms
proof (induction ys arbitrary: xs)
  case (Cons y ys)
  then show ?case
    using push_law [OF Cons(2), of y] Cons(1) [of "push (xs @ [y])"] by simp
qed simp

lemma pop_last: "heap xs \<Longrightarrow> xs \<noteq> [] \<Longrightarrow> last (pop xs) = xs ! 0"
  using pop_law by (metis last_snoc)

lemma pop_rest: "heap xs \<Longrightarrow> xs \<noteq> [] \<Longrightarrow> add_mset (xs ! 0) (mset (butlast (pop xs))) = mset xs"
  using pop_law [of xs] by (metis add_mset_add_single mset.simps(1) mset.simps(2) mset_append)

end

interpretation std_heap: priority_vector "\<lambda>xs. is_heap f (length xs) xs" f "push_heap f" "pop_heap f" for f :: "'a \<Rightarrow> 'b::linorder"
proof unfold_locales
  fix xs :: "'a list" and x
  show "is_heap f (length []) []"
    by (simp add: is_heap_def)
  show "f (xs ! 0) \<le> f x" if "is_heap f (length xs) xs" "x \<in> set xs"
    using that heap_top [OF that(1)] by (metis in_set_conv_nth)
  assume h: "is_heap f (length xs) xs"
  let ?ys = "xs @ [x]"
  have "f (?ys ! parent j) \<le> f (?ys ! j)" if "0 < j" "j < length xs" for j
    using that h parent_less [of j] by (simp add: is_heap_def nth_append)
  moreover have "parent j \<noteq> length xs" if "0 < j" "j < Suc (length xs)" for j
    using that parent_less [of j] by simp
  ultimately have "is_heap f (length ?ys) (push_heap f ?ys)"
    unfolding push_heap_def by (intro sift_up_heap) (auto simp: less_Suc_eq)
  moreover have m: "mset (push_heap f ?ys) = mset ?ys"
    unfolding push_heap_def by (rule sift_up_mset) simp
  ultimately show "is_heap f (length (push_heap f ?ys)) (push_heap f ?ys) \<and> mset (push_heap f ?ys) = add_mset x (mset xs)"
    using mset_eq_length [OF m] by simp
  assume ne: "xs \<noteq> []"
  let ?n = "length xs - 1" and ?zs = "swap 0 (length xs - 1) xs"
  have l: "0 < length xs" "?n < length xs"
    using ne by simp_all
  show "pop_heap f xs = butlast (pop_heap f xs) @ [xs ! 0] \<and> is_heap f (length (butlast (pop_heap f xs))) (butlast (pop_heap f xs)) \<and>
      mset (pop_heap f xs) = mset xs"
  proof (cases "?n = 0")
    case True
    then obtain y where "xs = [y]"
      using ne by (cases xs) auto
    then show ?thesis
      by (simp add: pop_heap_def sift_down.simps child_def Let_def swap_def is_heap_def)
  next
    case False
    let ?ps = "pop_heap f xs"
    have m: "mset ?ps = mset xs"
      unfolding pop_heap_def using False l by (subst sift_down_mset) (simp_all add: mset_swap)
    then have len: "length ?ps = length xs"
      by (rule mset_eq_length)
    have "f (?zs ! parent j) \<le> f (?zs ! j)" if "0 < j" "j < ?n" "parent j \<noteq> 0" for j
      using that h l parent_less [of j] by (simp add: is_heap_def)
    then have hp: "is_heap f ?n ?ps"
      unfolding pop_heap_def using False l by (intro sift_down_heap) simp_all
    have "?ps \<noteq> []"
      using len ne by auto
    have "?ps ! ?n = ?zs ! ?n"
      unfolding pop_heap_def using False l by (intro sift_down_above) simp_all
    then have top: "last ?ps = xs ! 0"
      using len ne l False \<open>?ps \<noteq> []\<close> by (simp add: last_conv_nth)
    then have "?ps = butlast ?ps @ [xs ! 0]"
      using top append_butlast_last_id [OF \<open>?ps \<noteq> []\<close>] by simp
    moreover have "is_heap f (length (butlast ?ps)) (butlast ?ps)"
      unfolding is_heap_def
    proof (intro allI impI)
      fix j
      assume j: "0 < j \<and> j < length (butlast ?ps)"
      then show "f (butlast ?ps ! parent j) \<le> f (butlast ?ps ! j)"
        using hp len parent_less [of j] by (simp add: is_heap_def nth_butlast)
    qed
    ultimately show ?thesis
      using m by blast
  qed
qed

end
