(* ===== verification/TimeThread.thy ===== *)
theory TimeThread
  imports LockFreeQueue StdHeap
begin

text \<open>
  The timer thread of \<^verbatim>\<open>include/common/time_thread.h\<close> and \<^verbatim>\<open>src/schedule/time_thread.cpp\<close>. Every client thread has a
  container with two queues, one for the tasks it schedules and one for the ids it unschedules; the timer thread moves the
  tasks into a heap ordered by time and runs those that are due. A container is named by its index in the vector
  \<^verbatim>\<open>_containers\<close>, which only grows while the thread runs.

  Operations of the clients and the pieces of \<^verbatim>\<open>loopOnce\<close> between two accesses to shared state are functions, and \<open>timer_step\<close>
  interleaves them. Taking as many elements as a queue has at one moment is one piece: other threads only add at the other
  end, and only a push that finds the queue full could tell the difference. The state of a run carries the history needed to
  state what is run: the tasks accepted, run and dropped, the ids some client asked to unschedule, and those found active when
  the request was served. What a task does when it is run is left open; it may schedule, like any client.

  A failed exchange of \<^verbatim>\<open>_nearest_run_time\<close> makes \<^verbatim>\<open>loopOnce\<close> start again, so the exchange is one piece, which may happen at
  any time. The wait at its end may end at any time, as the code must expect of a condition variable. \<open>Stop\<close> is the part of
  \<^verbatim>\<open>destroy\<close> up to the join, \<open>Destroy\<close> the part after it, when the loop has left its last pass; a client that has seen the thread
  running finishes its push before. Time does not go back. The theorems show that no task is lost, run twice, run early or
  run after it was cancelled, that the loop does not oversleep, that a pass runs what is due, and when a request to
  unschedule is lost.
\<close>

section \<open>Tasks, containers and the thread\<close>

record 'f Task =
  abs_time :: u64
  task_id :: u64
  task_fn :: 'f

record AbandonTask =
  abandon_time :: u64
  abandon_id :: u64

datatype EStatus = AVAILABLE | USING | RECLAIMED

definition TASK_QUEUE_SIZE :: u64 where
  "TASK_QUEUE_SIZE = 4096"

record 'f TaskContainer =
  status :: EStatus
  tasks :: "'f Task ring"
  abandon_tasks :: "AbandonTask ring"

definition new_TaskContainer :: "'f TaskContainer" where
  "new_TaskContainer = \<lparr>status = AVAILABLE, tasks = new_ring TASK_QUEUE_SIZE, abandon_tasks = new_ring TASK_QUEUE_SIZE\<rparr>"

text \<open>\<^verbatim>\<open>std::numeric_limits<size_t>::max()\<close>.\<close>

definition size_max :: u64 where
  "size_max = - 1"

record 'f time_thread =
  exit_flag :: bool
  containers :: "'f TaskContainer list"
  local_task :: "nat \<Rightarrow> nat option"
  nearest_run_time :: u64
  timer_id :: u64
  active_ids :: "u64 set"
  heap_tasks :: "'f Task list"

definition TimeThread :: "'f time_thread" where
  "TimeThread = \<lparr>exit_flag = False, containers = [], local_task = (\<lambda>_. None), nearest_run_time = size_max, timer_id = 1,
     active_ids = {}, heap_tasks = []\<rparr>"

section \<open>The clients\<close>

fun first_available :: "'f TaskContainer list \<Rightarrow> nat option" where
  "first_available [] = None"
| "first_available (c # cs) = (if status c = AVAILABLE then Some 0 else map_option Suc (first_available cs))"

definition set_container :: "nat \<Rightarrow> 'f TaskContainer \<Rightarrow> 'f time_thread \<Rightarrow> 'f time_thread" where
  "set_container i c t = t\<lparr>containers := (containers t)[i := c]\<rparr>"

definition getLocalTaskContainer :: "nat \<Rightarrow> 'f time_thread \<Rightarrow> 'f time_thread \<times> nat option" where
  "getLocalTaskContainer tid t =
     (if exit_flag t then (t, None)
      else case local_task t tid of
        Some i \<Rightarrow> (t, Some i)
      | None \<Rightarrow>
          (let (t1, i) = (case first_available (containers t) of
               Some i \<Rightarrow> (t, i)
             | None \<Rightarrow> (t\<lparr>containers := containers t @ [new_TaskContainer]\<rparr>, length (containers t)))
           in ((set_container i ((containers t1 ! i)\<lparr>status := USING\<rparr>) t1)\<lparr>local_task := (local_task t1)(tid \<mapsto> i)\<rparr>, Some i)))"

text \<open>\<^verbatim>\<open>scheduleAbs\<close> up to the push; the result is the id of the task when it is accepted.\<close>

definition schedule_push :: "nat \<Rightarrow> u64 \<Rightarrow> 'f \<Rightarrow> 'f time_thread \<Rightarrow> 'f time_thread \<times> u64 option" where
  "schedule_push tid at fn t =
     (if exit_flag t then (t, None)
      else case getLocalTaskContainer tid t of
        (t1, None) \<Rightarrow> (t1, None)
      | (t1, Some i) \<Rightarrow>
          (let ident = timer_id t1; t2 = t1\<lparr>timer_id := timer_id t1 + 1\<rparr>; c = containers t2 ! i;
               (q, ok) = SPSC_push \<lparr>abs_time = at, task_id = ident, task_fn = fn\<rparr> (tasks c)
           in if \<not> ok then (t2, None) else (set_container i (c\<lparr>tasks := q\<rparr>) t2, Some ident)))"

text \<open>The loop that lowers \<^verbatim>\<open>_nearest_run_time\<close>: it ends with the value not above \<open>at\<close>, and changes it only to lower it.\<close>

definition lower_nearest :: "u64 \<Rightarrow> 'f time_thread \<Rightarrow> 'f time_thread" where
  "lower_nearest at t = (if nearest_run_time t \<le> at then t else t\<lparr>nearest_run_time := at\<rparr>)"

definition scheduleAbs :: "nat \<Rightarrow> u64 \<Rightarrow> 'f \<Rightarrow> 'f time_thread \<Rightarrow> 'f time_thread \<times> u64" where
  "scheduleAbs tid at fn t =
     (case schedule_push tid at fn t of (t1, None) \<Rightarrow> (t1, 0) | (t1, Some ident) \<Rightarrow> (lower_nearest at t1, ident))"

definition schedule :: "nat \<Rightarrow> u64 \<Rightarrow> u64 \<Rightarrow> 'f \<Rightarrow> 'f time_thread \<Rightarrow> 'f time_thread \<times> u64" where
  "schedule tid now timeout fn t = scheduleAbs tid (now + timeout * 1000) fn t"

text \<open>\<^verbatim>\<open>unschedule\<close> uses the container without a check: none is there once the thread is destroyed.\<close>

definition unschedule :: "nat \<Rightarrow> u64 \<Rightarrow> u64 \<Rightarrow> 'f time_thread \<Rightarrow> ('f time_thread \<times> bool) option" where
  "unschedule tid now ident t =
     (case getLocalTaskContainer tid t of
        (t1, None) \<Rightarrow> None
      | (t1, Some i) \<Rightarrow>
          (let c = containers t1 ! i; (q, ok) = SPSC_push \<lparr>abandon_time = now, abandon_id = ident\<rparr> (abandon_tasks c)
           in Some (if ok then (set_container i (c\<lparr>abandon_tasks := q\<rparr>) t1, True) else (t1, False))))"

section \<open>The timer thread\<close>

text \<open>\<^verbatim>\<open>for (i = 0; i < n; ++i) if (!queue.pop(x)) break;\<close> with the elements taken.\<close>

fun pop_n :: "nat \<Rightarrow> 'a ring \<Rightarrow> 'a list \<times> 'a ring" where
  "pop_n 0 q = ([], q)"
| "pop_n (Suc n) q =
     (case SPSC_pop q of
        (q', True, Some x) \<Rightarrow> (let (xs, q'') = pop_n n q' in (x # xs, q''))
      | _ \<Rightarrow> ([], q))"

definition push_task :: "'f Task \<Rightarrow> 'f Task list \<Rightarrow> 'f Task list" where
  "push_task x xs = push_heap abs_time (xs @ [x])"

definition collect_tasks :: "nat \<Rightarrow> 'f time_thread \<Rightarrow> 'f time_thread" where
  "collect_tasks i t =
     (let c = containers t ! i; (xs, q) = pop_n (unat (size_q (tasks c))) (tasks c)
      in (set_container i (c\<lparr>tasks := q\<rparr>) t)
           \<lparr>active_ids := active_ids t \<union> set (map task_id xs), heap_tasks := fold push_task xs (heap_tasks t)\<rparr>)"

definition collectUnschedule :: "nat \<Rightarrow> 'f time_thread \<Rightarrow> 'f time_thread" where
  "collectUnschedule i t =
     (let c = containers t ! i; (xs, q) = pop_n (unat (size_q (abandon_tasks c))) (abandon_tasks c)
      in (set_container i (c\<lparr>abandon_tasks := q\<rparr>) t)\<lparr>active_ids := active_ids t - set (map abandon_id xs)\<rparr>)"

text \<open>Where the timer thread is in \<^verbatim>\<open>loopOnce\<close>.\<close>

datatype 'f loop_pc = L_idle | L_count | L_tasks nat nat | L_abandon nat nat | L_due | L_popped "'f Task"
  | L_again "'f Task" nat nat | L_ran "'f Task" | L_end | L_wait u64 | L_stopped

record 'f timer_run =
  tt :: "'f time_thread"
  pc :: "'f loop_pc"
  clock :: u64
  pending :: "nat \<Rightarrow> u64 option"
  issued :: nat
  accepted :: "'f Task list"
  ran :: "'f Task list"
  dropped :: "'f Task list"
  requested :: "u64 set"
  cancelled :: "u64 set"

definition timer_start :: "u64 \<Rightarrow> 'f timer_run" where
  "timer_start now = \<lparr>tt = TimeThread, pc = L_idle, clock = now, pending = (\<lambda>_. None), issued = 1, accepted = [], ran = [],
     dropped = [], requested = {}, cancelled = {}\<rparr>"

definition collect_step :: "nat \<Rightarrow> 'f timer_run \<Rightarrow> 'f timer_run" where
  "collect_step i s =
     (let t = collectUnschedule i (tt s) in s\<lparr>tt := t, cancelled := cancelled s \<union> (active_ids (tt s) - active_ids t)\<rparr>)"

definition due_step :: "'f timer_run \<Rightarrow> 'f timer_run" where
  "due_step s =
     (let t = tt s; top = heap_tasks t ! 0; popped = pop_heap abs_time (heap_tasks t) in
      if heap_tasks t = [] \<or> clock s < abs_time top then s\<lparr>pc := L_end\<rparr>
      else if nearest_run_time t < abs_time top then s\<lparr>pc := L_idle\<rparr>
      else s\<lparr>tt := t\<lparr>heap_tasks := butlast popped\<rparr>, pc := L_popped (last popped)\<rparr>)"

definition run_step :: "'f Task \<Rightarrow> 'f timer_run \<Rightarrow> 'f timer_run" where
  "run_step x s =
     (if task_id x \<in> active_ids (tt s) then s\<lparr>ran := ran s @ [x], pc := L_ran x\<rparr>
      else s\<lparr>dropped := dropped s @ [x], pc := L_due\<rparr>)"

definition end_step :: "'f timer_run \<Rightarrow> 'f timer_run" where
  "end_step s =
     (let t = lower_nearest (if heap_tasks (tt s) = [] then size_max else abs_time (heap_tasks (tt s) ! 0)) (tt s)
      in s\<lparr>tt := t, pc := (if nearest_run_time t \<le> clock s then L_idle else L_wait (nearest_run_time t))\<rparr>)"

definition loop_step :: "'f timer_run \<Rightarrow> 'f timer_run option" where
  "loop_step s =
     (let t = tt s in
      case pc s of
        L_idle \<Rightarrow> if exit_flag t then None else Some (s\<lparr>tt := t\<lparr>nearest_run_time := size_max\<rparr>, pc := L_count\<rparr>)
      | L_count \<Rightarrow> Some (s\<lparr>pc := L_tasks 0 (length (containers t))\<rparr>)
      | L_tasks i n \<Rightarrow>
          if n \<le> i then Some (s\<lparr>pc := L_due\<rparr>)
          else if status (containers t ! i) = AVAILABLE then Some (s\<lparr>pc := L_tasks (Suc i) n\<rparr>)
          else Some (s\<lparr>tt := collect_tasks i t, pc := L_abandon i n\<rparr>)
      | L_abandon i n \<Rightarrow> Some ((collect_step i s)\<lparr>pc := L_tasks (Suc i) n\<rparr>)
      | L_due \<Rightarrow> Some (due_step s)
      | L_popped x \<Rightarrow> Some (s\<lparr>pc := L_again x 0 (length (containers t))\<rparr>)
      | L_again x i n \<Rightarrow>
          if n \<le> i then Some (run_step x s)
          else if status (containers t ! i) = AVAILABLE then Some (s\<lparr>pc := L_again x (Suc i) n\<rparr>)
          else Some ((collect_step i s)\<lparr>pc := L_again x (Suc i) n\<rparr>)
      | L_ran x \<Rightarrow> Some (s\<lparr>tt := t\<lparr>active_ids := active_ids t - {task_id x}\<rparr>, pc := L_due\<rparr>)
      | L_end \<Rightarrow> Some (end_step s)
      | L_wait v \<Rightarrow> Some (s\<lparr>pc := L_idle\<rparr>)
      | L_stopped \<Rightarrow> None)"

section \<open>Destruction\<close>

text \<open>
  The rest of \<^verbatim>\<open>destroy\<close>, when the thread has been joined: the queues of every container are emptied, and what is left in the
  heap is run in the order of the vector if it is active. The number of elements of a ring bounds the pops.
\<close>

definition ring_length :: "'a ring \<Rightarrow> nat" where
  "ring_length q = unat (write_idx q - read_idx q)"

definition destroy_container :: "'f TaskContainer \<Rightarrow> 'f time_thread \<Rightarrow> 'f time_thread" where
  "destroy_container c t =
     (let xs = fst (pop_n (ring_length (tasks c)) (tasks c)); ys = fst (pop_n (ring_length (abandon_tasks c)) (abandon_tasks c))
      in t\<lparr>heap_tasks := fold push_task xs (heap_tasks t),
           active_ids := (active_ids t \<union> set (map task_id xs)) - set (map abandon_id ys)\<rparr>)"

text \<open>The tasks run, those left out, and the ids still active.\<close>

fun run_all :: "'f Task list \<Rightarrow> u64 set \<Rightarrow> 'f Task list \<times> 'f Task list \<times> u64 set" where
  "run_all [] ids = ([], [], ids)"
| "run_all (x # xs) ids =
     (if task_id x \<in> ids then let (ys, zs, ids') = run_all xs (ids - {task_id x}) in (x # ys, zs, ids')
      else let (ys, zs, ids') = run_all xs ids in (ys, x # zs, ids'))"

definition destroy_tt :: "'f time_thread \<Rightarrow> 'f time_thread \<times> 'f Task list \<times> 'f Task list" where
  "destroy_tt t =
     (let t1 = fold destroy_container (containers t) t; (ys, zs, ids) = run_all (heap_tasks t1) (active_ids t1)
      in (t1\<lparr>containers := [], active_ids := ids\<rparr>, ys, zs))"

section \<open>Runs\<close>

datatype 'f action = Schedule nat u64 'f | Lower nat | Unschedule nat u64 | Tick u64 | Loop | Stop | Destroy

fun timer_step :: "'f action \<Rightarrow> 'f timer_run \<Rightarrow> 'f timer_run option" where
  "timer_step (Schedule tid at fn) s =
     (if pending s tid \<noteq> None then None
      else case schedule_push tid at fn (tt s) of
        (t, None) \<Rightarrow> Some (s\<lparr>tt := t, issued := (if exit_flag (tt s) then issued s else Suc (issued s))\<rparr>)
      | (t, Some ident) \<Rightarrow> Some (s\<lparr>tt := t, issued := Suc (issued s), pending := (pending s)(tid \<mapsto> at),
          accepted := accepted s @ [\<lparr>abs_time = at, task_id = ident, task_fn = fn\<rparr>]\<rparr>))"
| "timer_step (Lower tid) s =
     (case pending s tid of None \<Rightarrow> None | Some at \<Rightarrow> Some (s\<lparr>tt := lower_nearest at (tt s), pending := (pending s)(tid := None)\<rparr>))"
| "timer_step (Unschedule tid ident) s =
     (case unschedule tid (clock s) ident (tt s) of None \<Rightarrow> None
      | Some (t, ok) \<Rightarrow> Some (s\<lparr>tt := t, requested := (if ok then insert ident (requested s) else requested s)\<rparr>))"
| "timer_step (Tick now) s = (if clock s \<le> now then Some (s\<lparr>clock := now\<rparr>) else None)"
| "timer_step Loop s = loop_step s"
| "timer_step Stop s = (if exit_flag (tt s) then None else Some (s\<lparr>tt := (tt s)\<lparr>exit_flag := True\<rparr>\<rparr>))"
| "timer_step Destroy s =
     (if \<not> exit_flag (tt s) \<or> pc s \<noteq> L_idle then None
      else let (t, ys, zs) = destroy_tt (tt s)
           in Some (s\<lparr>tt := t, pc := L_stopped, ran := ran s @ ys, dropped := dropped s @ zs\<rparr>))"

fun timer_exec :: "'f action list \<Rightarrow> 'f timer_run \<Rightarrow> 'f timer_run option" where
  "timer_exec [] s = Some s"
| "timer_exec (a # as) s = (case timer_step a s of None \<Rightarrow> None | Some s' \<Rightarrow> timer_exec as s')"

text \<open>\<^verbatim>\<open>scheduleAbs\<close> is the two steps of its thread, when nothing happens in between.\<close>

lemma scheduleAbs_steps:
  assumes "pending s tid = None" "schedule_push tid at fn (tt s) = (t, Some ident)"
  shows "map_option tt (timer_exec [Schedule tid at fn, Lower tid] s) = Some (fst (scheduleAbs tid at fn (tt s)))"
    "snd (scheduleAbs tid at fn (tt s)) = ident"
  using assms by (simp_all add: scheduleAbs_def)

section \<open>The queues as lists\<close>

definition ring_list :: "'a ring \<Rightarrow> 'a list" where
  "ring_list q = map (\<lambda>i. the (q_buffer q (slot q (read_idx q + of_nat i)))) [0 ..< ring_length q]"

lemma ring_holds_length:
  assumes "ring_holds k r xs q"
  shows "ring_length q = length xs"
proof -
  have c: "ring_counts k r (r + length xs) q" "length xs \<le> 2 ^ k" "k < 64"
    using ring_holdsD [OF assms] by (auto simp: ring_counts_def)
  have "length xs < 2 ^ 64"
    using c(2,3) power_strict_increasing [of k 64 "2::nat"] by linarith
  then show ?thesis
    using c(1) by (simp add: ring_length_def ring_counts_def unsigned_of_nat take_bit_eq_mod)
qed

lemma ring_list_holds:
  assumes "ring_holds k r xs q"
  shows "ring_list q = xs"
proof (rule nth_equalityI)
  show len: "length (ring_list q) = length xs"
    using ring_holds_length [OF assms] by (simp add: ring_list_def)
  fix i
  assume "i < length (ring_list q)"
  then have i: "i < length xs" "i < 2 ^ k"
    using len ring_holdsD [OF assms] by simp_all
  have "read_idx q + of_nat i = of_nat (r + i)"
    using ring_holdsD(1) [OF assms] by (simp add: ring_counts_def)
  then have "slot q (read_idx q + of_nat i) = (r + i) mod 2 ^ k"
    using slot_counts [OF ring_holdsD(1) [OF assms], of "r + i"] by simp
  then show "ring_list q ! i = xs ! i"
    using i assms ring_holds_length [OF assms] by (simp add: ring_list_def ring_holds_def)
qed

text \<open>A queue of a container after at most \<open>n\<close> pushes.\<close>

definition queue_ok :: "nat \<Rightarrow> 'a ring \<Rightarrow> bool" where
  "queue_ok n q \<longleftrightarrow> (\<exists>r. ring_holds 12 r (ring_list q) q \<and> r + length (ring_list q) \<le> n)"

lemma queue_okI: "ring_holds 12 r xs q \<Longrightarrow> r + length xs \<le> n \<Longrightarrow> queue_ok n q \<and> ring_list q = xs"
  using ring_list_holds [of 12 r xs q] by (auto simp: queue_ok_def)

lemma queue_ok_mono: "queue_ok n q \<Longrightarrow> n \<le> m \<Longrightarrow> queue_ok m q"
  by (auto simp: queue_ok_def)

lemma new_ring_holds: "ring_holds 12 0 [] (new_ring TASK_QUEUE_SIZE)"
proof -
  have "(2::u64) ^ 12 = TASK_QUEUE_SIZE"
    by (simp add: TASK_QUEUE_SIZE_def)
  then show ?thesis
    using ring_holds_new [of 12] by simp
qed

lemma queue_ok_new [simp]: "queue_ok n (new_ring TASK_QUEUE_SIZE)"
  by (rule conjunct1 [OF queue_okI [OF new_ring_holds]]) simp

lemma ring_list_new [simp]: "ring_list (new_ring TASK_QUEUE_SIZE) = []"
  using ring_list_holds [OF new_ring_holds] .

lemma queue_push:
  assumes "queue_ok n q" "SPSC_push v q = (q', ok)"
  shows "queue_ok (if ok then Suc n else n) q' \<and> ring_list q' = (if ok then ring_list q @ [v] else ring_list q)"
proof -
  obtain r where r: "ring_holds 12 r (ring_list q) q" "r + length (ring_list q) \<le> n"
    using assms(1) by (auto simp: queue_ok_def)
  show ?thesis
  proof (cases "full q")
    case False
    then have "length (ring_list q) < 2 ^ 12" "ok" "q' = publish (construct v q)"
      using full_counts [OF ring_holdsD(1) [OF r(1)]] assms(2) by (simp_all add: SPSC_push_def)
    then show ?thesis
      using queue_okI [OF push_holds [OF r(1)], of v "Suc n"] r(2) by simp
  qed (use assms in \<open>simp add: SPSC_push_def\<close>)
qed

lemma pop_n_holds:
  assumes "ring_holds k r xs q"
  shows "\<exists>q'. pop_n n q = (take n xs, q') \<and> ring_holds k (r + length (take n xs)) (drop n xs) q'"
  using assms
proof (induction n arbitrary: r xs q)
  case (Suc n)
  show ?case
  proof (cases xs)
    case Nil
    then show ?thesis
      using SPSC_pop_holds [OF Suc(2)] Suc(2) by simp
  next
    case (Cons y ys)
    then obtain q1 where q1: "SPSC_pop q = (q1, True, Some y)" "ring_holds k (Suc r) ys q1"
      using SPSC_pop_holds [OF Suc(2)] by auto
    then show ?thesis
      using Suc(1) [OF q1(2)] Cons by auto
  qed
qed simp

lemma queue_pop:
  assumes "queue_ok n q" "pop_n m q = (xs, q')"
  shows "queue_ok n q' \<and> xs = take m (ring_list q) \<and> ring_list q' = drop m (ring_list q)"
proof -
  obtain r where r: "ring_holds 12 r (ring_list q) q" "r + length (ring_list q) \<le> n"
    using assms(1) by (auto simp: queue_ok_def)
  from pop_n_holds [OF r(1), of m] assms(2)
  have "ring_holds 12 (r + length (take m (ring_list q))) (drop m (ring_list q)) q'" "xs = take m (ring_list q)"
    by auto
  then show ?thesis
    using queue_okI [of "r + length (take m (ring_list q))" "drop m (ring_list q)" q' n] r(2) by simp
qed

lemma queue_size:
  assumes "queue_ok n q" "n + 4096 < 2 ^ 64"
  shows "unat (size_q q) = length (ring_list q)"
proof -
  obtain r where r: "ring_holds 12 r (ring_list q) q" "r + length (ring_list q) \<le> n"
    using assms(1) by (auto simp: queue_ok_def)
  then have "size_q q = of_nat (length (ring_list q))"
    using size_holds [OF r(1)] assms(2) by simp
  then show ?thesis
    using r(2) assms(2) by (simp add: unsigned_of_nat take_bit_eq_mod)
qed

lemma ring_length_list: "length (ring_list q) = ring_length q"
  by (simp add: ring_list_def)

text \<open>Replacing one container changes the tasks waiting in the queues by those of its own queue.\<close>

lemma mset_concat_update:
  assumes "i < length xs"
  shows "mset (concat (map f (xs[i := y]))) + mset (f (xs ! i)) = mset (concat (map f xs)) + mset (f y)"
proof -
  have "xs = take i xs @ xs ! i # drop (Suc i) xs" "xs[i := y] = take i xs @ y # drop (Suc i) xs"
    using assms by (simp_all add: id_take_nth_drop upd_conv_take_nth_drop)
  then have "mset (concat (map f xs)) = mset (concat (map f (take i xs @ xs ! i # drop (Suc i) xs)))"
    "mset (concat (map f (xs[i := y]))) = mset (concat (map f (take i xs @ y # drop (Suc i) xs)))"
    by simp_all
  then show ?thesis
    by (simp only: map_append concat_append mset_append list.map concat.simps) simp
qed

section \<open>The invariant\<close>

definition queued :: "'f time_thread \<Rightarrow> 'f Task list" where
  "queued t = concat (map (\<lambda>c. ring_list (tasks c)) (containers t))"

fun in_hand :: "'f loop_pc \<Rightarrow> 'f Task list" where
  "in_hand (L_popped x) = [x]"
| "in_hand (L_again x i n) = [x]"
| "in_hand _ = []"

fun running :: "'f loop_pc \<Rightarrow> u64 set" where
  "running (L_ran x) = {task_id x}"
| "running _ = {}"

fun visiting :: "'f loop_pc \<Rightarrow> nat" where
  "visiting (L_tasks i n) = n"
| "visiting (L_abandon i n) = max (Suc i) n"
| "visiting (L_again x i n) = n"
| "visiting _ = 0"

text \<open>The containers: every one is in use, its queues are rings, and the local containers of the threads exist.\<close>

definition ids :: "'f Task multiset \<Rightarrow> u64 set" where
  "ids M = task_id ` set_mset M"

lemma ids_simps [simp]: "ids {#} = {}" "ids (A + B) = ids A \<union> ids B" "ids (add_mset x A) = insert (task_id x) (ids A)"
  by (auto simp: ids_def)

definition container_ok :: "nat \<Rightarrow> u64 set \<Rightarrow> 'f TaskContainer \<Rightarrow> bool" where
  "container_ok n R c \<longleftrightarrow> status c = USING \<and> queue_ok n (tasks c) \<and> (\<exists>m. queue_ok m (abandon_tasks c)) \<and>
     abandon_id ` set (ring_list (abandon_tasks c)) \<subseteq> R"

definition containers_ok :: "nat \<Rightarrow> u64 set \<Rightarrow> 'f time_thread \<Rightarrow> bool" where
  "containers_ok n R t \<longleftrightarrow> (\<forall>c \<in> set (containers t). container_ok n R c) \<and>
     (\<forall>tid i. local_task t tid = Some i \<longrightarrow> i < length (containers t) \<or> exit_flag t)"

definition queue_of :: "'f time_thread \<Rightarrow> nat \<Rightarrow> 'f Task list" where
  "queue_of t j = (if j < length (containers t) then ring_list (tasks (containers t ! j)) else [])"

lemma containers_okD: "containers_ok n R t \<Longrightarrow> i < length (containers t) \<Longrightarrow> container_ok n R (containers t ! i)"
  by (simp add: containers_ok_def)

lemma set_container_simps [simp]:
  "containers (set_container i c t) = (containers t)[i := c]" "exit_flag (set_container i c t) = exit_flag t"
  "local_task (set_container i c t) = local_task t" "nearest_run_time (set_container i c t) = nearest_run_time t"
  "timer_id (set_container i c t) = timer_id t" "active_ids (set_container i c t) = active_ids t"
  "heap_tasks (set_container i c t) = heap_tasks t"
  by (simp_all add: set_container_def)

lemma set_container_ok:
  assumes "containers_ok n R t" "container_ok m R' c" "n \<le> m" "R \<subseteq> R'"
  shows "containers_ok m R' (set_container i c t)"
  using assms by (auto simp: containers_ok_def container_ok_def dest!: set_update_subset_insert [THEN subsetD] intro: queue_ok_mono)

lemma set_container_queues:
  assumes "i < length (containers t)"
  shows "queue_of (set_container i c t) = (queue_of t)(i := ring_list (tasks c))"
    "mset (queued (set_container i c t)) + mset (queue_of t i) = mset (queued t) + mset (ring_list (tasks c))"
proof -
  show "queue_of (set_container i c t) = (queue_of t)(i := ring_list (tasks c))"
    using assms by (auto simp: queue_of_def fun_eq_iff)
  show "mset (queued (set_container i c t)) + mset (queue_of t i) = mset (queued t) + mset (ring_list (tasks c))"
    using mset_concat_update [OF assms, of "\<lambda>c. ring_list (tasks c)" c] assms by (simp add: queued_def queue_of_def)
qed

lemma queue_of_nth: "i < length (containers t) \<Longrightarrow> ring_list (tasks (containers t ! i)) = queue_of t i"
  by (simp add: queue_of_def)

lemma queues_timer_id [simp]: "queue_of (t\<lparr>timer_id := n\<rparr>) = queue_of t" "queued (t\<lparr>timer_id := n\<rparr>) = queued t"
  "containers_ok m R (t\<lparr>timer_id := n\<rparr>) = containers_ok m R t"
  by (simp_all add: queue_of_def queued_def containers_ok_def fun_eq_iff)

lemma first_available_using: "\<forall>c \<in> set cs. status c = USING \<Longrightarrow> first_available cs = None"
  by (induction cs) auto

text \<open>What the clients leave alone.\<close>

definition same_timer :: "'f time_thread \<Rightarrow> 'f time_thread \<Rightarrow> bool" where
  "same_timer t t' \<longleftrightarrow> exit_flag t' = exit_flag t \<and> nearest_run_time t' = nearest_run_time t \<and> active_ids t' = active_ids t \<and>
     heap_tasks t' = heap_tasks t \<and> length (containers t) \<le> length (containers t')"

lemma getLocal_spec:
  assumes "containers_ok n R t" "\<not> exit_flag t"
  obtains t' i where "getLocalTaskContainer tid t = (t', Some i)" "i < length (containers t')" "containers_ok n R t'" "same_timer t t'"
    "timer_id t' = timer_id t" "queue_of t' = queue_of t" "queued t' = queued t"
proof (cases "local_task t tid")
  case None
  let ?c = "new_TaskContainer\<lparr>status := USING\<rparr> :: 'a TaskContainer"
  let ?t = "t\<lparr>containers := containers t @ [?c], local_task := (local_task t)(tid \<mapsto> length (containers t))\<rparr>"
  have "first_available (containers t) = None"
    using assms(1) first_available_using [of "containers t"] by (simp add: containers_ok_def container_ok_def)
  then have g: "getLocalTaskContainer tid t = (?t, Some (length (containers t)))"
    using assms(2) None by (simp add: getLocalTaskContainer_def set_container_def)
  moreover have "containers_ok n R ?t"
    using assms by (auto simp: containers_ok_def container_ok_def new_TaskContainer_def less_Suc_eq)
  moreover have "queue_of ?t = queue_of t" "queued ?t = queued t"
    by (auto simp: queue_of_def queued_def new_TaskContainer_def fun_eq_iff nth_append less_Suc_eq)
  ultimately show ?thesis
    using that [OF g] by (simp add: same_timer_def)
next
  case (Some i)
  then have g: "getLocalTaskContainer tid t = (t, Some i)"
    using assms(2) by (simp add: getLocalTaskContainer_def)
  then show ?thesis
    using that [OF g] assms Some by (auto simp: same_timer_def containers_ok_def)
qed

lemma schedule_push_spec:
  assumes "containers_ok n R t" "\<not> exit_flag t"
  obtains (refused) t' where "schedule_push tid at fn t = (t', None)" "containers_ok (Suc n) R t'" "same_timer t t'" "timer_id t' = timer_id t + 1"
      "queue_of t' = queue_of t" "queued t' = queued t"
  | (accepted) t' x i where "schedule_push tid at fn t = (t', Some (timer_id t))" "containers_ok (Suc n) R t'" "same_timer t t'"
      "timer_id t' = timer_id t + 1" "x = \<lparr>abs_time = at, task_id = timer_id t, task_fn = fn\<rparr>"
      "queue_of t' = (queue_of t)(i := queue_of t i @ [x])" "mset (queued t') = add_mset x (mset (queued t))"
proof -
  obtain t1 i where 1: "getLocalTaskContainer tid t = (t1, Some i)" "i < length (containers t1)" "containers_ok n R t1" "same_timer t t1"
    "timer_id t1 = timer_id t" "queue_of t1 = queue_of t" "queued t1 = queued t"
    by (rule getLocal_spec [OF assms])
  let ?x = "\<lparr>abs_time = at, task_id = timer_id t, task_fn = fn\<rparr>"
  let ?t2 = "t1\<lparr>timer_id := timer_id t1 + 1\<rparr>" and ?c = "containers t1 ! i"
  obtain q ok where q: "SPSC_push ?x (tasks ?c) = (q, ok)"
    by fastforce
  have c: "container_ok n R ?c"
    using containers_okD [OF 1(3,2)] .
  have k: "queue_ok (if ok then Suc n else n) q" "ring_list q = (if ok then ring_list (tasks ?c) @ [?x] else ring_list (tasks ?c))"
    using queue_push [OF _ q, of n] c by (simp_all add: container_ok_def)
  have t2: "containers_ok n R ?t2" "queue_of ?t2 = queue_of t" "queued ?t2 = queued t"
    using 1(3,6,7) by simp_all
  show ?thesis
  proof (cases ok)
    case False
    have "containers_ok (Suc n) R ?t2"
      using t2(1) by (auto simp: containers_ok_def container_ok_def intro: queue_ok_mono)
    then show ?thesis
      using refused [of ?t2] False 1 q t2 assms(2) by (simp add: schedule_push_def Let_def same_timer_def)
  next
    case True
    let ?d = "?c\<lparr>tasks := q\<rparr>"
    let ?t3 = "set_container i ?d ?t2"
    have "container_ok (Suc n) R ?d"
      using c k(1) True by (auto simp: container_ok_def)
    then have "containers_ok (Suc n) R ?t3"
      using set_container_ok [OF t2(1)] by simp
    moreover have i: "i < length (containers ?t2)"
      using 1(2) by simp
    have qi: "ring_list (tasks ?c) = queue_of t i"
      using queue_of_nth [OF 1(2)] 1(6) by simp
    have "queue_of ?t3 = (queue_of t)(i := queue_of t i @ [?x])"
      using set_container_queues(1) [OF i, of ?d] k(2) True t2(2) qi by simp
    moreover have "mset (queued ?t3) = add_mset ?x (mset (queued t))"
      using set_container_queues(2) [OF i, of ?d] k(2) True t2(2,3) qi by simp
    ultimately show ?thesis
      using accepted [of ?t3 ?x i] True 1 q assms(2) by (simp add: schedule_push_def Let_def same_timer_def)
  qed
qed

lemma unschedule_spec:
  assumes "containers_ok n R t" "\<not> exit_flag t"
  obtains t' ok where "unschedule tid now ident t = Some (t', ok)" "containers_ok n (if ok then insert ident R else R) t'" "same_timer t t'" "timer_id t' = timer_id t"
      "queue_of t' = queue_of t" "mset (queued t') = mset (queued t)"
proof -
  obtain t1 i where 1: "getLocalTaskContainer tid t = (t1, Some i)" "i < length (containers t1)" "containers_ok n R t1" "same_timer t t1"
    "timer_id t1 = timer_id t" "queue_of t1 = queue_of t" "queued t1 = queued t"
    by (rule getLocal_spec [OF assms])
  let ?c = "containers t1 ! i"
  obtain q ok where q: "SPSC_push \<lparr>abandon_time = now, abandon_id = ident\<rparr> (abandon_tasks ?c) = (q, ok)"
    by fastforce
  have c: "container_ok n R ?c"
    using containers_okD [OF 1(3,2)] .
  let ?t2 = "set_container i (?c\<lparr>abandon_tasks := q\<rparr>) t1"
  obtain m where m: "queue_ok m (abandon_tasks ?c)"
    using c by (auto simp: container_ok_def)
  have "container_ok n (insert ident R) (?c\<lparr>abandon_tasks := q\<rparr>)"
    using c queue_push [OF m q] by (auto simp: container_ok_def split: if_splits)
  then have "containers_ok n (insert ident R) ?t2"
    using set_container_ok [OF 1(3)] by auto
  moreover have "queue_of ?t2 = queue_of t" "mset (queued ?t2) = mset (queued t)"
    using set_container_queues [OF 1(2), of "?c\<lparr>abandon_tasks := q\<rparr>"] queue_of_nth [OF 1(2)] 1(6,7) by simp_all
  ultimately show ?thesis
    using that [of "if ok then ?t2 else t1" ok] 1 q by (cases ok) (simp_all add: unschedule_def Let_def same_timer_def)
qed

section \<open>What the pieces of the loop do\<close>

lemma push_tasks_spec:
  assumes "is_heap abs_time (length xs) xs"
  shows "is_heap abs_time (length (fold push_task ys xs)) (fold push_task ys xs)" "mset (fold push_task ys xs) = mset xs + mset ys"
proof -
  have "fold push_task ys xs = fold (\<lambda>x xs. push_heap abs_time (xs @ [x])) ys xs"
    by (rule fold_cong) (auto simp: push_task_def)
  then show "is_heap abs_time (length (fold push_task ys xs)) (fold push_task ys xs)" "mset (fold push_task ys xs) = mset xs + mset ys"
    using std_heap.push_all [OF assms, of ys] by simp_all
qed

lemma collect_tasks_spec:
  assumes "containers_ok n R t" "i < length (containers t)" "is_heap abs_time (length (heap_tasks t)) (heap_tasks t)"
  obtains xs ys where "queue_of t i = xs @ ys" "queue_of (collect_tasks i t) = (queue_of t)(i := ys)" "n + 4096 < 2 ^ 64 \<Longrightarrow> ys = []"
    "mset (queued t) = mset xs + mset (queued (collect_tasks i t))" "containers_ok n R (collect_tasks i t)"
    "is_heap abs_time (length (heap_tasks (collect_tasks i t))) (heap_tasks (collect_tasks i t))"
    "mset (heap_tasks (collect_tasks i t)) = mset (heap_tasks t) + mset xs" "active_ids (collect_tasks i t) = active_ids t \<union> ids (mset xs)"
    "timer_id (collect_tasks i t) = timer_id t" "exit_flag (collect_tasks i t) = exit_flag t"
    "nearest_run_time (collect_tasks i t) = nearest_run_time t" "length (containers (collect_tasks i t)) = length (containers t)"
proof -
  let ?c = "containers t ! i" and ?t = "collect_tasks i t"
  let ?m = "unat (size_q (tasks ?c))"
  obtain xs q where q: "pop_n ?m (tasks ?c) = (xs, q)"
    by fastforce
  have c: "container_ok n R ?c"
    using containers_okD [OF assms(1,2)] .
  have k: "queue_ok n q" "xs = take ?m (queue_of t i)" "ring_list q = drop ?m (queue_of t i)"
    using queue_pop [OF _ q, of n] c queue_of_nth [OF assms(2)] by (simp_all add: container_ok_def)
  let ?s = "set_container i (?c\<lparr>tasks := q\<rparr>) t"
  have t: "?t = ?s\<lparr>active_ids := active_ids t \<union> set (map task_id xs), heap_tasks := fold push_task xs (heap_tasks t)\<rparr>"
    using q by (simp add: collect_tasks_def Let_def)
  have "container_ok n R (?c\<lparr>tasks := q\<rparr>)"
    using c k(1) by (auto simp: container_ok_def)
  then have "containers_ok n R ?s"
    using set_container_ok [OF assms(1)] by simp
  then have ok: "containers_ok n R ?t"
    by (simp add: t containers_ok_def)
  have qs: "queue_of ?t = queue_of ?s" "queued ?t = queued ?s"
    by (simp_all add: t queue_of_def queued_def fun_eq_iff)
  have "queue_of t i = xs @ drop ?m (queue_of t i)"
    using k(2) by simp
  moreover have "drop ?m (queue_of t i) = []" if "n + 4096 < 2 ^ 64"
    using that queue_size [of n "tasks ?c"] c queue_of_nth [OF assms(2)] by (simp add: container_ok_def)
  moreover have "queue_of ?t = (queue_of t)(i := drop ?m (queue_of t i))"
    using set_container_queues(1) [OF assms(2), of "?c\<lparr>tasks := q\<rparr>"] k(3) qs by simp
  moreover have "mset (queued t) = mset xs + mset (queued ?t)"
  proof -
    have "mset (queue_of t i) = mset xs + mset (drop ?m (queue_of t i))"
      using k(2) by (metis append_take_drop_id mset_append)
    then show ?thesis
      using set_container_queues(2) [OF assms(2), of "?c\<lparr>tasks := q\<rparr>"] k(3) qs by (simp add: union_commute)
  qed
  ultimately show ?thesis
    using that [of xs "drop ?m (queue_of t i)"] ok push_tasks_spec [OF assms(3), of xs] by (simp add: t ids_def)
qed

lemma collectUnschedule_spec:
  assumes "containers_ok n R t" "i < length (containers t)"
  shows "queue_of (collectUnschedule i t) = queue_of t" "mset (queued (collectUnschedule i t)) = mset (queued t)"
    "containers_ok n R (collectUnschedule i t)" "active_ids (collectUnschedule i t) \<subseteq> active_ids t"
    "active_ids t \<subseteq> active_ids (collectUnschedule i t) \<union> R"
    "heap_tasks (collectUnschedule i t) = heap_tasks t" "timer_id (collectUnschedule i t) = timer_id t"
    "exit_flag (collectUnschedule i t) = exit_flag t" "nearest_run_time (collectUnschedule i t) = nearest_run_time t"
    "length (containers (collectUnschedule i t)) = length (containers t)"
proof -
  let ?c = "containers t ! i" and ?t = "collectUnschedule i t"
  obtain xs q where q: "pop_n (unat (size_q (abandon_tasks ?c))) (abandon_tasks ?c) = (xs, q)"
    by fastforce
  let ?s = "set_container i (?c\<lparr>abandon_tasks := q\<rparr>) t"
  have t: "?t = ?s\<lparr>active_ids := active_ids t - set (map abandon_id xs)\<rparr>"
    using q by (simp add: collectUnschedule_def Let_def)
  have c: "container_ok n R ?c"
    using containers_okD [OF assms] .
  obtain m where "queue_ok m (abandon_tasks ?c)"
    using c by (auto simp: container_ok_def)
  note k = queue_pop [OF this q]
  have r: "set (ring_list q) \<subseteq> set (ring_list (abandon_tasks ?c))" "set xs \<subseteq> set (ring_list (abandon_tasks ?c))"
    using k by (auto dest: in_set_dropD in_set_takeD)
  then have "container_ok n R (?c\<lparr>abandon_tasks := q\<rparr>)"
    using c k by (auto simp: container_ok_def)
  then have "containers_ok n R ?s"
    using set_container_ok [OF assms(1)] by simp
  then show "containers_ok n R ?t"
    by (simp add: t containers_ok_def)
  have "queue_of ?t = queue_of ?s" "queued ?t = queued ?s"
    by (simp_all add: t queue_of_def queued_def fun_eq_iff)
  then show "queue_of ?t = queue_of t" "mset (queued ?t) = mset (queued t)"
    using set_container_queues [OF assms(2), of "?c\<lparr>abandon_tasks := q\<rparr>"] queue_of_nth [OF assms(2)] by simp_all
  have "abandon_id ` set xs \<subseteq> R"
    using r(2) c by (auto simp: container_ok_def)
  then show "active_ids t \<subseteq> active_ids ?t \<union> R"
    by (auto simp: t)
  show "active_ids ?t \<subseteq> active_ids t" "heap_tasks ?t = heap_tasks t" "timer_id ?t = timer_id t" "exit_flag ?t = exit_flag t"
    "nearest_run_time ?t = nearest_run_time t" "length (containers ?t) = length (containers t)"
    by (auto simp: t)
qed

lemma destroy_containers_spec:
  assumes "\<forall>c \<in> set cs. container_ok n R c" "is_heap abs_time (length (heap_tasks t)) (heap_tasks t)"
  shows "mset (heap_tasks (fold destroy_container cs t)) = mset (heap_tasks t) + mset (concat (map (\<lambda>c. ring_list (tasks c)) cs)) \<and>
    active_ids (fold destroy_container cs t) \<subseteq> active_ids t \<union> ids (mset (concat (map (\<lambda>c. ring_list (tasks c)) cs))) \<and>
    active_ids t \<union> ids (mset (concat (map (\<lambda>c. ring_list (tasks c)) cs))) \<subseteq> active_ids (fold destroy_container cs t) \<union> R \<and>
    timer_id (fold destroy_container cs t) = timer_id t \<and> exit_flag (fold destroy_container cs t) = exit_flag t \<and>
    is_heap abs_time (length (heap_tasks (fold destroy_container cs t))) (heap_tasks (fold destroy_container cs t))"
  using assms
proof (induction cs arbitrary: t)
  case (Cons c cs)
  let ?xs = "ring_list (tasks c)" and ?t = "destroy_container c t"
  have "queue_ok n (tasks c)"
    using Cons(2) by (simp add: container_ok_def)
  then have p: "fst (pop_n (ring_length (tasks c)) (tasks c)) = ?xs"
    using queue_pop [of n "tasks c" "ring_length (tasks c)"] ring_length_list [of "tasks c"]
    by (cases "pop_n (ring_length (tasks c)) (tasks c)") simp
  obtain m where m: "queue_ok m (abandon_tasks c)" "abandon_id ` set (ring_list (abandon_tasks c)) \<subseteq> R"
    using Cons(2) by (auto simp: container_ok_def)
  then have "fst (pop_n (ring_length (abandon_tasks c)) (abandon_tasks c)) = ring_list (abandon_tasks c)"
    using queue_pop [of m "abandon_tasks c" "ring_length (abandon_tasks c)"] ring_length_list [of "abandon_tasks c"]
    by (cases "pop_n (ring_length (abandon_tasks c)) (abandon_tasks c)") simp
  then have t: "heap_tasks ?t = fold push_task ?xs (heap_tasks t)" "active_ids ?t \<subseteq> active_ids t \<union> ids (mset ?xs)"
    "active_ids t \<union> ids (mset ?xs) \<subseteq> active_ids ?t \<union> R" "timer_id ?t = timer_id t" "exit_flag ?t = exit_flag t"
    using p m(2) by (auto simp: destroy_container_def Let_def ids_def)
  have "\<forall>c \<in> set cs. container_ok n R c" "is_heap abs_time (length (heap_tasks ?t)) (heap_tasks ?t)"
    using Cons(2) push_tasks_spec(1) [OF Cons(3), of ?xs] t(1) by simp_all
  from Cons(1) [OF this] show ?case
    using push_tasks_spec(2) [OF Cons(3), of ?xs] t by (simp add: union_assoc) blast
qed simp

section \<open>Invariants of the runs\<close>

text \<open>The tasks the loop has taken from the queues and not run or dropped, and all it has taken.\<close>

definition waiting :: "'f timer_run \<Rightarrow> 'f Task multiset" where
  "waiting s = (if pc s = L_stopped then {#} else mset (heap_tasks (tt s)) + mset (in_hand (pc s)))"

definition taken :: "'f timer_run \<Rightarrow> 'f Task multiset" where
  "taken s = waiting s + mset (ran s) + mset (dropped s)"

definition shape_ok :: "'f timer_run \<Rightarrow> bool" where
  "shape_ok s \<longleftrightarrow> containers_ok (issued s) (requested s) (tt s) \<and> visiting (pc s) \<le> length (containers (tt s)) \<and>
     (pc s = L_stopped \<longrightarrow> exit_flag (tt s) \<and> containers (tt s) = []) \<and> timer_id (tt s) = of_nat (issued s) \<and>
     is_heap abs_time (length (heap_tasks (tt s))) (heap_tasks (tt s))"

text \<open>Every accepted task is at one place, and no id is used twice.\<close>

definition parts_ok :: "'f timer_run \<Rightarrow> bool" where
  "parts_ok s \<longleftrightarrow> mset (accepted s) = mset (queued (tt s)) + taken s \<and> distinct (map task_id (accepted s)) \<and>
     (\<forall>x \<in> set (accepted s). unat (task_id x) < issued s)"

definition ids_ok :: "'f timer_run \<Rightarrow> bool" where
  "ids_ok s \<longleftrightarrow> cancelled s \<subseteq> ids (taken s) \<inter> requested s \<and> cancelled s \<inter> ids (mset (ran s)) = {} \<and>
     ids (mset (dropped s)) \<subseteq> requested s \<and>
     (pc s \<noteq> L_stopped \<longrightarrow> active_ids (tt s) \<subseteq> ids (taken s) \<and> active_ids (tt s) \<inter> cancelled s = {} \<and>
        active_ids (tt s) \<inter> ids (mset (ran s)) \<subseteq> running (pc s) \<and> running (pc s) \<subseteq> ids (mset (ran s)) \<and>
        ids (waiting s) \<subseteq> active_ids (tt s) \<union> requested s)"

definition time_ok :: "'f timer_run \<Rightarrow> bool" where
  "time_ok s \<longleftrightarrow> (pc s \<noteq> L_stopped \<longrightarrow> (\<forall>x \<in> set (ran s). abs_time x \<le> clock s)) \<and> (\<forall>x \<in> set (in_hand (pc s)). abs_time x \<le> clock s)"

text \<open>
  Which queues the current pass still has to visit; the tasks of the others are announced by \<^verbatim>\<open>_nearest_run_time\<close>, or by a
  client that has yet to lower it.
\<close>

fun to_visit :: "'f loop_pc \<Rightarrow> nat \<Rightarrow> bool" where
  "to_visit L_count j = True"
| "to_visit (L_tasks i n) j = (i \<le> j \<and> j < n)"
| "to_visit (L_abandon i n) j = (Suc i \<le> j \<and> j < n)"
| "to_visit L_stopped j = True"
| "to_visit _ j = False"

fun resting :: "'f loop_pc \<Rightarrow> bool" where
  "resting L_idle = True"
| "resting (L_wait v) = True"
| "resting _ = False"

definition announced :: "'f timer_run \<Rightarrow> u64 \<Rightarrow> bool" where
  "announced s at \<longleftrightarrow> nearest_run_time (tt s) \<le> at \<or> (\<exists>tid. pending s tid = Some at)"

definition near_ok :: "'f timer_run \<Rightarrow> bool" where
  "near_ok s \<longleftrightarrow> (\<forall>j. to_visit (pc s) j \<or> (\<forall>x \<in> set (queue_of (tt s) j). announced s (abs_time x))) \<and>
     (resting (pc s) \<longrightarrow> (\<forall>x \<in> set (heap_tasks (tt s)). nearest_run_time (tt s) \<le> abs_time x)) \<and>
     (\<forall>v. pc s = L_wait v \<longrightarrow> nearest_run_time (tt s) \<le> v)"

definition timer_inv :: "'f timer_run \<Rightarrow> bool" where
  "timer_inv s \<longleftrightarrow> shape_ok s \<and> parts_ok s \<and> ids_ok s \<and> time_ok s \<and> near_ok s"

lemmas timer_inv_defs = shape_ok_def parts_ok_def ids_ok_def time_ok_def near_ok_def

section \<open>The clients keep the invariants\<close>

lemma queues_fields [simp]:
  "queue_of (t\<lparr>nearest_run_time := v\<rparr>) = queue_of t" "queued (t\<lparr>nearest_run_time := v\<rparr>) = queued t"
  "containers_ok n R (t\<lparr>nearest_run_time := v\<rparr>) = containers_ok n R t"
  "queue_of (t\<lparr>active_ids := I\<rparr>) = queue_of t" "queued (t\<lparr>active_ids := I\<rparr>) = queued t"
  "containers_ok n R (t\<lparr>active_ids := I\<rparr>) = containers_ok n R t"
  "queue_of (t\<lparr>heap_tasks := h\<rparr>) = queue_of t" "queued (t\<lparr>heap_tasks := h\<rparr>) = queued t"
  "containers_ok n R (t\<lparr>heap_tasks := h\<rparr>) = containers_ok n R t"
  by (simp_all add: queue_of_def queued_def containers_ok_def fun_eq_iff)

lemma timer_start_inv: "timer_inv (timer_start now)"
  by (simp add: timer_inv_def timer_inv_defs timer_start_def TimeThread_def containers_ok_def queue_of_def queued_def
      taken_def waiting_def is_heap_def)

lemma near_frame:
  assumes "near_ok s" "pc s' = pc s" "heap_tasks (tt s') = heap_tasks (tt s)" "nearest_run_time (tt s') \<le> nearest_run_time (tt s)"
    "\<And>j x. x \<in> set (queue_of (tt s') j) \<Longrightarrow> x \<in> set (queue_of (tt s) j) \<or> announced s' (abs_time x)"
    "\<And>a. announced s a \<Longrightarrow> announced s' a"
  shows "near_ok s'"
  unfolding near_ok_def assms(2,3)
proof (intro conjI allI impI ballI)
  fix j
  show "to_visit (pc s) j \<or> (\<forall>x \<in> set (queue_of (tt s') j). announced s' (abs_time x))"
    using assms(1,5,6) unfolding near_ok_def by blast
next
  fix x
  assume "resting (pc s)" "x \<in> set (heap_tasks (tt s))"
  then show "nearest_run_time (tt s') \<le> abs_time x"
    using assms(1,4) unfolding near_ok_def by (meson order_trans)
next
  fix v
  assume "pc s = L_wait v"
  then show "nearest_run_time (tt s') \<le> v"
    using assms(1,4) unfolding near_ok_def by (meson order_trans)
qed

lemma ids_frame:
  assumes "ids_ok s" "pc s' = pc s" "active_ids (tt s') = active_ids (tt s)" "heap_tasks (tt s') = heap_tasks (tt s)" "ran s' = ran s"
    "dropped s' = dropped s" "cancelled s' = cancelled s" "requested s \<subseteq> requested s'"
  shows "ids_ok s'"
proof -
  have "waiting s' = waiting s" "taken s' = taken s"
    using assms(2-6) by (simp_all add: waiting_def taken_def)
  then show ?thesis
    using assms(1,8) unfolding ids_ok_def assms(2,3,5-7) by (simp only:) blast
qed

lemma schedule_inv:
  assumes "timer_inv s" "timer_step (Schedule tid at fn) s = Some s'" "issued s' + 4096 < 2 ^ 64"
  shows "timer_inv s'"
proof (cases "exit_flag (tt s)")
  case True
  then have "s' = s"
    using assms(2) by (simp add: schedule_push_def split: if_splits)
  then show ?thesis
    using assms(1) by simp
next
  case False
  have sh: "containers_ok (issued s) (requested s) (tt s)" "timer_id (tt s) = of_nat (issued s)"
    using assms(1) by (simp_all add: timer_inv_def shape_ok_def)
  show ?thesis
  proof (cases rule: schedule_push_spec [OF sh(1) False, of tid at fn])
    case (1 t)
    then have "s' = s\<lparr>tt := t, issued := Suc (issued s)\<rparr>"
      using assms(2) False by (simp split: if_splits)
    moreover have "\<forall>x \<in> set (accepted s). unat (task_id x) < Suc (issued s)"
      using assms(1) by (auto simp: timer_inv_def parts_ok_def intro: less_SucI)
    ultimately show ?thesis
      using assms(1) 1 sh(2) False near_frame [of s s'] ids_frame [of s s']
      by (simp add: timer_inv_def shape_ok_def parts_ok_def time_ok_def taken_def waiting_def same_timer_def announced_def)
  next
    case (2 t x i)
    let ?s = "s\<lparr>tt := t, issued := Suc (issued s), pending := (pending s)(tid \<mapsto> at), accepted := accepted s @ [x]\<rparr>"
    have s': "s' = ?s" "pending s tid = None"
      using assms(2) False 2(1,5) by (simp_all split: if_splits)
    have p: "parts_ok s"
      using assms(1) by (simp add: timer_inv_def)
    have k: "unat (task_id x) = issued s"
      using 2(5) sh(2) assms(3) s' by (simp add: unsigned_of_nat take_bit_eq_mod)
    have "parts_ok ?s"
      using p 2(3,7) k by (auto simp: parts_ok_def taken_def waiting_def same_timer_def)
    moreover have a: "announced ?s a" if "announced s a \<or> a = at" for a
    proof -
      have "pending s tida = Some a \<Longrightarrow> pending ?s tida = Some a" for tida
        using s'(2) by auto
      then show ?thesis
        using that 2(3) unfolding announced_def same_timer_def by fastforce
    qed
    have "near_ok ?s"
    proof (rule near_frame [of s])
      show "x' \<in> set (queue_of (tt s) j) \<or> announced ?s (abs_time x')" if "x' \<in> set (queue_of (tt ?s) j)" for x' j
        using that 2(5,6) a [of at] by (auto split: if_splits)
    qed (use assms(1) 2(3) a in \<open>simp_all add: timer_inv_def same_timer_def\<close>)
    moreover have "ids_ok ?s"
      by (rule ids_frame [of s]) (use assms(1) 2(3) in \<open>simp_all add: timer_inv_def same_timer_def\<close>)
    moreover have "shape_ok ?s" "time_ok ?s"
      using assms(1) 2 sh(2) False by (simp_all add: timer_inv_def shape_ok_def time_ok_def same_timer_def)
    ultimately show ?thesis
      using s' by (simp add: timer_inv_def)
  qed
qed

lemma lower_nearest_simps [simp]:
  "containers (lower_nearest a t) = containers t" "exit_flag (lower_nearest a t) = exit_flag t" "local_task (lower_nearest a t) = local_task t"
  "timer_id (lower_nearest a t) = timer_id t" "active_ids (lower_nearest a t) = active_ids t" "heap_tasks (lower_nearest a t) = heap_tasks t"
  "queue_of (lower_nearest a t) = queue_of t" "queued (lower_nearest a t) = queued t"
  "containers_ok n R (lower_nearest a t) = containers_ok n R t" "nearest_run_time (lower_nearest a t) = min (nearest_run_time t) a"
  by (simp_all add: lower_nearest_def min_def)

lemma lower_inv:
  assumes "timer_inv s" "timer_step (Lower tid) s = Some s'"
  shows "timer_inv s'"
proof -
  obtain at where s': "pending s tid = Some at" "s' = s\<lparr>tt := lower_nearest at (tt s), pending := (pending s)(tid := None)\<rparr>"
    using assms(2) by (auto split: option.splits)
  have "announced s' a" if an: "announced s a" for a
  proof (cases "nearest_run_time (tt s) \<le> a")
    case False
    then obtain i where "pending s i = Some a"
      using an by (auto simp: announced_def)
    then show ?thesis
      using s' by (cases "i = tid") (auto simp: announced_def min_le_iff_disj)
  qed (use s' in \<open>simp add: announced_def min_le_iff_disj\<close>)
  then have "near_ok s'"
    using assms(1) s' near_frame [of s s'] by (simp add: timer_inv_def)
  then show ?thesis
    using assms(1) s' ids_frame [of s s'] by (simp add: timer_inv_def shape_ok_def parts_ok_def time_ok_def taken_def waiting_def)
qed

lemma unschedule_inv:
  assumes "timer_inv s" "timer_step (Unschedule tid ident) s = Some s'"
  shows "timer_inv s'"
proof -
  have ne: "\<not> exit_flag (tt s)"
    using assms(2) by (auto simp: unschedule_def getLocalTaskContainer_def)
  have "containers_ok (issued s) (requested s) (tt s)"
    using assms(1) by (simp add: timer_inv_def shape_ok_def)
  from unschedule_spec [OF this ne, of tid "clock s" ident] obtain t ok where
    t: "unschedule tid (clock s) ident (tt s) = Some (t, ok)" "containers_ok (issued s) (if ok then insert ident (requested s) else requested s) t"
      "same_timer (tt s) t" "timer_id t = timer_id (tt s)" "queue_of t = queue_of (tt s)" "mset (queued t) = mset (queued (tt s))"
    by metis
  let ?R = "if ok then insert ident (requested s) else requested s"
  have s': "s' = s\<lparr>tt := t, requested := ?R\<rparr>" and R: "requested s \<subseteq> ?R"
    using assms(2) t(1) by auto
  have "ids_ok s'"
    by (rule ids_frame [of s]) (use assms(1) s' R t(3) in \<open>simp_all add: timer_inv_def same_timer_def\<close>)
  moreover have "near_ok s'"
    by (rule near_frame [of s]) (use assms(1) s' t in \<open>simp_all add: timer_inv_def same_timer_def announced_def\<close>)
  moreover have "shape_ok s'" "parts_ok s'" "time_ok s'"
    using assms(1) s' t ne by (simp_all add: timer_inv_def shape_ok_def parts_ok_def time_ok_def same_timer_def taken_def waiting_def)
  ultimately show ?thesis
    by (simp add: timer_inv_def)
qed

lemma tick_inv:
  assumes "timer_inv s" "timer_step (Tick now) s = Some s'"
  shows "timer_inv s'"
proof -
  have s': "s' = s\<lparr>clock := now\<rparr>" "clock s \<le> now"
    using assms(2) by (simp_all split: if_splits)
  have "time_ok s'"
    using assms(1) s' unfolding timer_inv_def time_ok_def by (auto intro: order_trans)
  then show ?thesis
    using assms(1) s' near_frame [of s s'] ids_frame [of s s']
    by (simp add: timer_inv_def shape_ok_def parts_ok_def taken_def waiting_def announced_def)
qed

section \<open>The loop keeps the invariants\<close>

lemma distinct_ids:
  assumes "mset l = A + B" "distinct (map task_id l)"
  shows "ids A \<inter> ids B = {}" "A = mset r \<Longrightarrow> distinct (map task_id r)"
proof -
  obtain a b where "mset a = A" "mset b = B"
    using ex_mset by metis
  then have "mset (map task_id l) = mset (map task_id (a @ b))"
    using assms(1) by simp
  then have d: "distinct (map task_id (a @ b))"
    using assms(2) mset_eq_imp_distinct_iff by blast
  then show "ids A \<inter> ids B = {}"
    using \<open>mset a = A\<close> \<open>mset b = B\<close> by (simp add: ids_def flip: set_mset_mset)
  show "distinct (map task_id r)" if "A = mset r"
  proof -
    have "mset (map task_id r) = mset (map task_id a)"
      using that \<open>mset a = A\<close> by simp
    then show ?thesis
      using d mset_eq_imp_distinct_iff [of "map task_id r" "map task_id a"] by simp
  qed
qed

lemma pc_inv:
  assumes "timer_inv s" "pc s \<noteq> L_stopped" "p \<noteq> L_stopped" "in_hand p = in_hand (pc s)" "running p = running (pc s)"
    "visiting p \<le> length (containers (tt s))" "\<And>j. to_visit (pc s) j \<Longrightarrow> to_visit p j \<or> queue_of (tt s) j = []"
    "resting p \<Longrightarrow> \<forall>x \<in> set (heap_tasks (tt s)). nearest_run_time (tt s) \<le> abs_time x" "\<And>v. p = L_wait v \<Longrightarrow> nearest_run_time (tt s) \<le> v"
  shows "timer_inv (s\<lparr>pc := p\<rparr>)"
proof -
  let ?s = "s\<lparr>pc := p\<rparr>"
  have w: "waiting ?s = waiting s" "taken ?s = taken s" "announced ?s = announced s"
    using assms(2-4) by (simp_all add: waiting_def taken_def announced_def fun_eq_iff)
  have i: "shape_ok s" "parts_ok s" "ids_ok s" "time_ok s" "near_ok s"
    using assms(1) by (simp_all add: timer_inv_def)
  have "shape_ok ?s" "parts_ok ?s" "time_ok ?s"
    using i assms(2-6) w by (simp_all add: shape_ok_def parts_ok_def time_ok_def)
  moreover have "ids_ok ?s"
    using i(3) assms(2,3,5) w by (simp add: ids_ok_def)
  moreover have "\<forall>x \<in> set (queue_of (tt s) j). announced s (abs_time x)" if "\<not> to_visit p j" for j
    using i(5) assms(7) [of j] that unfolding near_ok_def by (cases "to_visit (pc s) j") auto
  then have "near_ok ?s"
    using assms(8,9) w by (auto simp: near_ok_def)
  ultimately show ?thesis
    by (simp add: timer_inv_def)
qed

lemma collect_inv:
  assumes "timer_inv s" "i < length (containers (tt s))" "pc s \<noteq> L_stopped" "running (pc s) = {}"
  shows "timer_inv (collect_step i s)" "length (containers (tt (collect_step i s))) = length (containers (tt s))"
    "pc (collect_step i s) = pc s" "queue_of (tt (collect_step i s)) = queue_of (tt s)"
proof -
  have i: "shape_ok s" "parts_ok s" "ids_ok s" "time_ok s" "near_ok s"
    using assms(1) by (simp_all add: timer_inv_def)
  then have ok: "containers_ok (issued s) (requested s) (tt s)"
    by (simp add: shape_ok_def)
  note c = collectUnschedule_spec [OF ok assms(2)]
  let ?t = "collectUnschedule i (tt s)" and ?s = "collect_step i s"
  have s: "?s = s\<lparr>tt := ?t, cancelled := cancelled s \<union> (active_ids (tt s) - active_ids ?t)\<rparr>"
    by (simp add: collect_step_def Let_def)
  have w: "waiting ?s = waiting s" "taken ?s = taken s" "announced ?s = announced s"
    using c by (simp_all add: s waiting_def taken_def announced_def fun_eq_iff)
  have "shape_ok ?s" "parts_ok ?s" "time_ok ?s" "near_ok ?s"
    using i c w assms(3) by (simp_all add: s shape_ok_def parts_ok_def time_ok_def near_ok_def)
  moreover have "ids_ok ?s"
    using i(3) c(4,5) assms(3,4) w unfolding ids_ok_def s by simp blast
  ultimately show "timer_inv ?s"
    by (simp add: timer_inv_def)
  show "length (containers (tt ?s)) = length (containers (tt s))" "pc ?s = pc s" "queue_of (tt ?s) = queue_of (tt s)"
    using c by (simp_all add: s)
qed

lemma tasks_inv:
  assumes "timer_inv s" "pc s = L_tasks i n" "i < n" "issued s + 4096 < 2 ^ 64"
  shows "timer_inv (s\<lparr>tt := collect_tasks i (tt s), pc := L_abandon i n\<rparr>)"
proof -
  have i: "shape_ok s" "parts_ok s" "ids_ok s" "time_ok s" "near_ok s"
    using assms(1) by (simp_all add: timer_inv_def)
  let ?t = "collect_tasks i (tt s)"
  let ?s = "s\<lparr>tt := ?t, pc := L_abandon i n\<rparr>"
  have k: "containers_ok (issued s) (requested s) (tt s)" "i < length (containers (tt s))"
    "is_heap abs_time (length (heap_tasks (tt s))) (heap_tasks (tt s))"
    using i(1) assms(2,3) by (simp_all add: shape_ok_def)
  from collect_tasks_spec [OF k] assms(4) obtain xs where
    c: "queue_of ?t = (queue_of (tt s))(i := [])" "mset (queued (tt s)) = mset xs + mset (queued ?t)" "containers_ok (issued s) (requested s) ?t"
    "is_heap abs_time (length (heap_tasks ?t)) (heap_tasks ?t)" "mset (heap_tasks ?t) = mset (heap_tasks (tt s)) + mset xs"
    "active_ids ?t = active_ids (tt s) \<union> ids (mset xs)" "timer_id ?t = timer_id (tt s)" "exit_flag ?t = exit_flag (tt s)"
    "nearest_run_time ?t = nearest_run_time (tt s)" "length (containers ?t) = length (containers (tt s))"
    by metis
  have w: "waiting ?s = waiting s + mset xs" "taken ?s = taken s + mset xs" "announced ?s = announced s"
    using c(5,9) assms(2) by (simp_all add: waiting_def taken_def announced_def fun_eq_iff)
  have "shape_ok ?s" "time_ok ?s"
    using i assms(2,3) c by (simp_all add: shape_ok_def time_ok_def)
  moreover have p: "parts_ok ?s"
    using i(2) c(2) w by (simp add: parts_ok_def)
  moreover have "ids (mset xs) \<inter> ids (taken s) = {}"
    using distinct_ids(1) [of "accepted s" "mset xs + mset (queued ?t)" "taken s"] i(2) c(2) by (auto simp: parts_ok_def)
  then have "ids_ok ?s"
    using i(3) assms(2) c(6) w unfolding ids_ok_def by (simp add: taken_def) blast
  moreover have "\<forall>x \<in> set (queue_of ?t j). announced s (abs_time x)" if "\<not> (Suc i \<le> j \<and> j < n)" for j
  proof (cases "j = i")
    case False
    then have "\<not> to_visit (pc s) j"
      using that assms(2) by auto
    then show ?thesis
      using i(5) c(1) False by (auto simp: near_ok_def)
  qed (use c(1) in simp)
  then have "near_ok ?s"
    using w(3) by (auto simp: near_ok_def)
  ultimately show ?thesis
    by (simp add: timer_inv_def)
qed

lemma idle_inv:
  assumes "timer_inv s" "pc s = L_idle"
  shows "timer_inv (s\<lparr>tt := (tt s)\<lparr>nearest_run_time := size_max\<rparr>, pc := L_count\<rparr>)"
  using assms by (simp add: timer_inv_def timer_inv_defs waiting_def taken_def)

lemma due_inv:
  assumes "timer_inv s" "pc s = L_due"
  shows "timer_inv (due_step s)"
proof -
  have i: "shape_ok s" "parts_ok s" "ids_ok s" "time_ok s" "near_ok s"
    using assms(1) by (simp_all add: timer_inv_def)
  let ?h = "heap_tasks (tt s)"
  have h: "is_heap abs_time (length ?h) ?h"
    using i(1) by (simp add: shape_ok_def)
  consider (stop) "?h = [] \<or> clock s < abs_time (?h ! 0)" | (early) "nearest_run_time (tt s) < abs_time (?h ! 0)" "due_step s = s\<lparr>pc := L_idle\<rparr>"
    | (run) "?h \<noteq> []" "abs_time (?h ! 0) \<le> clock s"
        "due_step s = s\<lparr>tt := (tt s)\<lparr>heap_tasks := butlast (pop_heap abs_time ?h)\<rparr>, pc := L_popped (last (pop_heap abs_time ?h))\<rparr>"
    by (fastforce simp: due_step_def Let_def not_less split: if_splits)
  then show ?thesis
  proof cases
    case stop
    then have "due_step s = s\<lparr>pc := L_end\<rparr>"
      by (simp add: due_step_def Let_def)
    then show ?thesis
      using pc_inv [OF assms(1), of L_end] assms(2) by simp
  next
    case early
    then have "\<forall>x \<in> set ?h. nearest_run_time (tt s) \<le> abs_time x"
      using std_heap.top_law [OF h] by fastforce
    then show ?thesis
      using pc_inv [OF assms(1), of L_idle] assms(2) early(2) by simp
  next
    case run
    let ?p = "pop_heap abs_time ?h"
    have p: "last ?p = ?h ! 0" "add_mset (?h ! 0) (mset (butlast ?p)) = mset ?h" "is_heap abs_time (length (butlast ?p)) (butlast ?p)"
      using std_heap.pop_last [OF h run(1)] std_heap.pop_rest [OF h run(1)] std_heap.pop_law [OF h run(1)] by simp_all
    have w: "waiting (due_step s) = waiting s" "taken (due_step s) = taken s" "announced (due_step s) = announced s"
      using p(1,2) assms(2) by (simp_all add: run(3) waiting_def taken_def announced_def fun_eq_iff)
    have "shape_ok (due_step s)" "parts_ok (due_step s)" "time_ok (due_step s)" "near_ok (due_step s)" "ids_ok (due_step s)"
      using i assms(2) p run w
      by (simp_all add: shape_ok_def parts_ok_def time_ok_def near_ok_def ids_ok_def)
    then show ?thesis
      by (simp add: timer_inv_def)
  qed
qed

lemma run_inv:
  assumes "timer_inv s" "pc s = L_again x i n"
  shows "timer_inv (run_step x s)"
proof -
  have i: "shape_ok s" "parts_ok s" "ids_ok s" "time_ok s" "near_ok s"
    using assms(1) by (simp_all add: timer_inv_def)
  let ?s = "run_step x s"
  have t: "taken ?s = taken s" "announced ?s = announced s" "waiting s = add_mset x (waiting ?s)"
    using assms(2) by (simp_all add: run_step_def taken_def waiting_def announced_def fun_eq_iff)
  have "shape_ok ?s" "parts_ok ?s" "time_ok ?s" "near_ok ?s"
    using i assms(2) t(1,2) by (auto simp: run_step_def shape_ok_def parts_ok_def time_ok_def near_ok_def)
  moreover have "ids_ok ?s"
  proof (cases "task_id x \<in> active_ids (tt s)")
    case True
    then have s: "?s = s\<lparr>ran := ran s @ [x], pc := L_ran x\<rparr>"
      by (simp add: run_step_def)
    show ?thesis
      using i(3) assms(2) True t unfolding ids_ok_def s by simp blast
  next
    case False
    then have s: "?s = s\<lparr>dropped := dropped s @ [x], pc := L_due\<rparr>"
      by (simp add: run_step_def)
    show ?thesis
      using i(3) assms(2) False t unfolding ids_ok_def s by simp
  qed
  ultimately show ?thesis
    by (simp add: timer_inv_def)
qed

lemma ran_inv:
  assumes "timer_inv s" "pc s = L_ran x"
  shows "timer_inv (s\<lparr>tt := (tt s)\<lparr>active_ids := active_ids (tt s) - {task_id x}\<rparr>, pc := L_due\<rparr>)"
    (is "timer_inv ?s")
proof -
  have i: "shape_ok s" "parts_ok s" "ids_ok s" "time_ok s" "near_ok s"
    using assms(1) by (simp_all add: timer_inv_def)
  have t: "taken ?s = taken s" "announced ?s = announced s" "waiting ?s = waiting s"
    using assms(2) by (simp_all add: taken_def waiting_def announced_def fun_eq_iff)
  have "shape_ok ?s" "parts_ok ?s" "time_ok ?s" "near_ok ?s"
    using i assms(2) t by (simp_all add: shape_ok_def parts_ok_def time_ok_def near_ok_def)
  moreover have "ids (waiting s) \<inter> ids (mset (ran s)) = {}"
    using distinct_ids(1) [of "accepted s" "waiting s + mset (queued (tt s)) + mset (dropped s)" "mset (ran s)"] i(2)
    by (auto simp: parts_ok_def taken_def union_ac)
  then have "ids_ok ?s"
    using i(3) assms(2) t unfolding ids_ok_def by simp blast
  ultimately show ?thesis
    by (simp add: timer_inv_def)
qed

lemma end_inv:
  assumes "timer_inv s" "pc s = L_end"
  shows "timer_inv (end_step s)"
proof -
  let ?h = "heap_tasks (tt s)"
  let ?a = "if ?h = [] then size_max else abs_time (?h ! 0)"
  let ?t = "lower_nearest ?a (tt s)"
  let ?s = "s\<lparr>tt := ?t\<rparr>"
  have h: "is_heap abs_time (length ?h) ?h" and n: "near_ok s"
    using assms(1) by (simp_all add: timer_inv_def shape_ok_def)
  have near: "nearest_run_time ?t \<le> nearest_run_time (tt s)"
    by simp
  have "near_ok ?s"
    by (rule near_frame [OF n]) (use near in \<open>auto simp: announced_def min_le_iff_disj\<close>)
  moreover have "ids_ok ?s"
    by (rule ids_frame [of s]) (use assms in \<open>simp_all add: timer_inv_def\<close>)
  ultimately have "timer_inv ?s"
    using assms by (simp add: timer_inv_def shape_ok_def parts_ok_def time_ok_def waiting_def taken_def)
  moreover have "\<forall>x \<in> set ?h. nearest_run_time ?t \<le> abs_time x"
    using std_heap.top_law [OF h] by (fastforce simp: min_le_iff_disj)
  ultimately have "timer_inv (?s\<lparr>pc := p\<rparr>)" if "p = L_idle \<or> p = L_wait (nearest_run_time ?t)" for p
    using that pc_inv [of ?s p] assms(2) by (auto simp del: lower_nearest_simps(10))
  then show ?thesis
    by (simp add: end_step_def Let_def del: lower_nearest_simps(10))
qed

lemma run_all_spec:
  assumes "run_all xs I = (ys, zs, J)" "distinct (map task_id xs)"
  shows "mset xs = mset ys + mset zs \<and> ids (mset ys) \<subseteq> I \<and> ids (mset zs) \<inter> I = {}"
  using assms
proof (induction xs arbitrary: I ys zs)
  case (Cons x xs)
  show ?case
  proof (cases "task_id x \<in> I")
    case True
    then obtain ys' where y: "run_all xs (I - {task_id x}) = (ys', zs, J)" "ys = x # ys'"
      using Cons(2) by (auto split: prod.splits)
    from Cons(1) [OF y(1)] Cons(3) have r: "mset xs = mset ys' + mset zs" "ids (mset ys') \<subseteq> I - {task_id x}" "ids (mset zs) \<inter> (I - {task_id x}) = {}"
      by simp_all
    have "ids (mset zs) \<subseteq> task_id ` set xs"
      using arg_cong [OF r(1), of ids] by (auto simp: ids_def)
    then show ?thesis
      using r y(2) True Cons(3) by auto
  next
    case False
    then obtain zs' where "run_all xs I = (ys, zs', J)" "zs = x # zs'"
      using Cons(2) by (auto split: prod.splits)
    then show ?thesis
      using Cons(1) [of I ys zs'] Cons(3) False by simp
  qed
qed simp

lemma stop_inv:
  assumes "timer_inv s" "timer_step Stop s = Some s'"
  shows "timer_inv s'"
proof -
  have s': "s' = s\<lparr>tt := (tt s)\<lparr>exit_flag := True\<rparr>\<rparr>"
    using assms(2) by (simp split: if_splits)
  have "queue_of (tt s') = queue_of (tt s)" "queued (tt s') = queued (tt s)"
    by (simp_all add: s' queue_of_def queued_def fun_eq_iff)
  then show ?thesis
    using assms(1) s' near_frame [of s s'] ids_frame [of s s']
    by (simp add: timer_inv_def shape_ok_def parts_ok_def time_ok_def taken_def waiting_def announced_def containers_ok_def)
qed

lemma destroy_inv:
  assumes "timer_inv s" "timer_step Destroy s = Some s'"
  shows "timer_inv s'"
proof -
  have i: "shape_ok s" "parts_ok s" "ids_ok s"
    using assms(1) by (simp_all add: timer_inv_def)
  have p: "exit_flag (tt s)" "pc s = L_idle"
    using assms(2) by (simp_all split: if_splits)
  let ?T = "fold destroy_container (containers (tt s)) (tt s)"
  obtain ys zs J where r: "run_all (heap_tasks ?T) (active_ids ?T) = (ys, zs, J)"
    using prod_cases3 by blast
  then have "destroy_tt (tt s) = (?T\<lparr>containers := [], active_ids := J\<rparr>, ys, zs)"
    by (simp add: destroy_tt_def)
  then have s': "s' = s\<lparr>tt := ?T\<lparr>containers := [], active_ids := J\<rparr>, pc := L_stopped, ran := ran s @ ys, dropped := dropped s @ zs\<rparr>"
    using assms(2) p by simp
  have T: "mset (heap_tasks ?T) = mset (heap_tasks (tt s)) + mset (queued (tt s))"
    "active_ids ?T \<subseteq> active_ids (tt s) \<union> ids (mset (queued (tt s)))"
    "active_ids (tt s) \<union> ids (mset (queued (tt s))) \<subseteq> active_ids ?T \<union> requested s" "timer_id ?T = timer_id (tt s)" "exit_flag ?T"
    "is_heap abs_time (length (heap_tasks ?T)) (heap_tasks ?T)"
    using destroy_containers_spec [of "containers (tt s)" "issued s" "requested s" "tt s"] i(1) p
    by (simp_all add: shape_ok_def containers_ok_def queued_def)
  have w: "waiting s = mset (heap_tasks (tt s))" "taken s = mset (heap_tasks (tt s)) + mset (ran s) + mset (dropped s)"
    using p by (simp_all add: waiting_def taken_def)
  have acc: "mset (accepted s) = mset (heap_tasks ?T) + (mset (ran s) + mset (dropped s))"
    using i(2) T(1) w by (simp add: parts_ok_def union_ac)
  have d: "distinct (map task_id (accepted s))"
    using i(2) by (simp add: parts_ok_def)
  note y = run_all_spec [OF r distinct_ids(2) [OF acc d refl]]
  have q: "ids (mset (queued (tt s))) \<inter> ids (taken s) = {}"
    using distinct_ids(1) [of "accepted s" "mset (queued (tt s))" "taken s"] i(2) by (simp add: parts_ok_def)
  have "shape_ok s'" "time_ok s'" "near_ok s'"
    using i(1) T(4-6) by (simp_all add: s' shape_ok_def time_ok_def near_ok_def containers_ok_def)
  moreover have t: "taken s' = mset (heap_tasks ?T) + mset (ran s) + mset (dropped s)"
    using y by (simp add: s' taken_def waiting_def union_ac)
  then have "parts_ok s'"
    using i(2) acc by (simp add: parts_ok_def s' queued_def union_ac)
  moreover have "ids_ok s'"
  proof -
    have a: "cancelled s \<subseteq> ids (taken s)" "active_ids (tt s) \<inter> cancelled s = {}" "ids (waiting s) \<subseteq> active_ids (tt s) \<union> requested s"
      using i(3) p(2) by (simp_all add: ids_ok_def)
    have h: "ids (mset (heap_tasks ?T)) = ids (waiting s) \<union> ids (mset (queued (tt s)))"
      using T(1) w by simp
    have z: "ids (mset (heap_tasks ?T)) = ids (mset ys) \<union> ids (mset zs)"
      using y ids_simps(2) [of "mset ys" "mset zs"] by simp
    have "cancelled s \<subseteq> ids (taken s')"
      using a(1) h w t by auto
    moreover have "ids (mset zs) \<subseteq> requested s"
      using a(3) h z T(3) y by blast
    moreover have "cancelled s \<inter> ids (mset ys) = {}"
      using a(1,2) q T(2) y by blast
    ultimately show ?thesis
      using i(3) unfolding ids_ok_def by (auto simp: s')
  qed
  ultimately show ?thesis
    by (simp add: timer_inv_def)
qed

lemma loop_inv:
  assumes "timer_inv s" "loop_step s = Some s'" "issued s + 4096 < 2 ^ 64"
  shows "timer_inv s'"
proof (cases "pc s")
  case L_count
  then have "s' = s\<lparr>pc := L_tasks 0 (length (containers (tt s)))\<rparr>"
    using assms(2) by (simp add: loop_step_def)
  then show ?thesis
    using pc_inv [OF assms(1), of "L_tasks 0 (length (containers (tt s)))"] L_count by (simp add: queue_of_def)
next
  case (L_tasks i n)
  show ?thesis
  proof (cases "n \<le> i")
    case True
    then have "s' = s\<lparr>pc := L_due\<rparr>"
      using assms(2) L_tasks by (simp add: loop_step_def)
    then show ?thesis
      using pc_inv [OF assms(1), of L_due] L_tasks True by fastforce
  next
    case False
    have "shape_ok s"
      using assms(1) by (simp add: timer_inv_def)
    then have "status (containers (tt s) ! i) = USING"
      using L_tasks False containers_okD [of "issued s" "requested s" "tt s" i] by (simp add: shape_ok_def container_ok_def)
    then show ?thesis
      using assms L_tasks False tasks_inv [OF assms(1) L_tasks] by (simp add: loop_step_def)
  qed
next
  case (L_abandon i n)
  have "i < length (containers (tt s))"
    using assms(1) L_abandon by (simp add: timer_inv_def shape_ok_def)
  note c = collect_inv [OF assms(1) this]
  have "s' = (collect_step i s)\<lparr>pc := L_tasks (Suc i) n\<rparr>"
    using assms(2) L_abandon by (simp add: loop_step_def)
  then show ?thesis
    using pc_inv [OF c(1), of "L_tasks (Suc i) n"] c(2,3) L_abandon assms(1) by (simp add: timer_inv_def shape_ok_def)
next
  case (L_popped x)
  then have "s' = s\<lparr>pc := L_again x 0 (length (containers (tt s)))\<rparr>"
    using assms(2) by (simp add: loop_step_def)
  then show ?thesis
    using pc_inv [OF assms(1), of "L_again x 0 (length (containers (tt s)))"] L_popped by simp
next
  case (L_again x i n)
  show ?thesis
  proof (cases "n \<le> i")
    case True
    then show ?thesis
      using assms(2) run_inv [OF assms(1) L_again] L_again by (simp add: loop_step_def)
  next
    case False
    have "shape_ok s"
      using assms(1) by (simp add: timer_inv_def)
    then have i: "i < length (containers (tt s))" "status (containers (tt s) ! i) = USING"
      using L_again False containers_okD [of "issued s" "requested s" "tt s" i] by (simp_all add: shape_ok_def container_ok_def)
    note c = collect_inv [OF assms(1) i(1)]
    have "s' = (collect_step i s)\<lparr>pc := L_again x (Suc i) n\<rparr>"
      using assms(2) L_again False i(2) by (simp add: loop_step_def)
    then show ?thesis
      using pc_inv [OF c(1), of "L_again x (Suc i) n"] c(2,3) L_again assms(1) by (simp add: timer_inv_def shape_ok_def)
  qed
next
  case (L_wait v)
  then have "s' = s\<lparr>pc := L_idle\<rparr>"
    using assms(2) by (simp add: loop_step_def)
  then show ?thesis
    using pc_inv [OF assms(1), of L_idle] L_wait assms(1) by (simp add: timer_inv_def near_ok_def)
qed (use assms idle_inv due_inv ran_inv end_inv in \<open>auto simp: loop_step_def Let_def split: if_splits\<close>)

section \<open>Runs keep the invariants\<close>

lemma loop_step_issued: "loop_step s = Some s' \<Longrightarrow> issued s' = issued s"
  by (cases "pc s")
    (auto simp: loop_step_def Let_def collect_step_def due_step_def run_step_def end_step_def split: if_splits)

lemma timer_step_issued: "timer_step a s = Some s' \<Longrightarrow> issued s \<le> issued s'"
  by (cases a) (auto simp: Let_def loop_step_issued split: if_splits prod.splits option.splits)

lemma timer_exec_issued: "timer_exec as s = Some s' \<Longrightarrow> issued s \<le> issued s'"
proof (induction as arbitrary: s)
  case (Cons a as)
  then obtain s1 where "timer_step a s = Some s1" "timer_exec as s1 = Some s'"
    by (auto split: option.splits)
  then show ?case
    using timer_step_issued Cons(1) order_trans by blast
qed simp

lemma timer_step_inv:
  assumes "timer_inv s" "timer_step a s = Some s'" "issued s' + 4096 < 2 ^ 64"
  shows "timer_inv s'"
proof (cases a)
  case (Schedule tid at fn)
  show ?thesis
    by (rule schedule_inv [OF assms(1) assms(2) [unfolded Schedule] assms(3)])
next
  case (Lower tid)
  show ?thesis
    by (rule lower_inv [OF assms(1) assms(2) [unfolded Lower]])
next
  case (Unschedule tid ident)
  show ?thesis
    by (rule unschedule_inv [OF assms(1) assms(2) [unfolded Unschedule]])
next
  case (Tick now)
  show ?thesis
    by (rule tick_inv [OF assms(1) assms(2) [unfolded Tick]])
next
  case Loop
  then show ?thesis
    using loop_inv [OF assms(1), of s'] loop_step_issued [of s s'] assms(2,3) by simp
next
  case Stop
  show ?thesis
    by (rule stop_inv [OF assms(1) assms(2) [unfolded Stop]])
next
  case Destroy
  show ?thesis
    by (rule destroy_inv [OF assms(1) assms(2) [unfolded Destroy]])
qed

lemma timer_exec_inv:
  assumes "timer_inv s" "timer_exec as s = Some s'" "issued s' + 4096 < 2 ^ 64"
  shows "timer_inv s'"
  using assms
proof (induction as arbitrary: s)
  case (Cons a as)
  then obtain s1 where s1: "timer_step a s = Some s1" "timer_exec as s1 = Some s'"
    by (auto split: option.splits)
  then have "issued s1 + 4096 < 2 ^ 64"
    using timer_exec_issued [OF s1(2)] Cons(4) by linarith
  then show ?case
    using Cons(1) [OF _ s1(2) Cons(4)] timer_step_inv [OF Cons(2) s1(1)] by simp
qed simp

lemmas timer_run_inv = timer_exec_inv [OF timer_start_inv]

section \<open>A pass of the loop without clients\<close>

text \<open>\<open>quiet s s'\<close>: some steps of the loop lead from \<open>s\<close> to \<open>s'\<close>, and leave what only clients and the end of a pass change.\<close>

definition quiet :: "'f timer_run \<Rightarrow> 'f timer_run \<Rightarrow> bool" where
  "quiet s s' \<longleftrightarrow> (\<exists>k. timer_exec (replicate k Loop) s = Some s') \<and> timer_inv s' \<and> clock s' = clock s \<and> accepted s' = accepted s \<and>
     requested s' = requested s \<and> issued s' = issued s \<and> nearest_run_time (tt s') = nearest_run_time (tt s) \<and>
     length (containers (tt s')) = length (containers (tt s))"

lemma timer_exec_append: "timer_exec (as @ bs) s = (case timer_exec as s of None \<Rightarrow> None | Some s' \<Rightarrow> timer_exec bs s')"
  by (induction as arbitrary: s) (simp_all split: option.splits)

lemma quiet_refl: "timer_inv s \<Longrightarrow> quiet s s"
  unfolding quiet_def by (auto intro: exI [of _ 0])

lemma quiet_trans:
  assumes "quiet s s1" "quiet s1 s2"
  shows "quiet s s2"
proof -
  obtain j k where "timer_exec (replicate j Loop) s = Some s1" "timer_exec (replicate k Loop) s1 = Some s2"
    using assms by (auto simp: quiet_def)
  then have "timer_exec (replicate (j + k) Loop) s = Some s2"
    by (simp add: replicate_add timer_exec_append)
  then show ?thesis
    using assms by (auto simp: quiet_def)
qed

lemma quiet_step:
  assumes "timer_inv s" "issued s + 4096 < 2 ^ 64" "loop_step s = Some s1" "clock s1 = clock s" "accepted s1 = accepted s"
    "requested s1 = requested s" "nearest_run_time (tt s1) = nearest_run_time (tt s)" "length (containers (tt s1)) = length (containers (tt s))"
  shows "quiet s s1"
proof -
  have "timer_exec (replicate 1 Loop) s = Some s1"
    using assms(3) by simp
  then show ?thesis
    using assms loop_inv [OF assms(1,3,2)] loop_step_issued [OF assms(3)] unfolding quiet_def by blast
qed

lemma in_use:
  assumes "timer_inv s" "i < length (containers (tt s))"
  shows "containers_ok (issued s) (requested s) (tt s)" "status (containers (tt s) ! i) \<noteq> AVAILABLE"
    "is_heap abs_time (length (heap_tasks (tt s))) (heap_tasks (tt s))"
proof -
  show c: "containers_ok (issued s) (requested s) (tt s)" and "is_heap abs_time (length (heap_tasks (tt s))) (heap_tasks (tt s))"
    using assms(1) by (simp_all add: timer_inv_def shape_ok_def)
  show "status (containers (tt s) ! i) \<noteq> AVAILABLE"
    using containers_okD [OF c assms(2)] by (simp add: container_ok_def)
qed

lemma collect_step_simps [simp]:
  "pc (collect_step i s) = pc s" "clock (collect_step i s) = clock s" "accepted (collect_step i s) = accepted s"
  "requested (collect_step i s) = requested s" "issued (collect_step i s) = issued s" "tt (collect_step i s) = collectUnschedule i (tt s)"
  by (simp_all add: collect_step_def Let_def)

lemma collect_containers:
  "containers (collect_tasks i t) =
     (let c = containers t ! i in (containers t)[i := c\<lparr>tasks := snd (pop_n (unat (size_q (tasks c))) (tasks c))\<rparr>])"
  "containers (collectUnschedule i t) =
     (let c = containers t ! i in (containers t)[i := c\<lparr>abandon_tasks := snd (pop_n (unat (size_q (abandon_tasks c))) (abandon_tasks c))\<rparr>])"
  by (simp_all add: collect_tasks_def collectUnschedule_def Let_def split: prod.splits)

text \<open>The requests that wait in the container \<open>k\<close>, and those that a visit leaves there.\<close>

definition requests_of :: "'f time_thread \<Rightarrow> nat \<Rightarrow> u64 list" where
  "requests_of t k = map abandon_id (ring_list (abandon_tasks (containers t ! k)))"

definition requests_seen :: "'f time_thread \<Rightarrow> nat \<Rightarrow> nat" where
  "requests_seen t k = unat (size_q (abandon_tasks (containers t ! k)))"

lemma visit_one:
  assumes "timer_inv s" "issued s + 4096 < 2 ^ 64" "pc s = L_tasks i (length (containers (tt s)))" "i < length (containers (tt s))"
  obtains s' where "quiet s s'" "pc s' = L_tasks (Suc i) (length (containers (tt s')))" "queue_of (tt s') = (queue_of (tt s))(i := [])"
    "\<And>k. k \<noteq> i \<Longrightarrow> containers (tt s') ! k = containers (tt s) ! k" "requests_of (tt s') i = drop (requests_seen (tt s) i) (requests_of (tt s) i)"
proof -
  let ?n = "length (containers (tt s))" and ?c = "containers (tt s) ! i"
  note u = in_use [OF assms(1,4)]
  let ?s1 = "s\<lparr>tt := collect_tasks i (tt s), pc := L_abandon i ?n\<rparr>"
  from collect_tasks_spec [OF u(1) assms(4) u(3)] assms(2)
  have c: "queue_of (tt ?s1) = (queue_of (tt s))(i := [])" "nearest_run_time (tt ?s1) = nearest_run_time (tt s)"
    "length (containers (tt ?s1)) = ?n" "containers_ok (issued s) (requested s) (tt ?s1)"
    by (simp_all, metis+)
  have "loop_step s = Some ?s1"
    using assms(3,4) u(2) by (simp add: loop_step_def Let_def)
  then have 1: "quiet s ?s1"
    by (intro quiet_step) (use assms c in simp_all)
  let ?s2 = "(collect_step i ?s1)\<lparr>pc := L_tasks (Suc i) ?n\<rparr>"
  have i1: "i < length (containers (tt ?s1))"
    using c(3) assms(4) by simp
  note d = collectUnschedule_spec [OF c(4) i1]
  have "loop_step ?s1 = Some ?s2"
    by (simp add: loop_step_def Let_def)
  then have 2: "quiet ?s1 ?s2"
    by (intro quiet_step) (use 1 assms d in \<open>simp_all add: quiet_def\<close>)
  obtain xs q where q: "pop_n (requests_seen (tt s) i) (abandon_tasks ?c) = (xs, q)"
    by fastforce
  obtain m where "queue_ok m (abandon_tasks ?c)"
    using containers_okD [OF u(1) assms(4)] by (auto simp: container_ok_def)
  from queue_pop [OF this q] have "ring_list q = drop (requests_seen (tt s) i) (ring_list (abandon_tasks ?c))"
    by simp
  then have "requests_of (tt ?s2) i = drop (requests_seen (tt s) i) (requests_of (tt s) i)"
    using q assms(4) by (simp add: requests_of_def requests_seen_def collect_containers Let_def drop_map)
  moreover have "containers (tt ?s2) ! k = containers (tt s) ! k" if "k \<noteq> i" for k
    using that by (simp add: collect_containers Let_def)
  ultimately show ?thesis
    using that [of ?s2] quiet_trans [OF 1 2] c(1,3) d by simp
qed

lemma tasks_phase:
  assumes "timer_inv s" "issued s + 4096 < 2 ^ 64" "pc s = L_tasks i (length (containers (tt s)))" "\<forall>j < i. queue_of (tt s) j = []"
  shows "\<exists>s'. quiet s s' \<and> pc s' = L_due \<and> (\<forall>j. queue_of (tt s') j = [])"
  using assms
proof (induction "length (containers (tt s)) - i" arbitrary: i s)
  case 0
  let ?s = "s\<lparr>pc := L_due\<rparr>"
  have "quiet s ?s"
    by (rule quiet_step) (use 0 in \<open>simp_all add: loop_step_def Let_def\<close>)
  moreover have "queue_of (tt s) j = []" for j
    using 0(1,5) by (cases "j < i") (auto simp: queue_of_def)
  ultimately show ?case
    by (intro exI [of _ ?s]) simp
next
  case (Suc k)
  then have "i < length (containers (tt s))"
    by simp
  then obtain s2 where 2: "quiet s s2" "pc s2 = L_tasks (Suc i) (length (containers (tt s2)))" "queue_of (tt s2) = (queue_of (tt s))(i := [])"
    using visit_one [OF Suc(3-5)] by blast
  have inv: "k = length (containers (tt s2)) - Suc i" "timer_inv s2" "issued s2 + 4096 < 2 ^ 64" "\<forall>j < Suc i. queue_of (tt s2) j = []"
    using 2(1,3) Suc(2,4,6) by (auto simp: quiet_def less_Suc_eq)
  obtain s' where "quiet s2 s'" "pc s' = L_due" "\<forall>j. queue_of (tt s') j = []"
    using Suc(1) [OF inv(1-3) 2(2) inv(4)] by blast
  then show ?case
    using quiet_trans [OF 2(1)] by blast
qed

text \<open>The first \<open>i\<close> containers are visited: their tasks are taken and their requests served.\<close>

lemma visit_phase:
  assumes "timer_inv s" "issued s + 4096 < 2 ^ 64" "pc s = L_tasks 0 (length (containers (tt s)))" "i \<le> length (containers (tt s))"
    "\<forall>k < i. requests_seen (tt s) k = length (requests_of (tt s) k)"
  shows "\<exists>s'. quiet s s' \<and> pc s' = L_tasks i (length (containers (tt s'))) \<and> (\<forall>k < i. queue_of (tt s') k = [] \<and> requests_of (tt s') k = []) \<and>
    (\<forall>k \<ge> i. queue_of (tt s') k = queue_of (tt s) k \<and> containers (tt s') ! k = containers (tt s) ! k)"
  using assms(4,5)
proof (induction i)
  case 0
  show ?case
    using assms(3) quiet_refl [OF assms(1)] by (intro exI [of _ s]) simp
next
  case (Suc i)
  then obtain s1 where 1: "quiet s s1" "pc s1 = L_tasks i (length (containers (tt s1)))" "\<forall>k < i. queue_of (tt s1) k = [] \<and> requests_of (tt s1) k = []"
    "\<forall>k \<ge> i. queue_of (tt s1) k = queue_of (tt s) k \<and> containers (tt s1) ! k = containers (tt s) ! k"
    by auto
  have a: "timer_inv s1" "issued s1 + 4096 < 2 ^ 64" "i < length (containers (tt s1))"
    using 1(1) assms(2) Suc.prems(1) by (simp_all add: quiet_def)
  obtain s2 where 2: "quiet s1 s2" "pc s2 = L_tasks (Suc i) (length (containers (tt s2)))" "queue_of (tt s2) = (queue_of (tt s1))(i := [])"
    "\<And>k. k \<noteq> i \<Longrightarrow> containers (tt s2) ! k = containers (tt s1) ! k" "requests_of (tt s2) i = drop (requests_seen (tt s1) i) (requests_of (tt s1) i)"
    by (rule visit_one [OF a(1,2) 1(2) a(3)]) blast
  have "requests_of (tt s2) i = []"
    using 2(5) 1(4) Suc.prems(2) by (simp add: requests_of_def requests_seen_def)
  moreover have "requests_of (tt s2) k = requests_of (tt s1) k" if "k \<noteq> i" for k
    using 2(4) [OF that] by (simp add: requests_of_def)
  ultimately have "queue_of (tt s2) k = [] \<and> requests_of (tt s2) k = []" if "k < Suc i" for k
    using that 1(3) 2(3) by (cases "k = i") simp_all
  moreover have "queue_of (tt s2) k = queue_of (tt s) k \<and> containers (tt s2) ! k = containers (tt s) ! k" if "Suc i \<le> k" for k
    using that 1(4) 2(3,4) by simp
  ultimately show ?case
    using quiet_trans [OF 1(1) 2(1)] 2(2) by blast
qed

lemma again_phase:
  assumes "timer_inv s" "issued s + 4096 < 2 ^ 64" "pc s = L_again x i n" "\<forall>j. queue_of (tt s) j = []"
  shows "\<exists>s'. quiet s s' \<and> pc s' = L_due \<and> (\<forall>j. queue_of (tt s') j = []) \<and> heap_tasks (tt s') = heap_tasks (tt s)"
  using assms
proof (induction "n - i" arbitrary: i s)
  case 0
  let ?s = "run_step x s"
  have 1: "quiet s ?s"
    by (rule quiet_step) (use 0 in \<open>simp_all add: loop_step_def Let_def run_step_def\<close>)
  show ?case
  proof (cases "task_id x \<in> active_ids (tt s)")
    case True
    let ?s2 = "?s\<lparr>tt := (tt s)\<lparr>active_ids := active_ids (tt s) - {task_id x}\<rparr>, pc := L_due\<rparr>"
    have "loop_step ?s = Some ?s2"
      using True by (simp add: loop_step_def Let_def run_step_def)
    then have "quiet ?s ?s2"
      by (intro quiet_step) (use 1 0 True in \<open>simp_all add: quiet_def run_step_def\<close>)
    then show ?thesis
      using quiet_trans [OF 1] 0(5) by (intro exI [of _ ?s2]) simp
  next
    case False
    then show ?thesis
      using 1 0(5) by (intro exI [of _ ?s]) (simp add: run_step_def)
  qed
next
  case (Suc k)
  have "n \<le> length (containers (tt s))"
    using Suc(3,5) by (simp add: timer_inv_def shape_ok_def)
  then have i: "i < length (containers (tt s))" "\<not> n \<le> i"
    using Suc(2) by simp_all
  note u = in_use [OF Suc(3) i(1)]
  let ?s1 = "(collect_step i s)\<lparr>pc := L_again x (Suc i) n\<rparr>"
  note d = collectUnschedule_spec [OF u(1) i(1)]
  have "loop_step s = Some ?s1"
    using Suc(5) i u(2) by (simp add: loop_step_def Let_def)
  then have 1: "quiet s ?s1"
    by (intro quiet_step) (use Suc d in simp_all)
  have inv: "timer_inv ?s1" "issued ?s1 + 4096 < 2 ^ 64" "pc ?s1 = L_again x (Suc i) n" "k = n - Suc i" "\<forall>j. queue_of (tt ?s1) j = []"
    using 1 Suc(2,4,6) d by (auto simp: quiet_def)
  obtain s' where "quiet ?s1 s'" "pc s' = L_due" "\<forall>j. queue_of (tt s') j = []" "heap_tasks (tt s') = heap_tasks (tt ?s1)"
    using Suc(1) [OF inv(4,1,2,3,5)] by blast
  then show ?case
    using quiet_trans [OF 1] d by auto
qed

lemma size_max_top: "v \<le> size_max"
  by (simp add: size_max_def)

lemma due_phase:
  assumes "timer_inv s" "issued s + 4096 < 2 ^ 64" "pc s = L_due" "\<forall>j. queue_of (tt s) j = []" "nearest_run_time (tt s) = size_max"
  shows "\<exists>s'. quiet s s' \<and> pc s' = L_end \<and> (\<forall>j. queue_of (tt s') j = []) \<and> (\<forall>x \<in> set (heap_tasks (tt s')). clock s < abs_time x)"
  using assms
proof (induction "length (heap_tasks (tt s))" arbitrary: s rule: less_induct)
  case less
  let ?h = "heap_tasks (tt s)"
  have h: "is_heap abs_time (length ?h) ?h"
    using less(2) by (simp add: timer_inv_def shape_ok_def)
  show ?case
  proof (cases "?h = [] \<or> clock s < abs_time (?h ! 0)")
    case True
    let ?s = "s\<lparr>pc := L_end\<rparr>"
    have "quiet s ?s"
      by (rule quiet_step) (use less True in \<open>simp_all add: loop_step_def Let_def due_step_def\<close>)
    moreover have "\<forall>x \<in> set ?h. clock s < abs_time x"
      using True std_heap.top_law [OF h] by (auto intro: less_le_trans)
    ultimately show ?thesis
      using less(5) by (intro exI [of _ ?s]) simp
  next
    case False
    let ?p = "pop_heap abs_time ?h"
    let ?s1 = "s\<lparr>tt := (tt s)\<lparr>heap_tasks := butlast ?p\<rparr>, pc := L_popped (last ?p)\<rparr>"
    have "loop_step s = Some ?s1"
      using False less(4,6) leD [OF size_max_top [of "abs_time (?h ! 0)"]] by (simp add: loop_step_def Let_def due_step_def)
    then have 1: "quiet s ?s1"
      by (intro quiet_step) (use less in simp_all)
    let ?s2 = "?s1\<lparr>pc := L_again (last ?p) 0 (length (containers (tt s)))\<rparr>"
    have "loop_step ?s1 = Some ?s2"
      by (simp add: loop_step_def Let_def)
    then have 2: "quiet ?s1 ?s2"
      by (intro quiet_step) (use 1 less in \<open>simp_all add: quiet_def\<close>)
    have "timer_inv ?s2" "issued ?s2 + 4096 < 2 ^ 64" "pc ?s2 = L_again (last ?p) 0 (length (containers (tt s)))"
      "\<forall>j. queue_of (tt ?s2) j = []"
      using 2 less(3,5) by (simp_all add: quiet_def)
    from again_phase [OF this] obtain s3 where
      3: "quiet ?s2 s3" "pc s3 = L_due" "\<forall>j. queue_of (tt s3) j = []" "heap_tasks (tt s3) = butlast ?p"
      by auto
    have q: "quiet s s3"
      using quiet_trans [OF 1 quiet_trans [OF 2 3(1)]] .
    have "mset ?p = mset ?h" "?h \<noteq> []"
      using std_heap.pop_law [OF h] False by simp_all
    then have "length (heap_tasks (tt s3)) < length ?h"
      using mset_eq_length [of ?p ?h] 3(4) by simp
    moreover have "timer_inv s3" "issued s3 + 4096 < 2 ^ 64" "nearest_run_time (tt s3) = size_max" "clock s3 = clock s"
      using q less(3,6) by (simp_all add: quiet_def)
    ultimately obtain s4 where "quiet s3 s4" "pc s4 = L_end" "\<forall>j. queue_of (tt s4) j = []" "\<forall>x \<in> set (heap_tasks (tt s4)). clock s < abs_time x"
      using less(1) [of s3] 3(2,3) by auto
    then show ?thesis
      using quiet_trans [OF q] by blast
  qed
qed

text \<open>From its visits of the containers on the loop comes to rest, and then no task it knows of is due.\<close>

lemma visits_come_to_rest:
  assumes "timer_inv s" "issued s + 4096 < 2 ^ 64" "pc s = L_tasks i (length (containers (tt s)))" "\<forall>j < i. queue_of (tt s) j = []"
    "nearest_run_time (tt s) = size_max"
  shows "\<exists>k s'. timer_exec (replicate k Loop) s = Some s' \<and> timer_inv s' \<and> resting (pc s') \<and> clock s' = clock s \<and> accepted s' = accepted s \<and>
    requested s' = requested s \<and> queued (tt s') = [] \<and> (\<forall>x \<in> set (heap_tasks (tt s')). clock s < abs_time x)"
proof -
  obtain s3 where 3: "quiet s s3" "pc s3 = L_due" "\<forall>j. queue_of (tt s3) j = []"
    using tasks_phase [OF assms(1-4)] by blast
  then have "\<exists>s4. quiet s3 s4 \<and> pc s4 = L_end \<and> (\<forall>j. queue_of (tt s4) j = []) \<and> (\<forall>x \<in> set (heap_tasks (tt s4)). clock s3 < abs_time x)"
    by (intro due_phase) (use 3 assms(2,5) in \<open>simp_all add: quiet_def\<close>)
  then obtain s4 where 4: "quiet s3 s4" "pc s4 = L_end" "\<forall>j. queue_of (tt s4) j = []" "\<forall>x \<in> set (heap_tasks (tt s4)). clock s3 < abs_time x"
    by blast
  have q: "quiet s s4"
    using quiet_trans [OF 3(1) 4(1)] .
  then obtain k where k: "timer_exec (replicate k Loop) s = Some s4"
    by (auto simp: quiet_def)
  let ?s5 = "end_step s4"
  have l5: "loop_step s4 = Some ?s5"
    using 4(2) by (simp add: loop_step_def Let_def)
  have "timer_exec (replicate k Loop @ [Loop]) s = Some ?s5"
    using l5 k by (simp add: timer_exec_append)
  then have "timer_exec (replicate (Suc k) Loop) s = Some ?s5"
    by (simp add: replicate_append_same)
  moreover have "timer_inv ?s5"
    using loop_inv [OF _ l5] q assms(2) by (simp add: quiet_def)
  moreover have "queued (tt ?s5) = []"
    using 4(3) by (auto simp: queued_def queue_of_def end_step_def Let_def in_set_conv_nth split: if_splits)
  moreover have "resting (pc ?s5)" "clock ?s5 = clock s" "accepted ?s5 = accepted s" "requested ?s5 = requested s"
    "\<forall>x \<in> set (heap_tasks (tt ?s5)). clock s < abs_time x"
    using q 3(1) 4(4) by (simp_all add: end_step_def Let_def quiet_def)
  ultimately show ?thesis
    by blast
qed

text \<open>The start of a pass.\<close>

lemma pass_starts:
  assumes "timer_inv s" "issued s + 4096 < 2 ^ 64" "pc s = L_idle" "\<not> exit_flag (tt s)"
    and s2: "s2 = s\<lparr>tt := (tt s)\<lparr>nearest_run_time := size_max\<rparr>, pc := L_tasks 0 (length (containers (tt s)))\<rparr>"
  shows "timer_inv s2" "timer_exec (Loop # Loop # as) s = timer_exec as s2"
proof -
  let ?s1 = "s\<lparr>tt := (tt s)\<lparr>nearest_run_time := size_max\<rparr>, pc := L_count\<rparr>"
  have l1: "loop_step s = Some ?s1" and l2: "loop_step ?s1 = Some s2"
    using assms(3,4) s2 by (simp_all add: loop_step_def Let_def)
  have "timer_inv ?s1"
    using loop_inv [OF assms(1) l1 assms(2)] .
  then show "timer_inv s2"
    using loop_inv [OF _ l2] assms(2) by simp
  show "timer_exec (Loop # Loop # as) s = timer_exec as s2"
    using l1 l2 by simp
qed

lemma pass_comes_to_rest:
  assumes "timer_inv s" "issued s + 4096 < 2 ^ 64" "pc s = L_idle" "\<not> exit_flag (tt s)"
  shows "\<exists>k s'. timer_exec (replicate k Loop) s = Some s' \<and> timer_inv s' \<and> resting (pc s') \<and> clock s' = clock s \<and> accepted s' = accepted s \<and>
    requested s' = requested s \<and> queued (tt s') = [] \<and> (\<forall>x \<in> set (heap_tasks (tt s')). clock s < abs_time x)"
proof -
  let ?s2 = "s\<lparr>tt := (tt s)\<lparr>nearest_run_time := size_max\<rparr>, pc := L_tasks 0 (length (containers (tt s)))\<rparr>"
  note start = pass_starts [OF assms refl]
  obtain k s' where k: "timer_exec (replicate k Loop) ?s2 = Some s'" "timer_inv s'" "resting (pc s')" "clock s' = clock s" "accepted s' = accepted s"
    "requested s' = requested s" "queued (tt s') = []" "\<forall>x \<in> set (heap_tasks (tt s')). clock s < abs_time x"
    using visits_come_to_rest [OF start(1), of 0] assms(2) by auto
  then have "timer_exec (replicate (Suc (Suc k)) Loop) s = Some s'"
    using start(2) [of "replicate k Loop"] by simp
  with k show ?thesis
    by blast
qed

section \<open>A request that came too early\<close>

text \<open>The loop does not look at the set of the accepted requests, which records what the clients did.\<close>

lemma loop_step_requested: "loop_step (s\<lparr>requested := R\<rparr>) = map_option (\<lambda>s'. s'\<lparr>requested := R\<rparr>) (loop_step s)"
  by (cases "pc s") (simp_all add: loop_step_def Let_def collect_step_def due_step_def run_step_def end_step_def)

lemma loops_requested:
  "timer_exec (replicate k Loop) (s\<lparr>requested := R\<rparr>) = map_option (\<lambda>s'. s'\<lparr>requested := R\<rparr>) (timer_exec (replicate k Loop) s)"
proof (induction k arbitrary: s)
  case (Suc k)
  then show ?case
    by (cases "loop_step s") (simp_all add: loop_step_requested)
qed simp

text \<open>Once a request is served while its task still waits in a queue, the run is as if it had never been made.\<close>

lemma request_forgotten:
  assumes "timer_inv s" "pc s \<noteq> L_stopped" "x \<in> set (queued (tt s))" "\<And>k. k < length (containers (tt s)) \<Longrightarrow> task_id x \<notin> set (requests_of (tt s) k)"
  shows "timer_inv (s\<lparr>requested := requested s - {task_id x}\<rparr>)"
proof -
  let ?R = "requested s - {task_id x}"
  let ?s = "s\<lparr>requested := ?R\<rparr>"
  have i: "shape_ok s" "parts_ok s" "ids_ok s" "time_ok s" "near_ok s"
    using assms(1) by (simp_all add: timer_inv_def)
  have w: "waiting ?s = waiting s" "taken ?s = taken s" "announced ?s = announced s"
    by (simp_all add: waiting_def taken_def announced_def fun_eq_iff)
  have "task_id x \<in> ids (mset (queued (tt s)))"
    using assms(3) by (simp add: ids_def)
  then have t: "task_id x \<notin> ids (taken s)"
    using distinct_ids(1) [of "accepted s" "mset (queued (tt s))" "taken s"] i(2) by (auto simp: parts_ok_def)
  then have n: "task_id x \<notin> ids (waiting s)" "task_id x \<notin> ids (mset (dropped s))" "task_id x \<notin> cancelled s"
    using i(3) by (auto simp: taken_def ids_ok_def)
  have "container_ok (issued s) ?R c" if c: "c \<in> set (containers (tt s))" for c
  proof -
    obtain k where "k < length (containers (tt s))" "containers (tt s) ! k = c"
      using c by (meson in_set_conv_nth)
    then have "container_ok (issued s) (requested s) c" "task_id x \<notin> abandon_id ` set (ring_list (abandon_tasks c))"
      using assms(4) [of k] containers_okD [of "issued s" "requested s" "tt s" k] i(1) by (auto simp: shape_ok_def requests_of_def)
    then show ?thesis
      unfolding container_ok_def by blast
  qed
  then have "shape_ok ?s"
    using i(1) by (simp add: shape_ok_def containers_ok_def)
  moreover have "ids_ok ?s"
    using i(3) assms(2) w n unfolding ids_ok_def by simp blast
  moreover have "parts_ok ?s" "time_ok ?s" "near_ok ?s"
    using i w by (simp_all add: parts_ok_def time_ok_def near_ok_def)
  ultimately show ?thesis
    by (simp add: timer_inv_def)
qed

text \<open>At rest, a due task that nobody asked to unschedule was run.\<close>

lemma rest_ran:
  assumes "timer_inv s" "resting (pc s)" "queued (tt s) = []" "x \<in> set (accepted s)" "\<forall>y \<in> set (heap_tasks (tt s)). t < abs_time y" "abs_time x \<le> t"
  shows "x \<in> set (ran s) \<or> task_id x \<in> requested s"
proof -
  have a: "mset (accepted s) = mset (heap_tasks (tt s)) + mset (ran s) + mset (dropped s)"
    using assms(1-3) by (cases "pc s") (simp_all add: timer_inv_def parts_ok_def taken_def waiting_def)
  have "x \<in> set (heap_tasks (tt s)) \<or> x \<in> set (ran s) \<or> x \<in> set (dropped s)"
    using arg_cong [OF a, of set_mset] assms(4) by auto
  moreover have "x \<notin> set (heap_tasks (tt s))"
    using assms(5,6) by (auto simp: not_le [symmetric])
  moreover have "ids (mset (dropped s)) \<subseteq> requested s"
    using assms(1) by (simp add: timer_inv_def ids_ok_def)
  ultimately show ?thesis
    by (auto simp: ids_def)
qed

lemma in_queue_accepted:
  assumes "timer_inv s" "x \<in> set (queue_of (tt s) j)"
  shows "j < length (containers (tt s))" "x \<in> set (queued (tt s))" "x \<in> set (accepted s)"
proof -
  show j: "j < length (containers (tt s))"
    using assms(2) by (auto simp: queue_of_def split: if_splits)
  then show q: "x \<in> set (queued (tt s))"
    using assms(2) by (auto simp: queued_def queue_of_def)
  have "mset (accepted s) = mset (queued (tt s)) + taken s"
    using assms(1) by (simp add: timer_inv_def parts_ok_def)
  from arg_cong [OF this, of set_mset] q show "x \<in> set (accepted s)"
    by auto
qed

lemma early_request_lost:
  assumes "timer_inv s" "issued s + 4096 < 2 ^ 64" "pc s = L_idle" "\<not> exit_flag (tt s)" "x \<in> set (queue_of (tt s) j)" "abs_time x \<le> clock s"
    "\<And>k. j \<le> k \<Longrightarrow> k < length (containers (tt s)) \<Longrightarrow> task_id x \<notin> set (requests_of (tt s) k)"
    "\<forall>k < j. requests_seen (tt s) k = length (requests_of (tt s) k)"
  shows "\<exists>k s'. timer_exec (replicate k Loop) s = Some s' \<and> resting (pc s') \<and> clock s' = clock s \<and> x \<in> set (ran s') \<and>
    task_id x \<notin> cancelled s' \<and> (\<forall>y \<in> set (ran s'). abs_time y \<le> clock s)"
proof -
  let ?s2 = "s\<lparr>tt := (tt s)\<lparr>nearest_run_time := size_max\<rparr>, pc := L_tasks 0 (length (containers (tt s)))\<rparr>"
  note start = pass_starts [OF assms(1-4) refl]
  have e: "queue_of (tt ?s2) = queue_of (tt s)" "requests_of (tt ?s2) = requests_of (tt s)" "requests_seen (tt ?s2) = requests_seen (tt s)"
    by (simp_all add: queue_of_def requests_of_def requests_seen_def fun_eq_iff)
  note x = in_queue_accepted [OF assms(1,5)]
  have "\<exists>s3. quiet ?s2 s3 \<and> pc s3 = L_tasks j (length (containers (tt s3))) \<and> (\<forall>k < j. queue_of (tt s3) k = [] \<and> requests_of (tt s3) k = []) \<and>
      (\<forall>k \<ge> j. queue_of (tt s3) k = queue_of (tt ?s2) k \<and> containers (tt s3) ! k = containers (tt ?s2) ! k)"
    by (rule visit_phase [OF start(1)]) (use assms(2,8) x(1) e in simp_all)
  then obtain s3 where 3: "quiet ?s2 s3" "pc s3 = L_tasks j (length (containers (tt s3)))"
    "\<forall>k < j. queue_of (tt s3) k = [] \<and> requests_of (tt s3) k = []"
    "\<forall>k \<ge> j. queue_of (tt s3) k = queue_of (tt s) k \<and> containers (tt s3) ! k = containers (tt s) ! k"
    using e(1) by auto
  have i3: "timer_inv s3" "issued s3 + 4096 < 2 ^ 64" "nearest_run_time (tt s3) = size_max" "clock s3 = clock s" "accepted s3 = accepted s"
    "length (containers (tt s3)) = length (containers (tt s))"
    using 3(1) assms(2) by (simp_all add: quiet_def)
  have x3: "x \<in> set (queued (tt s3))"
    using in_queue_accepted(2) [OF i3(1), of x j] 3(4) assms(5) by simp
  have "task_id x \<notin> set (requests_of (tt s3) k)" if "k < length (containers (tt s3))" for k
    using that 3(3,4) i3(6) assms(7) [of k] by (cases "k < j") (simp_all add: requests_of_def)
  then have g: "timer_inv (s3\<lparr>requested := requested s3 - {task_id x}\<rparr>)" (is "timer_inv ?g")
    using request_forgotten [OF i3(1) _ x3] 3(2) by simp
  obtain k g' where k: "timer_exec (replicate k Loop) ?g = Some g'" "timer_inv g'" "resting (pc g')" "clock g' = clock s" "accepted g' = accepted s"
    "requested g' = requested s3 - {task_id x}" "queued (tt g') = []" "\<forall>y \<in> set (heap_tasks (tt g')). clock s < abs_time y"
    using visits_come_to_rest [OF g, of j] i3 3(2,3) by auto
  have ran: "x \<in> set (ran g')"
    using rest_ran [OF k(2,3,7) _ k(8) assms(6)] x(3) k(5,6) by simp
  obtain s' where s': "timer_exec (replicate k Loop) s3 = Some s'" "g' = s'\<lparr>requested := requested s3 - {task_id x}\<rparr>"
    using k(1) by (auto simp: loops_requested)
  obtain m where "timer_exec (replicate m Loop) ?s2 = Some s3"
    using 3(1) by (auto simp: quiet_def)
  then have "timer_exec (replicate (Suc (Suc (m + k))) Loop) s = Some s'"
    using start(2) [of "replicate m Loop @ replicate k Loop"] s'(1) by (simp add: timer_exec_append replicate_add)
  moreover have "task_id x \<notin> cancelled g'" "\<forall>y \<in> set (ran g'). abs_time y \<le> clock s"
    using k(2-4,6) by (cases "pc g'"; auto simp: timer_inv_def ids_ok_def time_ok_def)+
  ultimately show ?thesis
    using k(3,4) s'(2) ran by (intro exI [of _ "Suc (Suc (m + k))"] exI [of _ s']) simp
qed

section \<open>What a run of the timer promises\<close>

text \<open>
  C12. Whatever the interleaving of clients scheduling and unscheduling and of the timer's loop, a task is run at most once, only
  if it was scheduled, not before its time unless the thread is destroyed, and never after its id was found active while
  serving a request to unschedule it.
\<close>

theorem timer_safe:
  assumes "timer_exec as (timer_start now) = Some s" "issued s + 4096 < 2 ^ 64"
  shows "mset (ran s) \<subseteq># mset (accepted s) \<and> distinct (map task_id (ran s)) \<and>
    (\<forall>x \<in> set (ran s). task_id x \<notin> cancelled s \<and> (abs_time x \<le> clock s \<or> pc s = L_stopped))"
proof -
  have i: "parts_ok s" "ids_ok s" "time_ok s"
    using timer_run_inv [OF assms] by (simp_all add: timer_inv_def)
  have a: "mset (accepted s) = mset (ran s) + (mset (queued (tt s)) + waiting s + mset (dropped s))"
    using i(1) by (simp add: parts_ok_def taken_def union_ac)
  have d: "distinct (map task_id (ran s))"
    using distinct_ids(2) [OF a _ refl] i(1) by (simp add: parts_ok_def)
  have "cancelled s \<inter> ids (mset (ran s)) = {}"
    using i(2) by (simp add: ids_ok_def)
  then have "\<forall>x \<in> set (ran s). task_id x \<notin> cancelled s"
    by (auto simp: ids_def)
  then show ?thesis
    using a d i(3) by (auto simp: time_ok_def)
qed

text \<open>
  Two clients schedule three tasks, one of which is unscheduled; the loop runs one when its time has come and waits for the
  last.
\<close>

definition timer_demo :: "string action list" where
  "timer_demo = [Schedule 0 50 ''a'', Lower 0, Schedule 1 20 ''b'', Lower 1, Schedule 1 30 ''c'', Lower 1, Unschedule 1 3] @ replicate 8 Loop @
     [Tick 40] @ replicate 21 Loop"

definition timer_demo_state :: "string timer_run" where
  "timer_demo_state = the (timer_exec timer_demo (timer_start 10))"

lemma timer_demo_runs: "timer_exec timer_demo (timer_start 10) \<noteq> None \<and> issued timer_demo_state = 4 \<and> map task_id (ran timer_demo_state) = [2] \<and>
    clock timer_demo_state = 40 \<and> pc timer_demo_state = L_wait 50 \<and> nearest_run_time (tt timer_demo_state) = 50 \<and>
    accepted timer_demo_state \<noteq> [] \<and> pending timer_demo_state 0 = None"
  by code_simp

lemma timer_demo_heap: "heap_tasks (tt timer_demo_state) = [\<lparr>abs_time = 50, task_id = 1, task_fn = ''a''\<rparr>]"
  by code_simp

lemma timer_demo_exec: "timer_exec timer_demo (timer_start 10) = Some timer_demo_state" "issued timer_demo_state + 4096 < 2 ^ 64"
  using timer_demo_runs by (auto simp: timer_demo_state_def)

theorem timer_safe_witness:
  "mset (ran timer_demo_state) \<subseteq># mset (accepted timer_demo_state) \<and> distinct (map task_id (ran timer_demo_state)) \<and>
   map task_id (ran timer_demo_state) = [2]"
  using timer_safe [OF timer_demo_exec] timer_demo_runs by blast

text \<open>
  C14. Nothing is lost: every accepted task is still in a queue, in the heap or in hand, or was run, or was dropped, which only
  happens when a client asked to unschedule its id. Once the thread is destroyed, every accepted task was run unless a
  client asked to unschedule it.
\<close>

theorem timer_nothing_lost:
  assumes "timer_exec as (timer_start now) = Some s" "issued s + 4096 < 2 ^ 64"
  shows "mset (accepted s) = mset (queued (tt s)) + waiting s + mset (ran s) + mset (dropped s) \<and>
    (\<forall>x \<in> set (dropped s). task_id x \<in> requested s) \<and>
    (pc s = L_stopped \<longrightarrow> (\<forall>x \<in> set (accepted s). x \<in> set (ran s) \<or> task_id x \<in> requested s))"
proof -
  have i: "shape_ok s" "parts_ok s" "ids_ok s"
    using timer_run_inv [OF assms] by (simp_all add: timer_inv_def)
  have a: "mset (accepted s) = mset (queued (tt s)) + waiting s + mset (ran s) + mset (dropped s)"
    using i(2) by (simp add: parts_ok_def taken_def union_ac)
  have d: "\<forall>x \<in> set (dropped s). task_id x \<in> requested s"
    using i(3) by (auto simp: ids_ok_def ids_def)
  have "x \<in> set (ran s) \<or> x \<in> set (dropped s)" if "pc s = L_stopped" "x \<in> set (accepted s)" for x
  proof -
    have "mset (accepted s) = mset (ran s) + mset (dropped s)"
      using a that(1) i(1) by (simp add: shape_ok_def waiting_def queued_def)
    from arg_cong [OF this, of set_mset] show ?thesis
      using that(2) by auto
  qed
  then show ?thesis
    using a d by blast
qed

definition timer_destroy :: "string action list" where
  "timer_destroy = [Schedule 0 50 ''a'', Lower 0, Schedule 1 20 ''b'', Lower 1, Unschedule 1 2, Stop, Destroy]"

lemma timer_destroy_runs: "map_option (\<lambda>s. (issued s, pc s, accepted s, requested s)) (timer_exec timer_destroy (timer_start 10)) =
    Some (3, L_stopped, [\<lparr>abs_time = 50, task_id = 1, task_fn = ''a''\<rparr>,
      \<lparr>abs_time = 20, task_id = 2, task_fn = ''b''\<rparr>], {2})"
  by code_simp

theorem timer_nothing_lost_witness:
  "\<exists>s. timer_exec timer_destroy (timer_start 10) = Some s \<and> pc s = L_stopped \<and> requested s = {2} \<and>
     \<lparr>abs_time = 50, task_id = 1, task_fn = ''a''\<rparr> \<in> set (ran s)"
proof -
  obtain s where s: "timer_exec timer_destroy (timer_start 10) = Some s"
    using timer_destroy_runs by (cases "timer_exec timer_destroy (timer_start 10)") auto
  then have k: "issued s + 4096 < 2 ^ 64" "pc s = L_stopped" "requested s = {2}" "\<lparr>abs_time = 50, task_id = 1, task_fn = ''a''\<rparr> \<in> set (accepted s)"
    using timer_destroy_runs by simp_all
  show ?thesis
    using timer_nothing_lost [OF s k(1)] s k(2-4) by (intro exI [of _ s]) fastforce
qed

text \<open>
  C30. The loop does not oversleep: while it waits for the time \<open>v\<close>, every task in a queue or in the heap either is not due
  before \<open>v\<close>, or its client has lowered \<^verbatim>\<open>_nearest_run_time\<close> below \<open>v\<close>, the condition that ends the wait, or is about to.
\<close>

theorem timer_no_oversleep:
  assumes "timer_exec as (timer_start now) = Some s" "issued s + 4096 < 2 ^ 64" "pc s = L_wait v"
    "x \<in> set (queued (tt s)) \<union> set (heap_tasks (tt s))"
  shows "v \<le> abs_time x \<or> nearest_run_time (tt s) \<noteq> v \<or> (\<exists>tid. pending s tid = Some (abs_time x))"
proof -
  have n: "near_ok s"
    using timer_run_inv [OF assms(1,2)] by (simp add: timer_inv_def)
  show ?thesis
  proof (cases "x \<in> set (heap_tasks (tt s))")
    case True
    then show ?thesis
      using n assms(3) by (auto simp: near_ok_def)
  next
    case False
    then obtain c where c: "c \<in> set (containers (tt s))" "x \<in> set (ring_list (tasks c))"
      using assms(4) by (auto simp: queued_def)
    then obtain j where "j < length (containers (tt s))" "containers (tt s) ! j = c"
      by (meson in_set_conv_nth)
    then have "x \<in> set (queue_of (tt s) j)"
      using c(2) by (simp add: queue_of_def)
    then have "announced s (abs_time x)"
      using n assms(3) by (auto simp: near_ok_def)
    then show ?thesis
      by (auto simp: announced_def)
  qed
qed

theorem timer_no_oversleep_witness:
  "\<exists>x. x \<in> set (queued (tt timer_demo_state)) \<union> set (heap_tasks (tt timer_demo_state)) \<and> pc timer_demo_state = L_wait 50 \<and> 50 \<le> abs_time x"
proof -
  let ?x = "\<lparr>abs_time = 50, task_id = 1, task_fn = ''a''\<rparr>"
  have p: "pc timer_demo_state = L_wait 50"
    using timer_demo_runs by blast
  have x: "?x \<in> set (queued (tt timer_demo_state)) \<union> set (heap_tasks (tt timer_demo_state))"
    using timer_demo_heap by simp
  have "50 \<le> abs_time ?x"
    using timer_no_oversleep [OF timer_demo_exec p x] by (elim disjE) (use timer_demo_runs in simp_all)
  then show ?thesis
    using p x by (intro exI [of _ ?x]) simp
qed

text \<open>
  C20. Progress: from the start of a pass, when no client interferes, the loop comes back to rest after a number of steps, and
  then every accepted task whose time has come was run, unless a client asked to unschedule it.
\<close>

theorem timer_runs_due:
  assumes "timer_exec as (timer_start now) = Some s" "issued s + 4096 < 2 ^ 64" "pc s = L_idle" "\<not> exit_flag (tt s)"
  shows "\<exists>k s'. timer_exec (as @ replicate k Loop) (timer_start now) = Some s' \<and> resting (pc s') \<and> clock s' = clock s \<and> accepted s' = accepted s \<and>
    (\<forall>x \<in> set (accepted s). abs_time x \<le> clock s \<longrightarrow> x \<in> set (ran s') \<or> task_id x \<in> requested s)"
proof -
  from pass_comes_to_rest [OF timer_run_inv [OF assms(1,2)] assms(2-4)] obtain k s' where
    k: "timer_exec (replicate k Loop) s = Some s'" "timer_inv s'" "resting (pc s')" "clock s' = clock s" "accepted s' = accepted s"
      "requested s' = requested s" "queued (tt s') = []" "\<forall>x \<in> set (heap_tasks (tt s')). clock s < abs_time x"
    by blast
  have "x \<in> set (ran s') \<or> task_id x \<in> requested s" if "x \<in> set (accepted s)" "abs_time x \<le> clock s" for x
    using rest_ran [OF k(2,3,7) _ k(8) that(2)] that(1) k(5,6) by simp
  moreover have "timer_exec (as @ replicate k Loop) (timer_start now) = Some s'"
    using assms(1) k(1) by (simp add: timer_exec_append)
  ultimately show ?thesis
    using k(3-5) by blast
qed

definition timer_due :: "string action list" where
  "timer_due = [Schedule 0 50 ''a'', Lower 0, Schedule 1 20 ''b'', Tick 30]"

lemma timer_due_runs: "map_option (\<lambda>s. (issued s, pc s, exit_flag (tt s), clock s, accepted s, requested s)) (timer_exec timer_due (timer_start 10)) =
    Some (3, L_idle, False, 30, [\<lparr>abs_time = 50, task_id = 1, task_fn = ''a''\<rparr>, \<lparr>abs_time = 20, task_id = 2, task_fn = ''b''\<rparr>], {})"
  by code_simp

theorem timer_runs_due_witness:
  "\<exists>k s. timer_exec (timer_due @ replicate k Loop) (timer_start 10) = Some s \<and> \<lparr>abs_time = 20, task_id = 2, task_fn = ''b''\<rparr> \<in> set (ran s)"
proof -
  obtain s where s: "timer_exec timer_due (timer_start 10) = Some s"
    using timer_due_runs by (cases "timer_exec timer_due (timer_start 10)") auto
  then have k: "issued s + 4096 < 2 ^ 64" "pc s = L_idle" "\<not> exit_flag (tt s)" "clock s = 30" "requested s = {}"
    "\<lparr>abs_time = 20, task_id = 2, task_fn = ''b''\<rparr> \<in> set (accepted s)"
    using timer_due_runs by simp_all
  from timer_runs_due [OF s k(1-3)] obtain j s' where
    "timer_exec (timer_due @ replicate j Loop) (timer_start 10) = Some s'"
    "\<forall>x \<in> set (accepted s). abs_time x \<le> clock s \<longrightarrow> x \<in> set (ran s') \<or> task_id x \<in> requested s"
    by blast
  then show ?thesis
    using k(4-6) by (intro exI [of _ j] exI [of _ s']) fastforce
qed

text \<open>
  C39. An accepted request to unschedule is lost when it comes too early. At the start of a pass, let a due task wait in the
  queue of the container \<open>j\<close>, let a request for it wait in a container \<open>i\<close> that the pass visits before, and none in \<open>j\<close> or
  behind. When no client interferes, the pass takes the request before the task, finds the id not active and forgets
  it, and comes to rest having run the task, whose id was not cancelled, and nothing that is not due. The queues of requests before \<open>j\<close> are assumed to report their true size.
\<close>

theorem timer_lost_unschedule:
  assumes "timer_exec as (timer_start now) = Some s" "issued s + 4096 < 2 ^ 64" "pc s = L_idle" "\<not> exit_flag (tt s)"
    "x \<in> set (queue_of (tt s) j)" "abs_time x \<le> clock s" "i < j" "task_id x \<in> set (requests_of (tt s) i)"
    "\<forall>k. j \<le> k \<and> k < length (containers (tt s)) \<longrightarrow> task_id x \<notin> set (requests_of (tt s) k)"
    "\<forall>k < j. requests_seen (tt s) k = length (requests_of (tt s) k)"
  shows "task_id x \<in> requested s \<and>
    (\<exists>k s'. timer_exec (as @ replicate k Loop) (timer_start now) = Some s' \<and> resting (pc s') \<and> clock s' = clock s \<and> x \<in> set (ran s') \<and>
      task_id x \<notin> cancelled s' \<and> (\<forall>y \<in> set (ran s'). abs_time y \<le> clock s))"
proof -
  have inv: "timer_inv s"
    using timer_run_inv [OF assms(1,2)] .
  have "i < length (containers (tt s))"
    using in_queue_accepted(1) [OF inv assms(5)] assms(7) by simp
  then have "container_ok (issued s) (requested s) (containers (tt s) ! i)"
    using containers_okD [of "issued s" "requested s" "tt s" i] inv by (simp add: timer_inv_def shape_ok_def)
  then have "task_id x \<in> requested s"
    using assms(8) by (auto simp: container_ok_def requests_of_def)
  moreover obtain k s' where "timer_exec (replicate k Loop) s = Some s'" "resting (pc s')" "clock s' = clock s" "x \<in> set (ran s')"
    "task_id x \<notin> cancelled s'" "\<forall>y \<in> set (ran s'). abs_time y \<le> clock s"
    using early_request_lost [OF inv assms(2-6) _ assms(10)] assms(9) by blast
  ultimately show ?thesis
    using assms(1) by (intro conjI exI [of _ k] exI [of _ s']) (simp_all add: timer_exec_append)
qed

definition timer_early :: "string action list" where
  "timer_early = [Schedule 0 1000 ''far'', Lower 0, Schedule 1 20 ''near'', Lower 1, Unschedule 0 2, Tick 30]"

lemma timer_early_runs:
  "map_option (\<lambda>s. (issued s, pc s, exit_flag (tt s), clock s, queue_of (tt s) 1, requests_of (tt s) 0, requests_of (tt s) 1, length (containers (tt s)),
       requests_seen (tt s) 0)) (timer_exec timer_early (timer_start 10)) =
     Some (3, L_idle, False, 30, [\<lparr>abs_time = 20, task_id = 2, task_fn = ''near''\<rparr>], [2], [], 2, 1)"
  by code_simp

theorem timer_lost_unschedule_witness:
  "\<exists>k s. timer_exec (timer_early @ replicate k Loop) (timer_start 10) = Some s \<and> \<lparr>abs_time = 20, task_id = 2, task_fn = ''near''\<rparr> \<in> set (ran s) \<and>
     2 \<notin> cancelled s"
proof -
  obtain s where s: "timer_exec timer_early (timer_start 10) = Some s"
    using timer_early_runs by (cases "timer_exec timer_early (timer_start 10)") auto
  have k: "issued s + 4096 < 2 ^ 64" "pc s = L_idle" "\<not> exit_flag (tt s)" "clock s = 30"
    "queue_of (tt s) 1 = [\<lparr>abs_time = 20, task_id = 2, task_fn = ''near''\<rparr>]" "requests_of (tt s) 0 = [2]" "requests_of (tt s) 1 = []"
    "length (containers (tt s)) = 2" "requests_seen (tt s) 0 = 1"
    using timer_early_runs s by simp_all
  have "2 \<notin> set (requests_of (tt s) j)" if "1 \<le> j" "j < 2" for j
    using that k(7) by (cases "j = 1") simp_all
  then show ?thesis
    using timer_lost_unschedule [OF s k(1-3), of "\<lparr>abs_time = 20, task_id = 2, task_fn = ''near''\<rparr>" 1 0] k(4-9) by auto
qed

end
