(* ===== verification/LifeCycleLock.thy ===== *)
theory LifeCycleLock
  imports Prelude
begin

text \<open>
  The lock of \<^verbatim>\<open>include/common/life_cycle_lock.h\<close>: one atomic 32-bit word, whose low bits say that the lock is
  exclusive or about to be, and whose upper bits count the threads that share it. Every operation is a sequence of atomic
  accesses; the step relation interleaves the accesses of any number of threads, a thread that spins being one that tries
  again.
\<close>

section \<open>The atomic operations\<close>

type_synonym bits = "32 word"

definition SHARED :: bits where "SHARED = 4"
definition UPGRADED :: bits where "UPGRADED = 2"
definition EXCLUSIVE :: bits where "EXCLUSIVE = 1"

lemmas lock_bits = SHARED_def UPGRADED_def EXCLUSIVE_def

definition fetch_add :: "bits \<Rightarrow> bits \<Rightarrow> bits \<times> bits" where
  "fetch_add n v = (v + n, v)"

definition fetch_or :: "bits \<Rightarrow> bits \<Rightarrow> bits \<times> bits" where
  "fetch_or n v = (v OR n, v)"

definition fetch_and :: "bits \<Rightarrow> bits \<Rightarrow> bits \<times> bits" where
  "fetch_and n v = (v AND n, v)"

definition compare_exchange_strong :: "bits \<Rightarrow> bits \<Rightarrow> bits \<Rightarrow> bits \<times> bool" where
  "compare_exchange_strong expect desired v = (if v = expect then (desired, True) else (v, False))"

text \<open>
  \<^verbatim>\<open>tryShared\<close> takes two accesses: it counts itself and, when the lock is taken, takes itself back.
\<close>

definition tryShared :: "bits \<Rightarrow> bits \<times> bool" where
  "tryShared v = (let (v', old) = fetch_add SHARED v in (v', old AND (UPGRADED OR EXCLUSIVE) = 0))"

definition tryShared_undo :: "bits \<Rightarrow> bits" where
  "tryShared_undo v = fst (fetch_add (- SHARED) v)"

definition tryUpgrade :: "bits \<Rightarrow> bits \<times> bool" where
  "tryUpgrade v = (let (v', old) = fetch_or UPGRADED v in (v', old AND EXCLUSIVE = 0))"

definition tryUpgradeNonReEntrant :: "bits \<Rightarrow> bits \<times> bool" where
  "tryUpgradeNonReEntrant v = (let (v', old) = fetch_or UPGRADED v in (v', old AND (UPGRADED OR EXCLUSIVE) = 0))"

definition tryExclusive :: "bits \<Rightarrow> bits \<times> bool" where
  "tryExclusive v = compare_exchange_strong UPGRADED EXCLUSIVE v"

definition releaseShared :: "bits \<Rightarrow> bits" where
  "releaseShared v = fst (fetch_add (- SHARED) v)"

definition releaseExclusive :: "bits \<Rightarrow> bits" where
  "releaseExclusive v = fst (fetch_and (NOT (EXCLUSIVE OR UPGRADED)) v)"

section \<open>Threads\<close>

text \<open>
  A thread is counted in the word when it shares the lock or is about to take its count back, and apart from that it may
  have announced an upgrade or own the lock. \<^verbatim>\<open>Channel::getSocketInternal\<close> announces its upgrade while it still
  shares the lock; \<^verbatim>\<open>Socket::tryExclusive\<close> gives up after one attempt and leaves its announcement in the word.
\<close>

datatype counted = Uncounted | Undo | Shares
datatype role = NoRole | Upgrading | Owns

record lock_state =
  lbits :: bits
  counted :: "nat \<Rightarrow> counted"
  role :: "nat \<Rightarrow> role"

definition LifeCycleLock :: lock_state where
  "LifeCycleLock = \<lparr>lbits = 0, counted = (\<lambda>_. Uncounted), role = (\<lambda>_. NoRole)\<rparr>"

definition set_counted :: "nat \<Rightarrow> counted \<Rightarrow> bits \<Rightarrow> lock_state \<Rightarrow> lock_state" where
  "set_counted t c v s = s\<lparr>lbits := v, counted := (counted s)(t := c)\<rparr>"

definition set_role :: "nat \<Rightarrow> role \<Rightarrow> bits \<Rightarrow> lock_state \<Rightarrow> lock_state" where
  "set_role t r v s = s\<lparr>lbits := v, role := (role s)(t := r)\<rparr>"

text \<open>
  One access of a thread below \<open>n\<close>. With \<open>once\<close> every upgrade is the one of \<^verbatim>\<open>tryUpgradeNonReEntrant\<close> and is seen through, as
  in \<^verbatim>\<open>Channel\<close>; without it threads also use \<^verbatim>\<open>tryUpgrade\<close> and may give up.
\<close>

inductive lock_step :: "bool \<Rightarrow> nat \<Rightarrow> lock_state \<Rightarrow> lock_state \<Rightarrow> bool" for once n where
  share: "t < n \<Longrightarrow> counted s t = Uncounted \<Longrightarrow> tryShared (lbits s) = (v, ok) \<Longrightarrow>
    lock_step once n s (set_counted t (if ok then Shares else Undo) v s)"
| undo: "t < n \<Longrightarrow> counted s t = Undo \<Longrightarrow> lock_step once n s (set_counted t Uncounted (tryShared_undo (lbits s)) s)"
| unshare: "t < n \<Longrightarrow> counted s t = Shares \<Longrightarrow> lock_step once n s (set_counted t Uncounted (releaseShared (lbits s)) s)"
| upgrade: "\<not> once \<Longrightarrow> t < n \<Longrightarrow> role s t = NoRole \<Longrightarrow> tryUpgrade (lbits s) = (v, ok) \<Longrightarrow>
    lock_step once n s (set_role t (if ok then Upgrading else NoRole) v s)"
| upgrade_once: "t < n \<Longrightarrow> role s t = NoRole \<Longrightarrow> tryUpgradeNonReEntrant (lbits s) = (v, ok) \<Longrightarrow>
    lock_step once n s (set_role t (if ok then Upgrading else NoRole) v s)"
| exclusive: "t < n \<Longrightarrow> role s t = Upgrading \<Longrightarrow> tryExclusive (lbits s) = (v, ok) \<Longrightarrow>
    lock_step once n s (set_role t (if ok then Owns else Upgrading) v s)"
| give_up: "\<not> once \<Longrightarrow> t < n \<Longrightarrow> role s t = Upgrading \<Longrightarrow> lock_step once n s (set_role t NoRole (lbits s) s)"
| release: "t < n \<Longrightarrow> role s t = Owns \<Longrightarrow> lock_step once n s (set_role t NoRole (releaseExclusive (lbits s)) s)"

section \<open>The word\<close>

text \<open>The word that counts \<open>k\<close> threads, with its two low bits.\<close>

definition lock_word :: "nat \<Rightarrow> bool \<Rightarrow> bool \<Rightarrow> bits" where
  "lock_word k u x = push_bit 2 (of_nat k) OR (if u then UPGRADED else 0) OR (if x then EXCLUSIVE else 0)"

lemma bit_lock_bits [simp]: "bit UPGRADED n \<longleftrightarrow> n = 1" "bit EXCLUSIVE n \<longleftrightarrow> n = 0"
  by (auto simp: lock_bits bit_simps)

lemma bit_lock_word:
  "bit (lock_word k u x) n \<longleftrightarrow> n < 32 \<and> (if n = 0 then x else if n = 1 then u else bit k (n - 2))"
  by (auto simp: lock_word_def bit_simps)

lemma bits_eq_iff: "v = w \<longleftrightarrow> (\<forall>n < 32. bit v n \<longleftrightarrow> bit w n)" for v w :: bits
  by (auto intro: bit_word_eqI)

lemmas word_by_bits = bits_eq_iff bit_lock_word bit_and_iff bit_or_iff bit_not_iff

lemma lock_word_add: "lock_word k u x = 4 * of_nat k + (if u then 2 else 0) + (if x then 1 else 0)"
proof -
  let ?u = "if u then UPGRADED else 0" and ?x = "if x then EXCLUSIVE else 0" and ?k = "push_bit 2 (of_nat k) :: bits"
  have "?k + ?u = ?k OR ?u"
    by (rule disjunctive_add_eq_or) (auto simp: bits_eq_iff bit_simps)
  moreover have "(?k OR ?u) + ?x = (?k OR ?u) OR ?x"
    by (rule disjunctive_add_eq_or) (auto simp: bits_eq_iff bit_simps)
  ultimately have "lock_word k u x = ?k + ?u + ?x"
    by (simp add: lock_word_def or.assoc)
  then show ?thesis
    by (simp add: lock_bits push_bit_eq_mult mult.commute)
qed

lemma lock_word_0 [simp]: "lock_word 0 False False = 0"
  by (simp add: lock_word_def)

lemma free_word: "lock_word k u x AND (UPGRADED OR EXCLUSIVE) = 0 \<longleftrightarrow> \<not> u \<and> \<not> x"
  by (auto simp: word_by_bits)

lemma tryShared_word: "tryShared (lock_word k u x) = (lock_word (Suc k) u x, \<not> u \<and> \<not> x)"
  by (simp add: tryShared_def fetch_add_def free_word) (simp add: lock_word_add SHARED_def algebra_simps)

lemma uncount_word:
  assumes "0 < k"
  shows "tryShared_undo (lock_word k u x) = lock_word (k - 1) u x"
    and "releaseShared (lock_word k u x) = lock_word (k - 1) u x"
  using assms
  by (cases k; simp add: tryShared_undo_def releaseShared_def fetch_add_def lock_word_add SHARED_def algebra_simps)+

lemma upgrade_word:
  "tryUpgrade (lock_word k u x) = (lock_word k True x, \<not> x)"
  "tryUpgradeNonReEntrant (lock_word k u x) = (lock_word k True x, \<not> u \<and> \<not> x)"
  by (auto simp: tryUpgrade_def tryUpgradeNonReEntrant_def fetch_or_def free_word word_by_bits)

lemma release_word: "releaseExclusive (lock_word k u x) = lock_word k False False"
  by (auto simp: releaseExclusive_def fetch_and_def word_by_bits)

lemma tryExclusive_word:
  assumes "k < 2 ^ 30"
  shows "tryExclusive (lock_word k u x) =
    (if k = 0 \<and> u \<and> \<not> x then (lock_word 0 False True, True) else (lock_word k u x, False))"
proof -
  have "lock_word k u x = of_nat (4 * k + (if u then 2 else 0) + (if x then 1 else 0))"
    by (simp add: lock_word_add)
  then have "unat (lock_word k u x) = 4 * k + (if u then 2 else 0) + (if x then 1 else 0)"
    using assms by (simp only: unsigned_of_nat take_bit_eq_mod) simp
  then have "lock_word k u x = UPGRADED \<longleftrightarrow> k = 0 \<and> u \<and> \<not> x"
    by (auto simp: word_unat_eq_iff UPGRADED_def split: if_splits)
  then show ?thesis
    by (auto simp: tryExclusive_def compare_exchange_strong_def lock_word_def)
qed

section \<open>The invariant\<close>

definition counted_set :: "nat \<Rightarrow> lock_state \<Rightarrow> nat set" where
  "counted_set n s = {t. t < n \<and> counted s t \<noteq> Uncounted}"

text \<open>
  The word counts the counted threads and knows of the owner; only one thread owns the lock and nobody shares it
  meanwhile. Under the discipline of \<open>once\<close> at most one thread has announced an upgrade or owns the lock, and the bit of an
  announced upgrade stays set.
\<close>

definition once_inv :: "lock_state \<Rightarrow> bool \<Rightarrow> bool" where
  "once_inv s u \<longleftrightarrow>
     (\<forall>t t'. role s t \<noteq> NoRole \<longrightarrow> role s t' \<noteq> NoRole \<longrightarrow> t = t') \<and>
     (\<forall>t. role s t = Upgrading \<longrightarrow> u) \<and>
     (u \<longrightarrow> (\<exists>t. role s t \<noteq> NoRole))"

definition lock_inv :: "bool \<Rightarrow> nat \<Rightarrow> lock_state \<Rightarrow> bool" where
  "lock_inv once n s \<longleftrightarrow>
     (\<forall>t t'. role s t = Owns \<longrightarrow> counted s t' \<noteq> Shares \<and> (role s t' = Owns \<longrightarrow> t = t')) \<and>
     (\<forall>t \<ge> n. counted s t = Uncounted \<and> role s t = NoRole) \<and>
     (\<exists>u. lbits s = lock_word (card (counted_set n s)) u (\<exists>t. role s t = Owns) \<and> (once \<longrightarrow> once_inv s u))"

lemma lock_invI:
  assumes "lbits s = lock_word (card (counted_set n s)) u x" "x \<longleftrightarrow> (\<exists>t. role s t = Owns)" "once \<Longrightarrow> once_inv s u"
    and "\<And>t t'. role s t = Owns \<Longrightarrow> counted s t' \<noteq> Shares \<and> (role s t' = Owns \<longrightarrow> t = t')"
    and "\<And>t. n \<le> t \<Longrightarrow> counted s t = Uncounted \<and> role s t = NoRole"
  shows "lock_inv once n s"
  using assms unfolding lock_inv_def by blast

lemma counted_set_set_role [simp]: "counted_set n (set_role t r v s) = counted_set n s"
  by (simp add: counted_set_def set_role_def)

lemma card_counted_set: "card (counted_set n s) \<le> n"
proof -
  have "card (counted_set n s) \<le> card {..< n}"
    by (rule card_mono) (auto simp: counted_set_def)
  then show ?thesis
    by simp
qed

lemma card_count:
  assumes "t < n" "counted s t = Uncounted" "c \<noteq> Uncounted"
  shows "card (counted_set n (set_counted t c v s)) = Suc (card (counted_set n s))"
proof -
  have "counted_set n (set_counted t c v s) = insert t (counted_set n s)"
    using assms by (auto simp: counted_set_def set_counted_def)
  then show ?thesis
    using assms by (simp add: counted_set_def)
qed

lemma card_uncount:
  assumes "t < n" "counted s t \<noteq> Uncounted"
  shows "card (counted_set n (set_counted t Uncounted v s)) = card (counted_set n s) - 1" "0 < card (counted_set n s)"
proof -
  have "counted_set n s = insert t (counted_set n (set_counted t Uncounted v s))"
    using assms by (auto simp: counted_set_def set_counted_def)
  moreover have "t \<notin> counted_set n (set_counted t Uncounted v s)" "finite (counted_set n (set_counted t Uncounted v s))"
    by (auto simp: counted_set_def set_counted_def)
  ultimately show "card (counted_set n (set_counted t Uncounted v s)) = card (counted_set n s) - 1"
    "0 < card (counted_set n s)"
    by simp_all
qed

lemma set_simps [simp]:
  "lbits (set_counted t c v s) = v" "role (set_counted t c v s) = role s"
  "counted (set_counted t c v s) = (counted s)(t := c)"
  "lbits (set_role t r v s) = v" "role (set_role t r v s) = (role s)(t := r)"
  "counted (set_role t r v s) = counted s"
  by (simp_all add: set_counted_def set_role_def)

lemma once_inv_set_counted [simp]: "once_inv (set_counted t c v s) = once_inv s"
  by (simp add: once_inv_def fun_eq_iff)

lemma announce_inv:
  assumes w: "lbits s = lock_word (card (counted_set n s)) u x" and x: "x \<longleftrightarrow> (\<exists>t. role s t = Owns)"
    and own: "\<And>t t'. role s t = Owns \<Longrightarrow> counted s t' \<noteq> Shares \<and> (role s t' = Owns \<longrightarrow> t = t')"
    and out: "\<And>t. n \<le> t \<Longrightarrow> counted s t = Uncounted \<and> role s t = NoRole"
    and t: "t < n" "role s t \<noteq> Owns" "r \<noteq> Owns"
    and o: "once \<Longrightarrow> once_inv (set_role t r (lock_word (card (counted_set n s)) u' x) s) u'"
  shows "lock_inv once n (set_role t r (lock_word (card (counted_set n s)) u' x) s)"
proof (rule lock_invI [where u = u' and x = x])
  have same: "role (set_role t r v s) a = Owns \<longleftrightarrow> role s a = Owns" for v a
    using t by auto
  show "x = (\<exists>a. role (set_role t r (lock_word (card (counted_set n s)) u' x) s) a = Owns)"
    unfolding same by (rule x)
  show "counted (set_role t r (lock_word (card (counted_set n s)) u' x) s) b \<noteq> Shares \<and>
      (role (set_role t r (lock_word (card (counted_set n s)) u' x) s) b = Owns \<longrightarrow> a = b)"
    if "role (set_role t r (lock_word (card (counted_set n s)) u' x) s) a = Owns" for a b
    using own [of a b] that unfolding same by simp
qed (use out t o in auto)

lemma once_inv_announce:
  assumes "once_inv s u" "role s t = NoRole"
  shows "once_inv (set_role t (if \<not> u \<and> \<not> (\<exists>t. role s t = Owns) then Upgrading else NoRole) v s) True"
proof (cases "\<not> u \<and> \<not> (\<exists>t. role s t = Owns)")
  case True
  then have "role s a = NoRole" for a
    using assms(1) by (cases "role s a") (auto simp: once_inv_def)
  then show ?thesis
    using True by (simp add: once_inv_def)
next
  case False
  have "(role s)(t := NoRole) = role s"
    using assms(2) by (simp add: fun_eq_iff)
  moreover have "\<exists>a. role s a \<noteq> NoRole"
    using False assms(1) by (fastforce simp: once_inv_def)
  ultimately have "once_inv (set_role t NoRole v s) True"
    using assms(1) by (simp add: once_inv_def del: fun_upd_apply)
  then show ?thesis
    using False by auto
qed

lemma set_role_same: "role s t = r \<Longrightarrow> set_role t r (lbits s) s = s"
  by (cases s) (auto simp: set_role_def fun_eq_iff)

lemma acquire_inv:
  assumes "card (counted_set n s) = 0" "\<forall>t. role s t \<noteq> Owns" "t < n" "role s t = Upgrading" "once \<Longrightarrow> once_inv s u"
    and out: "\<And>t. n \<le> t \<Longrightarrow> counted s t = Uncounted \<and> role s t = NoRole"
  shows "lock_inv once n (set_role t Owns (lock_word 0 False True) s)"
proof (rule lock_invI [where u = False and x = True])
  have "counted_set n s = {}"
    using assms(1) by (simp add: counted_set_def)
  then have "counted s a = Uncounted" for a
    using out [of a] by (cases "a < n") (auto simp: counted_set_def)
  then show "counted (set_role t Owns (lock_word 0 False True) s) b \<noteq> Shares \<and>
      (role (set_role t Owns (lock_word 0 False True) s) b = Owns \<longrightarrow> a = b)"
    if "role (set_role t Owns (lock_word 0 False True) s) a = Owns" for a b
    using that assms(2) by (auto split: if_splits)
  show "once_inv (set_role t Owns (lock_word 0 False True) s) False" if once
  proof -
    have "a = t" if "role s a \<noteq> NoRole" for a
      using assms(4) assms(5) [OF \<open>once\<close>] that by (auto simp: once_inv_def)
    then show ?thesis
      by (auto simp: once_inv_def)
  qed
qed (use assms in auto)

lemma release_inv:
  assumes "t < n" "role s t = Owns" "once \<Longrightarrow> once_inv s u"
    and own: "\<And>t t'. role s t = Owns \<Longrightarrow> counted s t' \<noteq> Shares \<and> (role s t' = Owns \<longrightarrow> t = t')"
    and out: "\<And>t. n \<le> t \<Longrightarrow> counted s t = Uncounted \<and> role s t = NoRole"
  shows "lock_inv once n (set_role t NoRole (lock_word (card (counted_set n s)) False False) s)"
proof -
  have free: "role (set_role t NoRole v s) a \<noteq> Owns" for v a
    using own [OF assms(2), of a] by auto
  have "once_inv (set_role t NoRole v s) False" if once for v
  proof -
    have "a = t" if "role s a \<noteq> NoRole" for a
      using assms(2) assms(3) [OF \<open>once\<close>] that by (auto simp: once_inv_def)
    then show ?thesis
      by (auto simp: once_inv_def)
  qed
  then show ?thesis
    using free out by (intro lock_invI [where u = False and x = False]) auto
qed

lemma lock_inv_init: "lock_inv once n LifeCycleLock"
  by (auto simp: lock_inv_def LifeCycleLock_def counted_set_def once_inv_def intro: exI [of _ False])

lemma lock_step_inv:
  assumes "lock_step once n s s'" "lock_inv once n s" "n < 2 ^ 30"
  shows "lock_inv once n s'"
proof -
  obtain u where w: "lbits s = lock_word (card (counted_set n s)) u (\<exists>t. role s t = Owns)" and o: "once \<Longrightarrow> once_inv s u"
    and own: "\<And>t t'. role s t = Owns \<Longrightarrow> counted s t' \<noteq> Shares \<and> (role s t' = Owns \<longrightarrow> t = t')"
    and out: "\<And>t. t \<ge> n \<Longrightarrow> counted s t = Uncounted \<and> role s t = NoRole"
    using assms(2) unfolding lock_inv_def by blast
  have k: "card (counted_set n s) < 2 ^ 30"
    using card_counted_set [of n s] assms(3) by linarith
  let ?x = "\<exists>t. role s t = Owns"
  show ?thesis
    using assms(1)
  proof cases
    case (share t v ok)
    then show ?thesis
      using w o own out by (intro lock_invI [where u = u and x = ?x]) (auto simp: tryShared_word card_count)
  next
    case (undo t)
    then show ?thesis
      using w o own out by (intro lock_invI [where u = u and x = ?x]) (auto simp: uncount_word card_uncount)
  next
    case (unshare t)
    then show ?thesis
      using w o own out by (intro lock_invI [where u = u and x = ?x]) (auto simp: uncount_word card_uncount)
  next
    case (upgrade t v ok)
    then show ?thesis
      using announce_inv [where u' = True, OF w refl own out, of t] w by (auto simp: upgrade_word)
  next
    case (upgrade_once t v ok)
    then show ?thesis
      using announce_inv [where u' = True, OF w refl own out, of t "if \<not> u \<and> \<not> ?x then Upgrading else NoRole" once]
        once_inv_announce [OF o, of t] w
      by (simp add: upgrade_word split del: if_split) (cases "\<not> u \<and> \<not> ?x"; simp)
  next
    case (exclusive t v ok)
    then show ?thesis
      using w tryExclusive_word [OF k] acquire_inv [of n s t once u] out o assms(2)
      by (auto simp: set_role_same split: if_splits)
  next
    case (give_up t)
    then show ?thesis
      using announce_inv [where u' = u, OF w refl own out, of t] w by auto
  next
    case (release t)
    then show ?thesis
      using w release_inv [of t n s once u] o own out by (simp add: release_word)
  qed
qed

section \<open>Executions\<close>

lemma lock_steps_inv:
  assumes "(lock_step once n)\<^sup>*\<^sup>* s s'" "lock_inv once n s" "n < 2 ^ 30"
  shows "lock_inv once n s'"
  using assms by (induction rule: rtranclp_induct) (auto intro: lock_step_inv)

text \<open>A thread that has announced its upgrade under the discipline gets the lock with its next attempt, once nobody is counted.\<close>

lemma acquires:
  assumes "lock_inv True n s" "role s t = Upgrading" "counted_set n s = {}"
  shows "lock_step True n s (set_role t Owns (lock_word 0 False True) s)"
proof -
  have t: "t < n"
    using assms(1,2) unfolding lock_inv_def by (metis linorder_not_less role.distinct(1))
  obtain u where w: "lbits s = lock_word 0 u (\<exists>t. role s t = Owns)" and o: "once_inv s u"
    using assms(1,3) unfolding lock_inv_def by auto
  have "role s a \<noteq> Owns" for a
    using o assms(2) unfolding once_inv_def by (metis role.distinct)
  then have "tryExclusive (lbits s) = (lock_word 0 False True, True)"
    using w o assms(2) by (auto simp: tryExclusive_word once_inv_def)
  from lock_step.exclusive [OF t assms(2) this, of True] show ?thesis
    by simp
qed

lemma drains:
  assumes "lock_inv True n s" "role s t = Upgrading" "n < 2 ^ 30"
  shows "\<exists>s'. (lock_step True n)\<^sup>*\<^sup>* s s' \<and> role s' t = Owns"
  using assms
proof (induction "card (counted_set n s)" arbitrary: s)
  case 0
  then have "counted_set n s = {}"
    by (simp add: counted_set_def)
  from acquires [OF 0(2,3) this] have "(lock_step True n)\<^sup>*\<^sup>* s (set_role t Owns (lock_word 0 False True) s)"
    by (rule r_into_rtranclp)
  then show ?case
    by (intro exI [of _ "set_role t Owns (lock_word 0 False True) s"]) simp
next
  case (Suc k)
  have "counted_set n s \<noteq> {}"
    using Suc(2) by auto
  then obtain a where a: "a < n" "counted s a \<noteq> Uncounted"
    unfolding counted_set_def by blast
  define s1 where "s1 = set_counted a Uncounted (releaseShared (lbits s)) s"
  have step: "lock_step True n s s1"
    using a lock_step.undo [of a n s True] lock_step.unshare [of a n s True]
    by (cases "counted s a") (auto simp: s1_def tryShared_undo_def releaseShared_def)
  have "\<exists>s'. (lock_step True n)\<^sup>*\<^sup>* s1 s' \<and> role s' t = Owns"
  proof (rule Suc(1))
    show "k = card (counted_set n s1)"
      using Suc(2) card_uncount(1) [OF a, of "releaseShared (lbits s)"] by (simp add: s1_def)
    show "lock_inv True n s1"
      by (rule lock_step_inv [OF step Suc(3,5)])
  qed (use Suc(4,5) in \<open>simp_all add: s1_def\<close>)
  then show ?case
    using step by (meson converse_rtranclp_into_rtranclp)
qed

text \<open>Two short executions.\<close>

definition upgraded_lock :: lock_state where
  "upgraded_lock = set_role 0 Upgrading UPGRADED LifeCycleLock"

lemma init_simps [simp]:
  "lbits LifeCycleLock = 0" "role LifeCycleLock t = NoRole" "counted LifeCycleLock t = Uncounted"
  by (simp_all add: LifeCycleLock_def)

lemma upgrade_free: "tryUpgradeNonReEntrant 0 = (UPGRADED, True)" "tryUpgrade 0 = (UPGRADED, True)"
  "tryUpgrade UPGRADED = (UPGRADED, True)" "tryExclusive UPGRADED = (EXCLUSIVE, True)" "releaseExclusive EXCLUSIVE = 0"
  by (simp_all add: tryUpgradeNonReEntrant_def tryUpgrade_def tryExclusive_def compare_exchange_strong_def
    releaseExclusive_def fetch_or_def fetch_and_def lock_bits)

lemma upgraded_reachable:
  assumes "0 < n"
  shows "lock_step once n LifeCycleLock upgraded_lock"
  using lock_step.upgrade_once [of 0 n LifeCycleLock UPGRADED True once] assms
  by (simp add: upgraded_lock_def upgrade_free)

lemma owned_reachable:
  assumes "0 < n"
  shows "lock_step once n upgraded_lock (set_role 0 Owns EXCLUSIVE upgraded_lock)"
  using lock_step.exclusive [of 0 n upgraded_lock EXCLUSIVE True once] assms
  by (simp add: upgraded_lock_def upgrade_free)

text \<open>
  C10. Whatever the interleaving of the atomic accesses of fewer than two to the thirty threads, and whichever way they
  upgrade, a thread that owns the lock owns it alone: no thread shares it and no other thread owns it.
\<close>

theorem mutual_exclusion:
  assumes "(lock_step once n)\<^sup>*\<^sup>* LifeCycleLock s" "n < 2 ^ 30" "role s t = Owns"
  shows "counted s t' \<noteq> Shares \<and> (role s t' = Owns \<longrightarrow> t' = t)"
  using lock_steps_inv [OF assms(1) lock_inv_init assms(2)] assms(3) unfolding lock_inv_def by blast

theorem mutual_exclusion_witness:
  "counted (set_role 0 Owns EXCLUSIVE upgraded_lock) 1 \<noteq> Shares"
proof -
  have "(lock_step True 2)\<^sup>*\<^sup>* LifeCycleLock (set_role 0 Owns EXCLUSIVE upgraded_lock)"
    using upgraded_reachable [of 2 True] owned_reachable [of 2 True]
    by (auto intro: converse_rtranclp_into_rtranclp)
  then show ?thesis
    using mutual_exclusion [of True 2 "set_role 0 Owns EXCLUSIVE upgraded_lock" 0 1] by simp
qed

lemma upgrading_word:
  assumes "lock_inv True n s" "role s t = Upgrading"
  shows "lbits s = lock_word (card (counted_set n s)) True False" "role s t' \<noteq> NoRole \<Longrightarrow> t' = t"
proof -
  obtain u where u: "lbits s = lock_word (card (counted_set n s)) u (\<exists>t. role s t = Owns)" "once_inv s u"
    using assms(1) unfolding lock_inv_def by blast
  have only: "t' = t" if "role s t' \<noteq> NoRole" for t'
    using u(2) assms(2) that by (auto simp: once_inv_def)
  have "role s t' \<noteq> Owns" for t'
    using only [of t'] assms(2) by auto
  moreover have u
    using u(2) assms(2) unfolding once_inv_def by blast
  ultimately show "lbits s = lock_word (card (counted_set n s)) True False"
    using u(1) by simp
  show "t' = t" if "role s t' \<noteq> NoRole"
    using only that .
qed

lemma no_counted:
  assumes "lock_inv once n s"
  shows "card (counted_set n s) = 0 \<longleftrightarrow> (\<forall>t. counted s t = Uncounted)"
proof -
  have "counted_set n s = {} \<longleftrightarrow> (\<forall>t. counted s t = Uncounted)"
  proof -
    have "counted s t = Uncounted" if "n \<le> t" for t
      using assms that by (simp add: lock_inv_def)
    then show ?thesis
      unfolding counted_set_def by (auto simp: not_less [symmetric])
  qed
  then show ?thesis
    by (simp add: counted_set_def)
qed

text \<open>What any step of any thread does to an announced upgrade: it stays, or its thread gets the lock, and no thread starts to share.\<close>

lemma upgrading_step:
  assumes "lock_step True n s s'" "lock_inv True n s" "role s t = Upgrading" "n < 2 ^ 30"
  shows "(role s' t = Upgrading \<or> role s' t = Owns) \<and> (counted s' t' = Shares \<longrightarrow> counted s t' = Shares)"
proof -
  note w = upgrading_word(1) [OF assms(2,3)]
  note only = upgrading_word(2) [OF assms(2,3)]
  show ?thesis
    using assms(1)
  proof cases
    case (upgrade_once a v ok)
    then show ?thesis
      using w assms(3) by (auto simp: upgrade_word)
  next
    case (release a)
    then show ?thesis
      using only [of a] assms(3) by auto
  qed (use w assms(3) in \<open>auto simp: tryShared_word split: if_splits\<close>)
qed

text \<open>
  C27. When every upgrade is one of \<^verbatim>\<open>tryUpgradeNonReEntrant\<close> and is seen through, an announced upgrade is never lost, whatever
  happened before: no other thread has announced one or owns the lock, and neither \<^verbatim>\<open>tryShared\<close> nor another
  announcement succeeds; the next attempt of \<^verbatim>\<open>tryExclusive\<close> succeeds exactly when no thread is counted any more; every step of any
  thread keeps the announcement or makes its thread the owner, and adds no thread to those that share the lock; and once
  the counted threads have left, the announcing thread owns the lock.
\<close>

theorem upgrade_completes:
  assumes "(lock_step True n)\<^sup>*\<^sup>* LifeCycleLock s" "n < 2 ^ 30" "role s t = Upgrading"
  shows "(\<forall>t'. role s t' \<noteq> NoRole \<longrightarrow> t' = t) \<and> \<not> snd (tryShared (lbits s)) \<and> \<not> snd (tryUpgradeNonReEntrant (lbits s)) \<and>
    (snd (tryExclusive (lbits s)) \<longleftrightarrow> (\<forall>t'. counted s t' = Uncounted)) \<and>
    (\<forall>s'. lock_step True n s s' \<longrightarrow> (role s' t = Upgrading \<or> role s' t = Owns) \<and> {t'. counted s' t' = Shares} \<subseteq> {t'. counted s t' = Shares}) \<and>
    (\<exists>s'. (lock_step True n)\<^sup>*\<^sup>* s s' \<and> role s' t = Owns)"
proof -
  have i: "lock_inv True n s"
    using lock_steps_inv [OF assms(1) lock_inv_init assms(2)] .
  have k: "card (counted_set n s) < 2 ^ 30"
    using card_counted_set [of n s] assms(2) by linarith
  note w = upgrading_word [OF i assms(3)]
  have a: "\<not> snd (tryShared (lbits s))" "\<not> snd (tryUpgradeNonReEntrant (lbits s))"
    using w(1) by (simp_all add: tryShared_word upgrade_word)
  have b: "snd (tryExclusive (lbits s)) \<longleftrightarrow> (\<forall>t'. counted s t' = Uncounted)"
    using w(1) tryExclusive_word [OF k, of True False] no_counted [OF i] by simp
  have c: "\<forall>t'. role s t' \<noteq> NoRole \<longrightarrow> t' = t"
    using w(2) by blast
  have d: "\<forall>s'. lock_step True n s s' \<longrightarrow> (role s' t = Upgrading \<or> role s' t = Owns) \<and> {t'. counted s' t' = Shares} \<subseteq> {t'. counted s t' = Shares}"
    using upgrading_step [OF _ i assms(3,2)] by (intro allI impI conjI subsetI) (simp, blast)
  show ?thesis
    by (intro conjI a b c d drains [OF i assms(3,2)])
qed

theorem upgrade_completes_witness:
  "snd (tryExclusive (lbits upgraded_lock)) \<and> \<not> snd (tryShared (lbits upgraded_lock)) \<and>
   (\<exists>s'. (lock_step True 2)\<^sup>*\<^sup>* upgraded_lock s' \<and> role s' 0 = Owns)"
proof -
  have "(lock_step True 2)\<^sup>*\<^sup>* LifeCycleLock upgraded_lock" "role upgraded_lock 0 = Upgrading" "\<forall>t'. counted upgraded_lock t' = Uncounted"
    using upgraded_reachable [of 2 True] by (auto simp: upgraded_lock_def)
  then show ?thesis
    using upgrade_completes [of 2 upgraded_lock 0] by simp
qed

section \<open>Lost announcements\<close>

text \<open>
  Steps in which no thread announces an upgrade with success; threads may try, share, release and give up. When such steps follow
  an acquisition, the word either knows an owner or no announcement.
\<close>

definition silent_step :: "bool \<Rightarrow> nat \<Rightarrow> lock_state \<Rightarrow> lock_state \<Rightarrow> bool" where
  "silent_step once n s s' \<longleftrightarrow> lock_step once n s s' \<and> (\<forall>t. role s' t = Upgrading \<longrightarrow> role s t = Upgrading)"

definition unannounced :: "nat \<Rightarrow> lock_state \<Rightarrow> bool" where
  "unannounced n s \<longleftrightarrow> (\<exists>t. role s t = Owns) \<or> lbits s = lock_word (card (counted_set n s)) False False"

lemma unannounced_fails:
  assumes "lock_inv once n s" "unannounced n s" "n < 2 ^ 30"
  shows "tryExclusive (lbits s) = (lbits s, False)"
proof -
  have k: "card (counted_set n s) < 2 ^ 30"
    using card_counted_set [of n s] assms(3) by linarith
  obtain u where u: "lbits s = lock_word (card (counted_set n s)) u (\<exists>t. role s t = Owns)"
    using assms(1) unfolding lock_inv_def by blast
  show ?thesis
  proof (cases "\<exists>t. role s t = Owns")
    case True
    then show ?thesis
      using u tryExclusive_word [OF k, of u True] by simp
  next
    case False
    then show ?thesis
      using assms(2) tryExclusive_word [OF k, of False False] by (simp add: unannounced_def)
  qed
qed

lemma silent_step_unannounced:
  assumes "silent_step once n s s'" "lock_inv once n s" "unannounced n s" "n < 2 ^ 30"
  shows "unannounced n s'"
proof -
  have step: "lock_step once n s s'" and quiet: "\<And>t. role s' t = Upgrading \<Longrightarrow> role s t = Upgrading"
    using assms(1) by (auto simp: silent_step_def)
  obtain u where w: "lbits s = lock_word (card (counted_set n s)) u (\<exists>t. role s t = Owns)"
    and own: "\<And>t t'. role s t = Owns \<Longrightarrow> role s t' = Owns \<Longrightarrow> t = t'"
    using assms(2) unfolding lock_inv_def by blast
  show ?thesis
    using step
  proof cases
    case (share t v ok)
    then show ?thesis
      using assms(3) by (auto simp: unannounced_def tryShared_word card_count)
  next
    case (undo t)
    then show ?thesis
      using assms(3) by (auto simp: unannounced_def uncount_word card_uncount)
  next
    case (unshare t)
    then show ?thesis
      using assms(3) by (auto simp: unannounced_def uncount_word card_uncount)
  next
    case (upgrade t v ok)
    then have "\<not> ok"
      using quiet [of t] by auto
    then obtain a where "role s a = Owns"
      using upgrade w by (auto simp: upgrade_word)
    then have "role s' a = Owns"
      using upgrade \<open>\<not> ok\<close> by auto
    then show ?thesis
      by (auto simp: unannounced_def)
  next
    case (upgrade_once t v ok)
    then have "\<not> ok"
      using quiet [of t] by auto
    then obtain a where "role s a = Owns"
      using upgrade_once assms(3) by (auto simp: unannounced_def upgrade_word)
    then have "role s' a = Owns"
      using upgrade_once \<open>\<not> ok\<close> by auto
    then show ?thesis
      by (auto simp: unannounced_def)
  next
    case (exclusive t v ok)
    then have "s' = s"
      using unannounced_fails [OF assms(2-4)] set_role_same [of s t Upgrading] by simp
    then show ?thesis
      using assms(3) by simp
  next
    case (give_up t)
    have o: "role s' a = Owns" if "role s a = Owns" for a
      using that give_up by auto
    show ?thesis
    proof (cases "\<exists>a. role s a = Owns")
      case True
      then show ?thesis
        using o by (auto simp: unannounced_def)
    qed (use assms(3) give_up in \<open>simp add: unannounced_def\<close>)
  next
    case (release t)
    then show ?thesis
      using w by (simp add: unannounced_def release_word)
  qed
qed

lemma silent_steps_fail:
  assumes "(silent_step once n)\<^sup>*\<^sup>* s s'" "lock_inv once n s" "unannounced n s" "n < 2 ^ 30"
  shows "tryExclusive (lbits s') = (lbits s', False)"
proof -
  have "lock_inv once n s' \<and> unannounced n s'"
    using assms(1)
  proof (induction rule: rtranclp_induct)
    case (step a b)
    have "lock_step once n a b"
      using step(2) by (simp add: silent_step_def)
    then show ?case
      using step(3) lock_step_inv [of once n a b] silent_step_unannounced [OF step(2)] assms(4) by simp
  qed (use assms(2,3) in simp)
  then show ?thesis
    using unannounced_fails assms(4) by blast
qed

text \<open>
  C37. With \<^verbatim>\<open>tryUpgrade\<close> two threads can announce an upgrade at the same time, and then one announcement is lost: the exchange
  by which \<^verbatim>\<open>tryExclusive\<close> makes one of them the owner clears the bit for both. From then on every attempt of the thread
  waiting in \<^verbatim>\<open>exclusive\<close> fails, also when the lock has been released and nobody shares it, until some thread announces again.
\<close>

theorem lost_upgrade:
  assumes "(lock_step once n)\<^sup>*\<^sup>* LifeCycleLock s" "n < 2 ^ 30" "role s t = Upgrading" "role s t' = Upgrading" "t \<noteq> t'"
    "tryExclusive (lbits s) = (v, True)" "(silent_step once n)\<^sup>*\<^sup>* (set_role t Owns v s) s'"
  shows "v AND UPGRADED = 0 \<and> role (set_role t Owns v s) t' = Upgrading \<and> tryExclusive (lbits s') = (lbits s', False)"
proof -
  have i: "lock_inv once n s"
    using lock_steps_inv [OF assms(1) lock_inv_init assms(2)] .
  have "t < n"
    using i assms(3) unfolding lock_inv_def by (metis linorder_not_less role.distinct(1))
  then have "lock_step once n s (set_role t Owns v s)"
    using lock_step.exclusive [OF _ assms(3,6), of n once] by simp
  then have j: "lock_inv once n (set_role t Owns v s)"
    using lock_step_inv i assms(2) by blast
  have "unannounced n (set_role t Owns v s)"
    by (auto simp: unannounced_def)
  moreover have "v AND UPGRADED = 0"
    using assms(6) by (auto simp: tryExclusive_def compare_exchange_strong_def lock_bits split: if_splits)
  ultimately show ?thesis
    using silent_steps_fail [OF assms(7) j _ assms(2)] assms(4,5) by simp
qed

text \<open>Both announce, one gets the lock and releases it; then nobody shares or owns the lock, and the other still cannot have it.\<close>

theorem lost_upgrade_witness:
  "\<exists>s. (lock_step False 2)\<^sup>*\<^sup>* LifeCycleLock s \<and> role s 1 = Upgrading \<and> role s 0 = NoRole \<and> counted s 0 = Uncounted \<and> counted s 1 = Uncounted \<and>
     tryExclusive (lbits s) = (lbits s, False)"
proof -
  let ?a = "upgraded_lock" let ?b = "set_role 1 Upgrading UPGRADED ?a"
  let ?c = "set_role 0 Owns EXCLUSIVE ?b" let ?d = "set_role 0 NoRole 0 ?c"
  have b: "lock_step False 2 ?a ?b"
    using lock_step.upgrade [of False 1 2 ?a UPGRADED True] by (simp add: upgraded_lock_def upgrade_free)
  have c: "lock_step False 2 ?b ?c"
    using lock_step.exclusive [of 0 2 ?b EXCLUSIVE True False] by (simp add: upgraded_lock_def upgrade_free)
  have d: "lock_step False 2 ?c ?d"
    using lock_step.release [of 0 2 ?c False] by (simp add: upgrade_free)
  have "silent_step False 2 ?c ?d"
    using d by (auto simp: silent_step_def)
  then have "(silent_step False 2)\<^sup>*\<^sup>* ?c ?d"
    by (rule r_into_rtranclp)
  moreover have ab: "(lock_step False 2)\<^sup>*\<^sup>* LifeCycleLock ?b"
    using upgraded_reachable [of 2 False] b by (auto intro: converse_rtranclp_into_rtranclp)
  ultimately have "tryExclusive (lbits ?d) = (lbits ?d, False)"
    using lost_upgrade [of False 2 ?b 0 1 EXCLUSIVE ?d] by (simp add: upgraded_lock_def upgrade_free)
  moreover have "(lock_step False 2)\<^sup>*\<^sup>* LifeCycleLock ?d"
    using ab c d by (meson rtranclp.rtrancl_into_rtrancl)
  ultimately show ?thesis
    by (intro exI [of _ ?d]) (simp add: upgraded_lock_def)
qed

end
