(* ===== verification/ConcurrentHashMap.thy ===== *)
theory ConcurrentHashMap
  imports LifeCycleLock "HOL-Library.Monad_Syntax"
begin

text \<open>
  The chained hash table of \<^verbatim>\<open>include/common/concurrent_hash_map.h\<close>. The nodes live in a store addressed by pointers, as
  the code walks and relinks their \<^verbatim>\<open>hash_next\<close> fields; the pointer to a pointer that it walks with is a cell, the head of
  a bucket or the \<^verbatim>\<open>hash_next\<close> of a node. The result \<open>None\<close> of an operation means that it follows a dangling pointer or never
  returns. The hash function is a parameter. An operation runs under the lock of its bucket, which it takes and
  releases with the operations of the life cycle lock.
\<close>

section \<open>The number of buckets\<close>

definition primes :: "nat list" where
  "primes =
   [2, 3, 5, 7, 11, 13, 17, 19, 23, 29, 31, 37, 41, 43, 47, 53, 59, 61, 67, 71, 73, 79, 83, 89, 97, 103, 109, 113,
    127, 137, 139, 149, 157, 167, 179, 193, 199, 211, 227, 241, 257, 277, 293, 313, 337, 359, 383, 409, 439, 467,
    503, 541, 577, 619, 661, 709, 761, 823, 887, 953, 1031, 1109, 1193, 1289, 1381, 1493, 1613, 1741, 1879, 2029,
    2179, 2357, 2549, 2753, 2971, 3209, 3469, 3739, 4027, 4349, 4703, 5087, 5503, 5953, 6427, 6949, 7517, 8123,
    8783, 9497, 10273, 11113, 12011, 12983, 14033, 15173, 16411, 17749, 19183, 20753, 22447, 24281, 26267, 28411,
    30727, 33223, 35933, 38873, 42043, 45481, 49201, 53201, 57557, 62233, 67307, 72817, 78779, 85229, 92203, 99733,
    107897, 116731, 126271, 136607, 147793, 159871, 172933, 187091, 202409, 218971, 236897, 256279, 277261, 299951,
    324503, 351061, 379787, 410857, 444487, 480881, 520241, 562841, 608903, 658753, 712697, 771049, 834181, 902483,
    976369, 1056323, 1142821, 1236397, 1337629, 1447153, 1565659, 1693859, 1832561, 1982627, 2144977, 2320627,
    2510653, 2716249, 2938679, 3179303, 3439651, 3721303, 4026031, 4355707, 4712381, 5098259, 5515729, 5967347,
    6456007, 6984629, 7556579, 8175383, 8844859, 9569143, 10352717, 11200489, 12117689, 13109983, 14183539,
    15345007, 16601593, 17961079, 19431899, 21023161, 22744717, 24607243, 26622317, 28802401, 31160981, 33712729,
    36473443, 39460231, 42691603, 46187573, 49969847, 54061849, 58488943, 63278561, 68460391, 74066549, 80131819,
    86693767, 93793069, 101473717, 109783337, 118773397, 128499677, 139022417, 150406843, 162723577, 176048909,
    190465427, 206062531, 222936881, 241193053, 260944219, 282312799, 305431229, 330442829, 357502601, 386778277,
    418451333, 452718089, 489790921, 529899637, 573292817, 620239453, 671030513, 725980837, 785430967, 849749479,
    919334987, 994618837, 1076067617, 1164186217, 1259520799, 1362662261, 1474249943, 1594975441, 1725587117,
    1866894511, 2019773507, 2185171673, 2364114217, 2557710269, 2767159799, 2993761039, 3238918481, 3504151727,
    3791104843, 4101556399, 4294967291]"

text \<open>\<^verbatim>\<open>std::lower_bound\<close> on a sorted range: the first element that is not less, and the end of the range without one.\<close>

fun lower_bound :: "nat list \<Rightarrow> nat \<Rightarrow> nat" where
  "lower_bound [] n = 0"
| "lower_bound (x # xs) n = (if x < n then Suc (lower_bound xs n) else 0)"

definition nextBucketNum :: "nat \<Rightarrow> nat" where
  "nextBucketNum n = primes ! lower_bound (butlast primes) n"

section \<open>Nodes, cells and tables\<close>

record ('k, 'v) HashNode =
  key :: 'k
  val :: 'v
  hash_next :: nat

record ('k, 'v) hash_map =
  buckets :: "nat list"
  locks :: "bits list"
  element_size :: u64
  nodes :: "nat \<Rightarrow> ('k, 'v) HashNode option"
  unused :: nat

definition ConcurrentHashMap_locks :: "nat \<Rightarrow> nat \<Rightarrow> ('k, 'v) hash_map" where
  "ConcurrentHashMap_locks bucket_hint lock_num =
     \<lparr>buckets = replicate (nextBucketNum bucket_hint) 0, locks = replicate lock_num 0, element_size = 0,
      nodes = (\<lambda>_. None), unused = 1\<rparr>"

definition ConcurrentHashMap :: "nat \<Rightarrow> ('k, 'v) hash_map" where
  "ConcurrentHashMap bucket_hint = ConcurrentHashMap_locks bucket_hint (nextBucketNum bucket_hint)"

datatype cell = Bucket nat | Next nat

fun load :: "('k, 'v) hash_map \<Rightarrow> cell \<Rightarrow> nat option" where
  "load m (Bucket i) = (if i < length (buckets m) then Some (buckets m ! i) else None)"
| "load m (Next p) = map_option hash_next (nodes m p)"

fun store :: "cell \<Rightarrow> nat \<Rightarrow> ('k, 'v) hash_map \<Rightarrow> ('k, 'v) hash_map option" where
  "store (Bucket i) q m = (if i < length (buckets m) then Some (m\<lparr>buckets := (buckets m)[i := q]\<rparr>) else None)"
| "store (Next p) q m = map_option (\<lambda>n. m\<lparr>nodes := (nodes m)(p \<mapsto> n\<lparr>hash_next := q\<rparr>)\<rparr>) (nodes m p)"

definition new_node :: "'k \<Rightarrow> 'v \<Rightarrow> ('k, 'v) hash_map \<Rightarrow> ('k, 'v) hash_map \<times> nat" where
  "new_node k v m =
     (m\<lparr>nodes := (nodes m)(unused m \<mapsto> \<lparr>key = k, val = v, hash_next = 0\<rparr>), unused := Suc (unused m)\<rparr>, unused m)"

definition delete_node :: "nat \<Rightarrow> ('k, 'v) hash_map \<Rightarrow> ('k, 'v) hash_map" where
  "delete_node p m = m\<lparr>nodes := (nodes m)(p := None)\<rparr>"

text \<open>The walk that every operation starts with: the cell that points to the node of the key, or to nothing at the end.\<close>

partial_function (option) find_cell :: "('k, 'v) hash_map \<Rightarrow> 'k \<Rightarrow> cell \<Rightarrow> (cell \<times> nat) option" where
  "find_cell m k c =
     do {
       p \<leftarrow> load m c;
       if p = 0 then Some (c, 0)
       else do {
         n \<leftarrow> nodes m p;
         if key n = k then Some (c, p) else find_cell m k (Next p)
       }
     }"

declare find_cell.simps [code]

section \<open>The operations on a bucket\<close>

definition put_nolock :: "cell \<Rightarrow> 'k \<Rightarrow> 'v \<Rightarrow> ('k, 'v) hash_map \<Rightarrow> (('k, 'v) hash_map \<times> bool) option" where
  "put_nolock n k v m =
     do {
       (c, p) \<leftarrow> find_cell m k n;
       if p \<noteq> 0 then Some (m, False)
       else do {
         let (m1, q) = new_node k v m;
         m2 \<leftarrow> store c q m1;
         Some (m2\<lparr>element_size := element_size m2 + 1\<rparr>, True)
       }
     }"

definition exchange_nolock :: "cell \<Rightarrow> 'k \<Rightarrow> 'v \<Rightarrow> ('k, 'v) hash_map \<Rightarrow> (('k, 'v) hash_map \<times> bool \<times> 'v) option" where
  "exchange_nolock n k v m =
     do {
       (c, p) \<leftarrow> find_cell m k n;
       if p \<noteq> 0 then do {
         x \<leftarrow> nodes m p;
         Some (m\<lparr>nodes := (nodes m)(p \<mapsto> x\<lparr>val := v\<rparr>)\<rparr>, True, val x)
       } else do {
         let (m1, q) = new_node k v m;
         m2 \<leftarrow> store c q m1;
         Some (m2\<lparr>element_size := element_size m2 + 1\<rparr>, False, v)
       }
     }"

definition get_nolock :: "cell \<Rightarrow> 'k \<Rightarrow> ('k, 'v) hash_map \<Rightarrow> 'v option option" where
  "get_nolock n k m =
     do {
       (c, p) \<leftarrow> find_cell m k n;
       if p \<noteq> 0 then do { x \<leftarrow> nodes m p; Some (Some (val x)) } else Some None
     }"

definition erase_nolock :: "bool \<Rightarrow> cell \<Rightarrow> 'k \<Rightarrow> ('k, 'v) hash_map \<Rightarrow> (('k, 'v) hash_map \<times> bool) option" where
  "erase_nolock is_intrusive n k m =
     do {
       (c, q) \<leftarrow> find_cell m k n;
       if q \<noteq> 0 then do {
         x \<leftarrow> nodes m q;
         m1 \<leftarrow> store c (hash_next x) m;
         let m2 = (if \<not> is_intrusive then delete_node q m1 else m1);
         Some (m2\<lparr>element_size := element_size m2 - 1\<rparr>, True)
       } else Some (m, False)
     }"

text \<open>The intrusive operations link nodes of the caller and hand nodes back to it.\<close>

definition intrusive_put_nolock :: "cell \<Rightarrow> 'k \<Rightarrow> nat \<Rightarrow> ('k, 'v) hash_map \<Rightarrow> (('k, 'v) hash_map \<times> bool) option" where
  "intrusive_put_nolock n k v m =
     do {
       (c, p) \<leftarrow> find_cell m k n;
       if p \<noteq> 0 then Some (m, False)
       else do {
         m1 \<leftarrow> store c v m;
         Some (m1\<lparr>element_size := element_size m1 + 1\<rparr>, True)
       }
     }"

definition intrusive_exchange_nolock :: "cell \<Rightarrow> 'k \<Rightarrow> nat \<Rightarrow> ('k, 'v) hash_map \<Rightarrow> (('k, 'v) hash_map \<times> bool \<times> nat) option" where
  "intrusive_exchange_nolock n k v m =
     do {
       (c, p) \<leftarrow> find_cell m k n;
       m1 \<leftarrow> store c v m;
       Some (if p \<noteq> 0 then (m1, True, p) else (m1\<lparr>element_size := element_size m1 + 1\<rparr>, False, v))
     }"

definition intrusive_get_nolock :: "cell \<Rightarrow> 'k \<Rightarrow> ('k, 'v) hash_map \<Rightarrow> (bool \<times> nat) option" where
  "intrusive_get_nolock n k m = do { (c, p) \<leftarrow> find_cell m k n; Some (p \<noteq> 0, p) }"

definition intrusive_erase_nolock :: "cell \<Rightarrow> 'k \<Rightarrow> ('k, 'v) hash_map \<Rightarrow> (('k, 'v) hash_map \<times> bool \<times> nat) option" where
  "intrusive_erase_nolock n k m =
     do {
       (c, q) \<leftarrow> find_cell m k n;
       if q \<noteq> 0 then do {
         x \<leftarrow> nodes m q;
         m1 \<leftarrow> store c (hash_next x) m;
         Some (m1\<lparr>element_size := element_size m1 - 1\<rparr>, True, q)
       } else Some (m, False, 0)
     }"

section \<open>The operations of the table\<close>

definition get_bucket_idx :: "('k \<Rightarrow> nat) \<Rightarrow> ('k, 'v) hash_map \<Rightarrow> 'k \<Rightarrow> nat" where
  "get_bucket_idx hasher m k = hasher k mod length (buckets m)"

definition get_entry :: "('k \<Rightarrow> nat) \<Rightarrow> ('k, 'v) hash_map \<Rightarrow> 'k \<Rightarrow> cell \<times> nat" where
  "get_entry hasher m k =
     (let offset = hasher k mod length (buckets m); lock_offset = offset mod length (locks m)
      in (Bucket offset, lock_offset))"

text \<open>
  \<^verbatim>\<open>while (true) { if (lock->tryUpgrade() && lock->tryExclusive()) break; }\<close> for one thread alone: when the attempt fails
  nobody releases the lock and the loop does not end.
\<close>

definition lock_exclusive :: "nat \<Rightarrow> ('k, 'v) hash_map \<Rightarrow> ('k, 'v) hash_map option" where
  "lock_exclusive l m =
     (if l < length (locks m) then
        let (v, up) = tryUpgrade (locks m ! l); (w, ok) = (if up then tryExclusive v else (v, False))
        in if ok then Some (m\<lparr>locks := (locks m)[l := w]\<rparr>) else None
      else None)"

definition unlock_exclusive :: "nat \<Rightarrow> ('k, 'v) hash_map \<Rightarrow> ('k, 'v) hash_map" where
  "unlock_exclusive l m = m\<lparr>locks := (locks m)[l := releaseExclusive (locks m ! l)]\<rparr>"

definition lock_shared :: "nat \<Rightarrow> ('k, 'v) hash_map \<Rightarrow> ('k, 'v) hash_map option" where
  "lock_shared l m =
     (if l < length (locks m) then
        let (v, ok) = tryShared (locks m ! l) in if ok then Some (m\<lparr>locks := (locks m)[l := v]\<rparr>) else None
      else None)"

definition unlock_shared :: "nat \<Rightarrow> ('k, 'v) hash_map \<Rightarrow> ('k, 'v) hash_map" where
  "unlock_shared l m = m\<lparr>locks := (locks m)[l := releaseShared (locks m ! l)]\<rparr>"

definition put :: "('k \<Rightarrow> nat) \<Rightarrow> 'k \<Rightarrow> 'v \<Rightarrow> ('k, 'v) hash_map \<Rightarrow> (('k, 'v) hash_map \<times> bool) option" where
  "put hasher k v m =
     (let (n, l) = get_entry hasher m k in
      do {
        m1 \<leftarrow> lock_exclusive l m;
        (m2, ret) \<leftarrow> put_nolock n k v m1;
        Some (unlock_exclusive l m2, ret)
      })"

definition exchange :: "('k \<Rightarrow> nat) \<Rightarrow> 'k \<Rightarrow> 'v \<Rightarrow> ('k, 'v) hash_map \<Rightarrow> (('k, 'v) hash_map \<times> bool \<times> 'v) option" where
  "exchange hasher k v m =
     (let (n, l) = get_entry hasher m k in
      do {
        m1 \<leftarrow> lock_exclusive l m;
        (m2, ret, old) \<leftarrow> exchange_nolock n k v m1;
        Some (unlock_exclusive l m2, ret, old)
      })"

definition get :: "('k \<Rightarrow> nat) \<Rightarrow> 'k \<Rightarrow> ('k, 'v) hash_map \<Rightarrow> (('k, 'v) hash_map \<times> 'v option) option" where
  "get hasher k m =
     (let (n, l) = get_entry hasher m k in
      do {
        m1 \<leftarrow> lock_shared l m;
        ret \<leftarrow> get_nolock n k m1;
        Some (unlock_shared l m1, ret)
      })"

definition erase :: "('k \<Rightarrow> nat) \<Rightarrow> 'k \<Rightarrow> ('k, 'v) hash_map \<Rightarrow> (('k, 'v) hash_map \<times> bool) option" where
  "erase hasher k m =
     (let (n, l) = get_entry hasher m k in
      do {
        m1 \<leftarrow> lock_exclusive l m;
        (m2, ret) \<leftarrow> erase_nolock False n k m1;
        Some (unlock_exclusive l m2, ret)
      })"

section \<open>Chains\<close>

fun chain :: "(nat \<Rightarrow> ('k, 'v) HashNode option) \<Rightarrow> nat \<Rightarrow> nat list \<Rightarrow> bool" where
  "chain h p [] \<longleftrightarrow> p = 0"
| "chain h p (a # as) \<longleftrightarrow> p = a \<and> a \<noteq> 0 \<and> (\<exists>n. h a = Some n \<and> chain h (hash_next n) as)"

definition key_of :: "(nat \<Rightarrow> ('k, 'v) HashNode option) \<Rightarrow> nat \<Rightarrow> 'k" where
  "key_of h p = key (the (h p))"

definition cell_after :: "cell \<Rightarrow> nat list \<Rightarrow> cell" where
  "cell_after c as = (if as = [] then c else Next (last as))"

definition first_ptr :: "nat list \<Rightarrow> nat" where
  "first_ptr ps = (case ps of [] \<Rightarrow> 0 | p # _ \<Rightarrow> p)"

lemma first_ptr_simps [simp]: "first_ptr [] = 0" "first_ptr (p # ps) = p"
  by (simp_all add: first_ptr_def)

lemma cell_after_Cons [simp]: "cell_after c (a # as) = cell_after (Next a) as"
  by (simp add: cell_after_def)

lemma cell_after_Nil [simp]: "cell_after c [] = c"
  by (simp add: cell_after_def)

lemma chain_alloc: "chain h p ps \<Longrightarrow> a \<in> set ps \<Longrightarrow> a \<noteq> 0 \<and> h a \<noteq> None"
  by (induction h p ps rule: chain.induct) auto

lemma chain_frame:
  assumes "chain h p ps" "\<And>a. a \<in> set ps \<Longrightarrow> map_option hash_next (h' a) = map_option hash_next (h a)"
  shows "chain h' p ps"
  using assms
proof (induction h p ps rule: chain.induct)
  case (2 h p a as)
  then obtain n where n: "h a = Some n" "chain h (hash_next n) as" "p = a" "a \<noteq> 0"
    by auto
  moreover from n(1) 2(3) [of a] obtain n' where "h' a = Some n'" "hash_next n' = hash_next n"
    by auto
  ultimately show ?case
    using 2 by auto
qed simp

lemma chain_append: "chain h p (as @ b # bs) \<Longrightarrow> chain h b (b # bs)"
  by (induction h p as rule: chain.induct) auto

lemma find_cell_chain:
  assumes "load m c = Some p" "chain (nodes m) p ps"
  shows "find_cell m k c =
    Some (cell_after c (takeWhile (\<lambda>a. key_of (nodes m) a \<noteq> k) ps), first_ptr (dropWhile (\<lambda>a. key_of (nodes m) a \<noteq> k) ps))"
  using assms
proof (induction ps arbitrary: c p)
  case Nil
  then show ?case
    by (subst find_cell.simps) simp
next
  case (Cons a as)
  then obtain n where n: "nodes m a = Some n" "chain (nodes m) (hash_next n) as" "p = a" "a \<noteq> 0"
    by auto
  then have "find_cell m k (Next a) = Some (cell_after (Next a) (takeWhile (\<lambda>a. key_of (nodes m) a \<noteq> k) as),
      first_ptr (dropWhile (\<lambda>a. key_of (nodes m) a \<noteq> k) as))"
    by (intro Cons(1)) simp_all
  then show ?case
    using n Cons(2) by (subst find_cell.simps) (simp add: key_of_def)
qed

lemma chain_relink:
  assumes "chain h p (as @ bs)" "as \<noteq> []" "distinct as" "h (last as) = Some n"
    and "chain (h(last as \<mapsto> n\<lparr>hash_next := v\<rparr>)) v bs'"
  shows "chain (h(last as \<mapsto> n\<lparr>hash_next := v\<rparr>)) p (as @ bs')"
  using assms
proof (induction as arbitrary: p)
  case (Cons a as)
  show ?case
  proof (cases "as = []")
    case True
    then show ?thesis
      using Cons by simp
  next
    case False
    obtain x where x: "h a = Some x" "chain h (hash_next x) (as @ bs)" "p = a" "a \<noteq> 0"
      using Cons(2) by auto
    have "chain (h(last as \<mapsto> n\<lparr>hash_next := v\<rparr>)) (hash_next x) (as @ bs')"
      using Cons x False by (simp del: fun_upd_apply)
    moreover have "a \<noteq> last as"
      using Cons(4) False by auto
    ultimately show ?thesis
      using x False by (simp del: fun_upd_apply add: fun_upd_other)
  qed
qed simp

text \<open>
  Storing behind a prefix of the chain of a bucket changes what follows the prefix. Nothing else changes: not the other
  buckets, not the nodes outside the prefix, not the keys and values of the nodes.
\<close>

definition entry_of :: "('k, 'v) HashNode \<Rightarrow> 'k \<times> 'v" where
  "entry_of n = (key n, val n)"

definition relinks :: "nat \<Rightarrow> nat list \<Rightarrow> ('k, 'v) hash_map \<Rightarrow> ('k, 'v) hash_map \<Rightarrow> bool" where
  "relinks i as m m' \<longleftrightarrow>
     length (buckets m') = length (buckets m) \<and> (\<forall>j. j \<noteq> i \<longrightarrow> buckets m' ! j = buckets m ! j) \<and>
     locks m' = locks m \<and> element_size m' = element_size m \<and> unused m' = unused m \<and>
     (\<forall>p. p \<notin> set as \<longrightarrow> nodes m' p = nodes m p) \<and>
     (\<forall>p. map_option entry_of (nodes m' p) = map_option entry_of (nodes m p))"

lemma store_after:
  assumes "i < length (buckets m)" "chain (nodes m) (buckets m ! i) (as @ bs)" "distinct as"
  obtains m' where "store (cell_after (Bucket i) as) v m = Some m'" "relinks i as m m'"
    "\<And>bs'. chain (nodes m') v bs' \<Longrightarrow> chain (nodes m') (buckets m' ! i) (as @ bs')"
proof (cases "as = []")
  case True
  then show ?thesis
    using assms that [of "m\<lparr>buckets := (buckets m)[i := v]\<rparr>"] by (simp add: relinks_def)
next
  case False
  then obtain n where n: "nodes m (last as) = Some n"
    using chain_alloc [OF assms(2), of "last as"] by auto
  show ?thesis
  proof (rule that)
    show "store (cell_after (Bucket i) as) v m = Some (m\<lparr>nodes := (nodes m)(last as \<mapsto> n\<lparr>hash_next := v\<rparr>)\<rparr>)"
      using False n by (simp add: cell_after_def)
    show "relinks i as m (m\<lparr>nodes := (nodes m)(last as \<mapsto> n\<lparr>hash_next := v\<rparr>)\<rparr>)"
      using False n by (auto simp: relinks_def entry_of_def)
  qed (use chain_relink [OF assms(2) False assms(3) n, of v] in simp)
qed

section \<open>The invariant and the map it stands for\<close>

text \<open>
  Every node of the chain of a bucket has a key of that bucket, and no two of them the same; the table counts its nodes,
  and the unused addresses are unused.
\<close>

definition bucket_ok :: "('k \<Rightarrow> nat) \<Rightarrow> ('k, 'v) hash_map \<Rightarrow> nat \<Rightarrow> nat list \<Rightarrow> bool" where
  "bucket_ok hasher m i ps \<longleftrightarrow> chain (nodes m) (buckets m ! i) ps \<and> distinct (map (key_of (nodes m)) ps) \<and>
     (\<forall>p \<in> set ps. get_bucket_idx hasher m (key_of (nodes m) p) = i)"

definition table_inv :: "('k \<Rightarrow> nat) \<Rightarrow> ('k, 'v) hash_map \<Rightarrow> nat list list \<Rightarrow> bool" where
  "table_inv hasher m css \<longleftrightarrow> length css = length (buckets m) \<and> buckets m \<noteq> [] \<and>
     (\<forall>i < length css. bucket_ok hasher m i (css ! i)) \<and>
     (\<forall>p. nodes m p \<noteq> None \<longrightarrow> 0 < p \<and> p < unused m) \<and> 0 < unused m \<and>
     element_size m = of_nat (sum_list (map length css))"

definition entries :: "('k, 'v) hash_map \<Rightarrow> nat list \<Rightarrow> ('k \<times> 'v) list" where
  "entries m ps = map (\<lambda>p. entry_of (the (nodes m p))) ps"

definition table_map :: "('k \<Rightarrow> nat) \<Rightarrow> ('k, 'v) hash_map \<Rightarrow> nat list list \<Rightarrow> 'k \<Rightarrow> 'v option" where
  "table_map hasher m css k = map_of (entries m (css ! get_bucket_idx hasher m k)) k"

lemma bucket_idx_less [simp]: "buckets m \<noteq> [] \<Longrightarrow> get_bucket_idx hasher m k < length (buckets m)"
  by (simp add: get_bucket_idx_def)

lemma get_bucket_idx_cong: "length (buckets m') = length (buckets m) \<Longrightarrow> get_bucket_idx hasher m' = get_bucket_idx hasher m"
  by (simp add: get_bucket_idx_def fun_eq_iff)

lemma bucket_ok_distinct: "bucket_ok hasher m i ps \<Longrightarrow> distinct ps"
  by (auto simp: bucket_ok_def distinct_map)

lemma bucket_ok_frame:
  assumes "bucket_ok hasher m j ps" "length (buckets m') = length (buckets m)" "buckets m' ! j = buckets m ! j"
    and "\<And>p. p \<in> set ps \<Longrightarrow> nodes m' p = nodes m p"
  shows "bucket_ok hasher m' j ps" "entries m' ps = entries m ps"
proof -
  have "map (key_of (nodes m')) ps = map (key_of (nodes m)) ps"
    using assms(4) by (simp add: key_of_def)
  then have "distinct (map (key_of (nodes m')) ps)"
    using assms(1) by (simp only: bucket_ok_def)
  then show "bucket_ok hasher m' j ps"
    using assms chain_frame [of "nodes m" "buckets m ! j" ps "nodes m'"]
    by (auto simp: bucket_ok_def get_bucket_idx_cong [OF assms(2)] key_of_def)
  show "entries m' ps = entries m ps"
    using assms(4) by (simp add: entries_def)
qed

lemma table_invD:
  assumes "table_inv hasher m css"
  shows "length css = length (buckets m)" "buckets m \<noteq> []" "i < length css \<Longrightarrow> bucket_ok hasher m i (css ! i)"
    "nodes m p \<noteq> None \<Longrightarrow> 0 < p \<and> p < unused m" "0 < unused m" "element_size m = of_nat (sum_list (map length css))"
  using assms by (auto simp: table_inv_def)

lemma chain_disjoint:
  assumes "table_inv hasher m css" "i < length css" "j < length css" "i \<noteq> j" "p \<in> set (css ! i)"
  shows "p \<notin> set (css ! j)"
  using table_invD(3) [OF assms(1), of i] table_invD(3) [OF assms(1), of j] assms by (auto simp: bucket_ok_def)

text \<open>Replacing the chain of one bucket.\<close>

lemma table_update:
  assumes inv: "table_inv hasher m css" and i: "i < length css"
    and same: "length (buckets m') = length (buckets m)" "\<And>j. j \<noteq> i \<Longrightarrow> buckets m' ! j = buckets m ! j"
    and other: "\<And>p. p \<in> dom (nodes m) \<Longrightarrow> p \<notin> set (css ! i) \<Longrightarrow> nodes m' p = nodes m p"
    and ok: "bucket_ok hasher m' i ps"
    and fresh: "\<And>p. nodes m' p \<noteq> None \<Longrightarrow> 0 < p \<and> p < unused m'" "0 < unused m'"
    and size: "element_size m' + of_nat (length (css ! i)) = element_size m + of_nat (length ps)"
  shows "table_inv hasher m' (css[i := ps])"
    and "table_map hasher m' (css[i := ps]) k =
      (if get_bucket_idx hasher m k = i then map_of (entries m' ps) k else table_map hasher m css k)"
proof -
  note I = table_invD [OF inv]
  have frame: "bucket_ok hasher m' j (css ! j)" "entries m' (css ! j) = entries m (css ! j)"
    if "j < length css" "j \<noteq> i" for j
  proof -
    have "nodes m' p = nodes m p" if "p \<in> set (css ! j)" for p
      using that other [of p] chain_disjoint [OF inv _ i \<open>j \<noteq> i\<close>] I(3) [of j] \<open>j < length css\<close>
        chain_alloc [of "nodes m" "buckets m ! j" "css ! j" p] by (auto simp: bucket_ok_def)
    then show "bucket_ok hasher m' j (css ! j)" "entries m' (css ! j) = entries m (css ! j)"
      using bucket_ok_frame [OF I(3) same(1) same(2)] that by blast+
  qed
  have le: "length (css ! i) \<le> sum_list (map length css)"
    using i by (metis length_map member_le_sum_list nth_map nth_mem zero_le)
  have "sum_list (map length (css[i := ps])) + length (css ! i) = sum_list (map length css) + length ps"
    using i le by (simp add: map_update sum_list_update)
  then have "(of_nat (sum_list (map length (css[i := ps]))) :: u64) + of_nat (length (css ! i)) =
      of_nat (sum_list (map length css)) + of_nat (length ps)"
    by (metis of_nat_add)
  then have "element_size m' = of_nat (sum_list (map length (css[i := ps])))"
    using size I(6) by (metis add_right_cancel)
  moreover have "bucket_ok hasher m' j (css[i := ps] ! j)" if "j < length css" for j
    using that ok frame(1) by (cases "j = i") auto
  ultimately show "table_inv hasher m' (css[i := ps])"
    using I same fresh by (auto simp: table_inv_def)
  show "table_map hasher m' (css[i := ps]) k =
      (if get_bucket_idx hasher m k = i then map_of (entries m' ps) k else table_map hasher m css k)"
    using I(1,2) i frame(2) by (auto simp: table_map_def get_bucket_idx_cong [OF same(1)])
qed

lemma relinksD:
  assumes "relinks i as m m'"
  shows "key_of (nodes m') = key_of (nodes m)" "entries m' = entries m" "nodes m' p = None \<longleftrightarrow> nodes m p = None"
proof -
  have e: "map_option entry_of (nodes m' p) = map_option entry_of (nodes m p)" for p
    using assms by (simp add: relinks_def)
  have "key_of (nodes m') p = key_of (nodes m) p" "entry_of (the (nodes m' p)) = entry_of (the (nodes m p))" for p
    using e [of p] by (cases "nodes m p"; cases "nodes m' p"; simp add: key_of_def entry_of_def)+
  then show "key_of (nodes m') = key_of (nodes m)" "entries m' = entries m"
    by (simp_all add: entries_def fun_eq_iff)
  show "nodes m' p = None \<longleftrightarrow> nodes m p = None"
    using e [of p] by (metis map_option_is_None)
qed

lemma fst_entries: "map fst (entries m ps) = map (key_of (nodes m)) ps"
  by (simp add: entries_def entry_of_def key_of_def)

text \<open>Linking a node behind the last one of its bucket, and unlinking a node.\<close>

lemma link_last:
  assumes inv: "table_inv hasher m css" and i: "i = get_bucket_idx hasher m k"
    and new: "k \<notin> set (map (key_of (nodes m)) (css ! i))"
    and q: "nodes m q = Some n" "key n = k" "hash_next n = 0" "q \<notin> set (css ! i)"
  obtains m1 m2 where "store (cell_after (Bucket i) (css ! i)) q m = Some m1"
    "m2 = m1\<lparr>element_size := element_size m1 + 1\<rparr>" "relinks i (css ! i) m m1"
    "table_inv hasher m2 (css[i := css ! i @ [q]])" "table_map hasher m2 (css[i := css ! i @ [q]]) = (table_map hasher m css)(k \<mapsto> val n)"
proof -
  note I = table_invD [OF inv]
  have il: "i < length css"
    using I(1,2) i by simp
  have ok: "bucket_ok hasher m i (css ! i)"
    using I(3) il by simp
  then have "chain (nodes m) (buckets m ! i) (css ! i @ [])" "distinct (css ! i)"
    using bucket_ok_distinct by (auto simp: bucket_ok_def)
  then obtain m1 where m1: "store (cell_after (Bucket i) (css ! i)) q m = Some m1" "relinks i (css ! i) m m1"
    "\<And>bs'. chain (nodes m1) q bs' \<Longrightarrow> chain (nodes m1) (buckets m1 ! i) (css ! i @ bs')"
    using store_after [of i m "css ! i" "[]" q] il I(1) by auto
  note R = relinksD [OF m1(2)]
  define m2 where "m2 = m1\<lparr>element_size := element_size m1 + 1\<rparr>"
  have q1: "nodes m1 q = Some n"
    using m1(2) q by (simp add: relinks_def)
  have "chain (nodes m1) (buckets m1 ! i) (css ! i @ [q])"
    using I(4) [of q] q q1 by (intro m1(3)) auto
  moreover have "key_of (nodes m) q = k"
    using q by (simp add: key_of_def)
  ultimately have "bucket_ok hasher m2 i (css ! i @ [q])"
    using ok new i m1(2) get_bucket_idx_cong [of m2 m hasher]
    by (auto simp: bucket_ok_def m2_def R(1) relinks_def)
  then have "table_inv hasher m2 (css[i := css ! i @ [q]])"
    "\<And>k'. table_map hasher m2 (css[i := css ! i @ [q]]) k' =
      (if get_bucket_idx hasher m k' = i then map_of (entries m2 (css ! i @ [q])) k' else table_map hasher m css k')"
    using I(4,5) R(3) m1(2) by (intro table_update [OF inv il]; auto simp: m2_def relinks_def)+
  moreover have "entries m2 (css ! i @ [q]) = entries m1 (css ! i @ [q])"
    by (simp add: m2_def entries_def)
  then have "entries m2 (css ! i @ [q]) = entries m (css ! i) @ [(k, val n)]"
    unfolding R(2) using q by (simp add: entries_def entry_of_def)
  moreover have "map_of (entries m (css ! i)) k = None"
    using new by (auto simp: map_of_eq_None_iff entries_def entry_of_def key_of_def)
  ultimately have "table_map hasher m2 (css[i := css ! i @ [q]]) = (table_map hasher m css)(k \<mapsto> val n)"
    using i by (auto simp: fun_eq_iff table_map_def map_add_def split: option.splits)
  then show ?thesis
    using that [OF m1(1) m2_def m1(2)] \<open>table_inv hasher m2 (css[i := css ! i @ [q]])\<close> by blast
qed

lemma unlink:
  assumes inv: "table_inv hasher m css" and i: "i = get_bucket_idx hasher m k"
    and split: "css ! i = as @ q # bs" "key_of (nodes m) q = k"
  obtains n m1 m2 where "nodes m q = Some n" "store (cell_after (Bucket i) as) (hash_next n) m = Some m1"
    "m2 = m1\<lparr>element_size := element_size m1 - 1\<rparr>" "relinks i as m m1"
    "table_inv hasher m2 (css[i := as @ bs])" "table_map hasher m2 (css[i := as @ bs]) = (table_map hasher m css)(k := None)"
proof -
  note I = table_invD [OF inv]
  have il: "i < length css"
    using I(1,2) i by simp
  have ok: "bucket_ok hasher m i (as @ q # bs)"
    using I(3) [OF il] split(1) by simp
  then have c: "chain (nodes m) (buckets m ! i) (as @ q # bs)"
    by (simp add: bucket_ok_def)
  have d: "distinct (as @ q # bs)"
    by (rule bucket_ok_distinct [OF ok])
  from chain_append [OF c] obtain n where n: "nodes m q = Some n" "chain (nodes m) (hash_next n) bs"
    by auto
  obtain m1 where m1: "store (cell_after (Bucket i) as) (hash_next n) m = Some m1" "relinks i as m m1"
    "\<And>bs'. chain (nodes m1) (hash_next n) bs' \<Longrightarrow> chain (nodes m1) (buckets m1 ! i) (as @ bs')"
    using store_after [of i m as "q # bs" "hash_next n"] il I(1) c d by auto
  note R = relinksD [OF m1(2)]
  define m2 where "m2 = m1\<lparr>element_size := element_size m1 - 1\<rparr>"
  have "chain (nodes m1) (hash_next n) bs"
    using n(2) d m1(2) by (intro chain_frame [OF n(2)]) (auto simp: relinks_def)
  from m1(3) [OF this] have "bucket_ok hasher m2 i (as @ bs)"
    using ok m1(2) get_bucket_idx_cong [of m2 m hasher] by (auto simp: bucket_ok_def m2_def R(1) relinks_def)
  then have "table_inv hasher m2 (css[i := as @ bs])"
    "\<And>k'. table_map hasher m2 (css[i := as @ bs]) k' =
      (if get_bucket_idx hasher m k' = i then map_of (entries m2 (as @ bs)) k' else table_map hasher m css k')"
    using I(4,5) R(3) m1(2) by (intro table_update [OF inv il]; auto simp: split(1) m2_def relinks_def)+
  moreover have "entries m2 (as @ bs) = entries m1 (as @ bs)"
    by (simp add: m2_def entries_def)
  then have e: "entries m2 (as @ bs) = entries m as @ entries m bs"
    unfolding R(2) by (simp add: entries_def)
  moreover have "map_of (entries m as @ entries m bs) k' = (if k' = k then None else map_of (entries m (css ! i)) k')" for k'
  proof -
    have "k \<notin> set (map (key_of (nodes m)) (as @ bs))"
      using ok split(2) by (auto simp: bucket_ok_def)
    then have "map_of (entries m (as @ bs)) k = None"
      unfolding map_of_eq_None_iff set_map [symmetric] fst_entries .
    then have "map_of (entries m as @ entries m bs) k = None"
      by (simp only: entries_def map_append)
    moreover have "entries m (css ! i) = entries m as @ (k, val n) # entries m bs"
      using split n by (simp add: entries_def entry_of_def key_of_def)
    ultimately show ?thesis
      by (auto simp: map_add_def split: option.splits)
  qed
  ultimately have "table_map hasher m2 (css[i := as @ bs]) = (table_map hasher m css)(k := None)"
    using i by (simp add: fun_eq_iff table_map_def)
  then show ?thesis
    using that [OF n(1) m1(1) m2_def m1(2)] \<open>table_inv hasher m2 (css[i := as @ bs])\<close> by blast
qed

text \<open>Allocating a node, freeing one that is in no chain and replacing a value.\<close>

lemma new_node_inv:
  assumes "table_inv hasher m css" "new_node k v m = (m1, q)"
  shows "table_inv hasher m1 css" "table_map hasher m1 css = table_map hasher m css"
    and "nodes m1 q = Some \<lparr>key = k, val = v, hash_next = 0\<rparr>" "i < length css \<Longrightarrow> q \<notin> set (css ! i)"
    and "locks m1 = locks m" "get_bucket_idx hasher m1 = get_bucket_idx hasher m"
proof -
  note I = table_invD [OF assms(1)]
  have m1: "m1 = m\<lparr>nodes := (nodes m)(unused m \<mapsto> \<lparr>key = k, val = v, hash_next = 0\<rparr>), unused := Suc (unused m)\<rparr>"
    and q: "q = unused m"
    using assms(2) by (auto simp: new_node_def)
  have out: "unused m \<notin> set (css ! i)" if "i < length css" for i
    using I(3) [OF that] I(4) [of "unused m"] chain_alloc [of "nodes m" "buckets m ! i" "css ! i" "unused m"]
    by (auto simp: bucket_ok_def)
  then have same: "nodes m1 p = nodes m p" if "i < length css" "p \<in> set (css ! i)" for i p
    using that by (auto simp: m1)
  have frame: "bucket_ok hasher m1 i (css ! i)" "entries m1 (css ! i) = entries m (css ! i)" if "i < length css" for i
    using bucket_ok_frame [OF I(3) [OF that] _ _ same [OF that]] by (simp_all add: m1)
  show "table_inv hasher m1 css"
    using I frame(1) by (auto simp: table_inv_def m1 less_Suc_eq)
  show idx: "get_bucket_idx hasher m1 = get_bucket_idx hasher m"
    by (simp add: m1 get_bucket_idx_def fun_eq_iff)
  show "table_map hasher m1 css = table_map hasher m css"
    using I(1,2) frame(2) by (simp add: table_map_def fun_eq_iff idx)
  show "q \<notin> set (css ! i)" if "i < length css"
    using out that q by simp
qed (use assms(2) in \<open>auto simp: new_node_def\<close>)

lemma delete_node_inv:
  assumes "table_inv hasher m css" "\<And>i. i < length css \<Longrightarrow> q \<notin> set (css ! i)"
  shows "table_inv hasher (delete_node q m) css" "table_map hasher (delete_node q m) css = table_map hasher m css"
proof -
  note I = table_invD [OF assms(1)]
  have same: "nodes (delete_node q m) p = nodes m p" if "i < length css" "p \<in> set (css ! i)" for i p
    using that assms(2) by (auto simp: delete_node_def)
  have frame: "bucket_ok hasher (delete_node q m) i (css ! i)" "entries (delete_node q m) (css ! i) = entries m (css ! i)"
    if "i < length css" for i
    using bucket_ok_frame [OF I(3) [OF that] _ _ same [OF that]] by (simp_all add: delete_node_def)
  then show "table_inv hasher (delete_node q m) css"
    using I by (auto simp: table_inv_def delete_node_def)
  have "get_bucket_idx hasher (delete_node q m) = get_bucket_idx hasher m"
    by (simp add: delete_node_def get_bucket_idx_def fun_eq_iff)
  then show "table_map hasher (delete_node q m) css = table_map hasher m css"
    using I(1,2) frame(2) by (simp add: table_map_def fun_eq_iff)
qed

lemma map_of_set_value:
  assumes "k \<in> fst ` set xs"
  shows "map_of (map (\<lambda>(k', x). (k', if k' = k then v else x)) xs) k' = (if k' = k then Some v else map_of xs k')"
proof -
  have "map_of (map (\<lambda>(k', x). (k', if k' = k then v else x)) xs) k' = map_option (\<lambda>x. if k' = k then v else x) (map_of xs k')"
    by (induction xs) auto
  moreover have "\<exists>x. map_of xs k = Some x"
    using assms by (metis domIff map_of_eq_None_iff option.exhaust)
  ultimately show ?thesis
    by (cases "map_of xs k'") auto
qed

lemma set_value_inv:
  assumes "table_inv hasher m css" "i = get_bucket_idx hasher m k" "q \<in> set (css ! i)" "key_of (nodes m) q = k" "nodes m q = Some n"
  shows "table_inv hasher (m\<lparr>nodes := (nodes m)(q \<mapsto> n\<lparr>val := v\<rparr>)\<rparr>) css"
    and "table_map hasher (m\<lparr>nodes := (nodes m)(q \<mapsto> n\<lparr>val := v\<rparr>)\<rparr>) css = (table_map hasher m css)(k \<mapsto> v)"
proof -
  let ?m = "m\<lparr>nodes := (nodes m)(q \<mapsto> n\<lparr>val := v\<rparr>)\<rparr>"
  note I = table_invD [OF assms(1)]
  have il: "i < length css"
    using I(1,2) assms(2) by simp
  have key: "key_of (nodes ?m) = key_of (nodes m)"
    using assms(5) by (auto simp: key_of_def fun_eq_iff)
  have dom: "nodes ?m p \<noteq> None \<Longrightarrow> 0 < p \<and> p < unused m" for p
    using I(4) [of p] I(4) [of q] assms(5) by (auto split: if_splits)
  have "bucket_ok hasher m i (css ! i)"
    using I(3) [OF il] .
  then have ok: "bucket_ok hasher ?m i (css ! i)"
    unfolding bucket_ok_def key get_bucket_idx_def
    using assms(5) chain_frame [of "nodes m" "buckets m ! i" "css ! i" "nodes ?m"] by auto
  have other: "nodes ?m p = nodes m p" if "p \<notin> set (css ! i)" for p
    using that assms(3) by auto
  have "table_inv hasher ?m (css[i := css ! i])"
    by (rule table_update(1) [OF assms(1) il _ _ _ ok]) (use dom other I(5) in auto)
  then show "table_inv hasher ?m css"
    by simp
  have M: "table_map hasher ?m (css[i := css ! i]) k' =
      (if get_bucket_idx hasher m k' = i then map_of (entries ?m (css ! i)) k' else table_map hasher m css k')" for k'
    by (rule table_update(2) [OF assms(1) il _ _ _ ok]) (use dom other I(5) in auto)
  have "distinct (map (key_of (nodes m)) (css ! i))"
    using I(3) [OF il] by (simp only: bucket_ok_def)
  then have "entries ?m (css ! i) = map (\<lambda>(k', x). (k', if k' = k then v else x)) (entries m (css ! i))"
    using assms(3-5) by (auto simp: entries_def entry_of_def key_of_def distinct_map inj_on_def)
  moreover have "k \<in> fst ` set (entries m (css ! i))"
    using assms(3,4) by (force simp: entries_def entry_of_def key_of_def)
  ultimately have "map_of (entries ?m (css ! i)) k' = (if k' = k then Some v else map_of (entries m (css ! i)) k')" for k'
    using map_of_set_value [of k "entries m (css ! i)" v k'] by simp
  then show "table_map hasher ?m css = (table_map hasher m css)(k \<mapsto> v)"
    using M assms(2) by (simp add: fun_eq_iff) (simp add: table_map_def)
qed

text \<open>The walk ends at the node of the key if the map has one, and behind the last node of the bucket otherwise.\<close>

lemma find_bucket:
  assumes inv: "table_inv hasher m css" and i: "i = get_bucket_idx hasher m k"
  obtains (absent) "table_map hasher m css k = None" "k \<notin> set (map (key_of (nodes m)) (css ! i))"
      "find_cell m k (Bucket i) = Some (cell_after (Bucket i) (css ! i), 0)"
  | (present) as q bs n where "css ! i = as @ q # bs" "key_of (nodes m) q = k" "nodes m q = Some n" "q \<noteq> 0"
      "table_map hasher m css k = Some (val n)" "find_cell m k (Bucket i) = Some (cell_after (Bucket i) as, q)"
proof -
  note I = table_invD [OF inv]
  let ?as = "takeWhile (\<lambda>a. key_of (nodes m) a \<noteq> k) (css ! i)" and ?bs = "dropWhile (\<lambda>a. key_of (nodes m) a \<noteq> k) (css ! i)"
  have il: "i < length css"
    using I(1,2) i by simp
  then have c: "chain (nodes m) (buckets m ! i) (css ! i)"
    using I(3) by (simp add: bucket_ok_def)
  have f: "find_cell m k (Bucket i) = Some (cell_after (Bucket i) ?as, first_ptr ?bs)"
    using find_cell_chain [OF _ c, of "Bucket i"] il I(1) by simp
  have lookup: "map_of (entries m ps) k =
      (case dropWhile (\<lambda>a. key_of (nodes m) a \<noteq> k) ps of [] \<Rightarrow> None | q # _ \<Rightarrow> Some (val (the (nodes m q))))" for ps
    by (induction ps) (auto simp: entries_def entry_of_def key_of_def)
  have M: "table_map hasher m css k = (case ?bs of [] \<Rightarrow> None | q # _ \<Rightarrow> Some (val (the (nodes m q))))"
    unfolding table_map_def i [symmetric] by (rule lookup)
  show ?thesis
  proof (cases ?bs)
    case Nil
    then have all: "\<forall>a \<in> set (css ! i). key_of (nodes m) a \<noteq> k"
      by (simp only: dropWhile_eq_Nil_conv)
    show ?thesis
    proof (rule absent)
      show "table_map hasher m css k = None"
        unfolding M Nil by simp
      show "k \<notin> set (map (key_of (nodes m)) (css ! i))"
        using all by auto
      have "?as = css ! i"
        using all by (simp only: takeWhile_eq_all_conv)
      then show "find_cell m k (Bucket i) = Some (cell_after (Bucket i) (css ! i), 0)"
        unfolding f Nil by (simp only: first_ptr_simps)
    qed
  next
    case (Cons q bs)
    have split: "css ! i = ?as @ q # bs"
      using takeWhile_dropWhile_id [of "\<lambda>a. key_of (nodes m) a \<noteq> k" "css ! i"] unfolding Cons by (rule sym)
    then have "q \<in> set (css ! i)"
      by (metis in_set_conv_decomp)
    then obtain n where n: "nodes m q = Some n" "q \<noteq> 0"
      using chain_alloc [OF c, of q] by auto
    have "key_of (nodes m) q = k"
      using hd_dropWhile [of "\<lambda>a. key_of (nodes m) a \<noteq> k" "css ! i"] unfolding Cons by simp
    with split show ?thesis
      using n by (rule present) (simp_all only: M f Cons n list.case first_ptr_simps option.sel)
  qed
qed

lemma insert_new:
  assumes "table_inv hasher m css" "i = get_bucket_idx hasher m k" "k \<notin> set (map (key_of (nodes m)) (css ! i))"
  obtains m1 q m2 css' where "new_node k v m = (m1, q)" "store (cell_after (Bucket i) (css ! i)) q m1 = Some m2"
    "table_inv hasher (m2\<lparr>element_size := element_size m2 + 1\<rparr>) css'" "locks m2 = locks m"
    "table_map hasher (m2\<lparr>element_size := element_size m2 + 1\<rparr>) css' = (table_map hasher m css)(k \<mapsto> v)"
proof -
  obtain m1 q where n: "new_node k v m = (m1, q)"
    by fastforce
  note N = new_node_inv [OF assms(1) n]
  have il: "i < length css"
    using table_invD(1,2) [OF assms(1)] assms(2) by simp
  have "key_of (nodes m1) p = key_of (nodes m) p" if "p \<in> set (css ! i)" for p
    using N(4) [OF il] that n by (auto simp: new_node_def key_of_def)
  then have "k \<notin> set (map (key_of (nodes m1)) (css ! i))"
    using assms(3) by auto
  from link_last [OF N(1) _ this N(3) _ _ N(4) [OF il]] obtain m2 m3 where m: "store (cell_after (Bucket i) (css ! i)) q m1 = Some m2"
    "m3 = m2\<lparr>element_size := element_size m2 + 1\<rparr>" "relinks i (css ! i) m1 m2"
    "table_inv hasher m3 (css[i := css ! i @ [q]])"
    "table_map hasher m3 (css[i := css ! i @ [q]]) = (table_map hasher m1 css)(k \<mapsto> v)"
    using assms(2) N(6) by auto
  then show ?thesis
    using that [OF n m(1)] N(2,5) by (simp add: relinks_def)
qed

lemma put_nolock_spec:
  assumes "table_inv hasher m css" "i = get_bucket_idx hasher m k" and M: "table_map hasher m css = M"
  obtains m' css' where "put_nolock (Bucket i) k v m = Some (m', M k = None)" "table_inv hasher m' css'" "locks m' = locks m"
    "table_map hasher m' css' = (if M k = None then M(k \<mapsto> v) else M)"
  using assms(1,2)
proof (cases rule: find_bucket)
  case absent
  from insert_new [OF assms(1,2) absent(2), of v] obtain m1 q m2 css' where m: "new_node k v m = (m1, q)"
    "store (cell_after (Bucket i) (css ! i)) q m1 = Some m2" "table_inv hasher (m2\<lparr>element_size := element_size m2 + 1\<rparr>) css'"
    "locks m2 = locks m" "table_map hasher (m2\<lparr>element_size := element_size m2 + 1\<rparr>) css' = (table_map hasher m css)(k \<mapsto> v)"
    by metis
  then show ?thesis
    using that [OF _ m(3)] absent M by (simp add: put_nolock_def)
next
  case (present as q bs n)
  then show ?thesis
    using that [of m css] assms M by (simp add: put_nolock_def)
qed

lemma exchange_nolock_spec:
  assumes "table_inv hasher m css" "i = get_bucket_idx hasher m k" and M: "table_map hasher m css = M"
  obtains m' css' where
    "exchange_nolock (Bucket i) k v m = Some (m', M k \<noteq> None, (case M k of None \<Rightarrow> v | Some x \<Rightarrow> x))"
    "table_inv hasher m' css'" "locks m' = locks m" "table_map hasher m' css' = M(k \<mapsto> v)"
  using assms(1,2)
proof (cases rule: find_bucket)
  case absent
  from insert_new [OF assms(1,2) absent(2), of v] obtain m1 q m2 css' where m: "new_node k v m = (m1, q)"
    "store (cell_after (Bucket i) (css ! i)) q m1 = Some m2" "table_inv hasher (m2\<lparr>element_size := element_size m2 + 1\<rparr>) css'"
    "locks m2 = locks m" "table_map hasher (m2\<lparr>element_size := element_size m2 + 1\<rparr>) css' = (table_map hasher m css)(k \<mapsto> v)"
    by metis
  then show ?thesis
    using that [OF _ m(3)] absent M by (simp add: exchange_nolock_def)
next
  case (present as q bs n)
  have "q \<in> set (css ! i)"
    unfolding present(1) by simp
  note V = set_value_inv [OF assms(1,2) this present(2,3), of v]
  show ?thesis
    using that [OF _ V(1) _ V(2) [unfolded M]] present M by (simp add: exchange_nolock_def)
qed

lemma get_nolock_spec:
  assumes "table_inv hasher m css" "i = get_bucket_idx hasher m k"
  shows "get_nolock (Bucket i) k m = Some (table_map hasher m css k)"
  using assms
proof (cases rule: find_bucket)
  case absent
  then show ?thesis
    by (simp add: get_nolock_def)
next
  case (present as q bs n)
  then show ?thesis
    by (simp add: get_nolock_def)
qed

lemma erase_nolock_spec:
  assumes "table_inv hasher m css" "i = get_bucket_idx hasher m k" and M: "table_map hasher m css = M"
  obtains m' css' where "erase_nolock intrusive (Bucket i) k m = Some (m', M k \<noteq> None)" "table_inv hasher m' css'"
    "locks m' = locks m" "table_map hasher m' css' = M(k := None)"
  using assms(1,2)
proof (cases rule: find_bucket)
  case absent
  then have "M(k := None) = M"
    using M by auto
  then show ?thesis
    using that [of m css] assms M absent by (simp add: erase_nolock_def)
next
  case (present as q bs n)
  from unlink [OF assms(1,2) present(1,2)] present(3) obtain m1 m2 where
    m: "store (cell_after (Bucket i) as) (hash_next n) m = Some m1" "m2 = m1\<lparr>element_size := element_size m1 - 1\<rparr>"
      "relinks i as m m1" "table_inv hasher m2 (css[i := as @ bs])"
      "table_map hasher m2 (css[i := as @ bs]) = (table_map hasher m css)(k := None)"
    by (metis option.inject)
  have il: "i < length css"
    using table_invD(1,2) [OF assms(1)] assms(2) by simp
  have "q \<notin> set (css[i := as @ bs] ! j)" if "j < length css" for j
  proof (cases "j = i")
    case True
    then show ?thesis
      using il present(1) bucket_ok_distinct [OF table_invD(3) [OF assms(1) il]] by simp
  next
    case False
    then show ?thesis
      using il that present(1) chain_disjoint [OF assms(1) il that, of q] by simp
  qed
  then have d: "table_inv hasher (delete_node q m2) (css[i := as @ bs])"
    "table_map hasher (delete_node q m2) (css[i := as @ bs]) = table_map hasher m2 (css[i := as @ bs])"
    using delete_node_inv [OF m(4), of q] by simp_all
  have "delete_node q m2 = (delete_node q m1)\<lparr>element_size := element_size (delete_node q m1) - 1\<rparr>"
    by (simp add: m(2) delete_node_def)
  then have e: "erase_nolock intrusive (Bucket i) k m = Some (if intrusive then m2 else delete_node q m2, M k \<noteq> None)"
    using present m(1,2) M by (simp add: erase_nolock_def Let_def)
  show ?thesis
  proof (rule that [OF e])
    show "table_inv hasher (if intrusive then m2 else delete_node q m2) (css[i := as @ bs])"
      using m(4) d(1) by simp
    show "table_map hasher (if intrusive then m2 else delete_node q m2) (css[i := as @ bs]) = M(k := None)"
      using m(5) d(2) M by simp
    show "locks (if intrusive then m2 else delete_node q m2) = locks m"
      using m(2,3) by (simp add: delete_node_def relinks_def)
  qed
qed

section \<open>The operations under their locks\<close>

definition represents :: "('k \<Rightarrow> nat) \<Rightarrow> ('k, 'v) hash_map \<Rightarrow> ('k \<Rightarrow> 'v option) \<Rightarrow> bool" where
  "represents hasher m M \<longleftrightarrow> locks m \<noteq> [] \<and> (\<forall>l < length (locks m). locks m ! l = 0) \<and>
     (\<exists>css. table_inv hasher m css \<and> table_map hasher m css = M)"

lemma locks_frame [simp]:
  "table_inv hasher (m\<lparr>locks := L\<rparr>) css = table_inv hasher m css"
  "table_map hasher (m\<lparr>locks := L\<rparr>) css = table_map hasher m css"
  "get_bucket_idx hasher (m\<lparr>locks := L\<rparr>) k = get_bucket_idx hasher m k"
  by (simp_all add: table_inv_def bucket_ok_def table_map_def entries_def get_bucket_idx_def fun_eq_iff)

lemma lock_word_ops:
  "tryShared 0 = (SHARED, True)" "releaseShared SHARED = 0"
  by (simp_all add: tryShared_def releaseShared_def fetch_add_def lock_bits)

lemma get_entry_eq:
  assumes "represents hasher m M"
  obtains l where "get_entry hasher m k = (Bucket (get_bucket_idx hasher m k), l)" "l < length (locks m)" "locks m ! l = 0"
proof -
  define l where "l = hasher k mod length (buckets m) mod length (locks m)"
  then have "l < length (locks m)" "locks m ! l = 0"
    using assms by (auto simp: represents_def)
  then show ?thesis
    using that [of l] by (simp add: get_entry_def get_bucket_idx_def l_def Let_def)
qed

text \<open>Taking the lock of a bucket, doing the operation and releasing the lock again.\<close>

lemma under_lock:
  assumes "l < length (locks m)" "locks m ! l = 0" "L = (locks m)[l := EXCLUSIVE]"
  shows "lock_exclusive l m = Some (m\<lparr>locks := L\<rparr>)"
    and "locks m' = L \<Longrightarrow> unlock_exclusive l m' = m'\<lparr>locks := locks m\<rparr>"
proof -
  show "lock_exclusive l m = Some (m\<lparr>locks := L\<rparr>)"
    using assms by (simp add: lock_exclusive_def upgrade_free)
  have "L[l := 0] = locks m"
    using assms by (simp add: list_update_same_conv)
  then show "unlock_exclusive l m' = m'\<lparr>locks := locks m\<rparr>" if "locks m' = L"
    using that assms by (simp add: unlock_exclusive_def upgrade_free)
qed

lemma under_shared_lock:
  assumes "l < length (locks m)" "locks m ! l = 0" "L = (locks m)[l := SHARED]"
  shows "lock_shared l m = Some (m\<lparr>locks := L\<rparr>)" "unlock_shared l (m\<lparr>locks := L\<rparr>) = m"
proof -
  show "lock_shared l m = Some (m\<lparr>locks := L\<rparr>)"
    using assms by (simp add: lock_shared_def lock_word_ops)
  have "L[l := 0] = locks m"
    using assms by (simp add: list_update_same_conv)
  then show "unlock_shared l (m\<lparr>locks := L\<rparr>) = m"
    using assms by (simp add: unlock_shared_def lock_word_ops)
qed

lemma representsI:
  assumes "represents hasher m M" "table_inv hasher m' css" "table_map hasher m' css = M'"
  shows "represents hasher (m'\<lparr>locks := locks m\<rparr>) M'"
  using assms by (auto simp: represents_def intro!: exI [of _ css])

lemma locked:
  fixes m :: "('k, 'v) hash_map"
  assumes "represents hasher m M"
  obtains l m1 css where "get_entry hasher m k = (Bucket (get_bucket_idx hasher m k), l)" "lock_exclusive l m = Some m1"
    "table_inv hasher m1 css" "table_map hasher m1 css = M" "get_bucket_idx hasher m k = get_bucket_idx hasher m1 k"
    "\<And>(m' :: ('k, 'v) hash_map) css' M'. table_inv hasher m' css' \<Longrightarrow> locks m' = locks m1 \<Longrightarrow> table_map hasher m' css' = M' \<Longrightarrow>
      represents hasher (unlock_exclusive l m') M'"
proof -
  obtain css where css: "table_inv hasher m css" "table_map hasher m css = M"
    using assms by (auto simp: represents_def)
  from get_entry_eq [OF assms, of k] obtain l where
    l: "get_entry hasher m k = (Bucket (get_bucket_idx hasher m k), l)" "l < length (locks m)" "locks m ! l = 0" .
  note U = under_lock [OF l(2,3) refl]
  show ?thesis
  proof (rule that [OF l(1) U(1)])
    show "represents hasher (unlock_exclusive l m') M'" if "table_inv hasher m' css'"
      "locks m' = locks (m\<lparr>locks := (locks m)[l := EXCLUSIVE]\<rparr>)" "table_map hasher m' css' = M'" for m' :: "('k, 'v) hash_map" and css' M'
      using representsI [OF assms that(1,3)] U(2) [of m'] that(2) by simp
  qed (use css in simp_all)
qed

lemma put_represents:
  fixes m :: "('k, 'v) hash_map"
  assumes "represents hasher m M"
  shows "\<exists>m'. put hasher k v m = Some (m', M k = None) \<and> represents hasher m' (if M k = None then M(k \<mapsto> v) else M)"
proof (rule locked [OF assms, where k = k])
  fix l m1 css
  assume L: "get_entry hasher m k = (Bucket (get_bucket_idx hasher m k), l)" "lock_exclusive l m = Some m1"
    "table_inv hasher m1 css" "table_map hasher m1 css = M" "get_bucket_idx hasher m k = get_bucket_idx hasher m1 k"
    and R: "\<And>(m' :: ('k, 'v) hash_map) css' M'. table_inv hasher m' css' \<Longrightarrow> locks m' = locks m1 \<Longrightarrow> table_map hasher m' css' = M' \<Longrightarrow>
      represents hasher (unlock_exclusive l m') M'"
  obtain m' css' where m': "put_nolock (Bucket (get_bucket_idx hasher m k)) k v m1 = Some (m', M k = None)"
    "table_inv hasher m' css'" "locks m' = locks m1" "table_map hasher m' css' = (if M k = None then M(k \<mapsto> v) else M)"
    by (rule put_nolock_spec [OF L(3,5,4)])
  then show ?thesis
    using L(1,2) R [OF m'(2,3,4)] by (simp add: put_def)
qed

lemma exchange_represents:
  fixes m :: "('k, 'v) hash_map"
  assumes "represents hasher m M"
  shows "\<exists>m'. exchange hasher k v m = Some (m', M k \<noteq> None, (case M k of None \<Rightarrow> v | Some x \<Rightarrow> x)) \<and>
    represents hasher m' (M(k \<mapsto> v))"
proof (rule locked [OF assms, where k = k])
  fix l m1 css
  assume L: "get_entry hasher m k = (Bucket (get_bucket_idx hasher m k), l)" "lock_exclusive l m = Some m1"
    "table_inv hasher m1 css" "table_map hasher m1 css = M" "get_bucket_idx hasher m k = get_bucket_idx hasher m1 k"
    and R: "\<And>(m' :: ('k, 'v) hash_map) css' M'. table_inv hasher m' css' \<Longrightarrow> locks m' = locks m1 \<Longrightarrow> table_map hasher m' css' = M' \<Longrightarrow>
      represents hasher (unlock_exclusive l m') M'"
  obtain m' css' where m':
    "exchange_nolock (Bucket (get_bucket_idx hasher m k)) k v m1 = Some (m', M k \<noteq> None, (case M k of None \<Rightarrow> v | Some x \<Rightarrow> x))"
    "table_inv hasher m' css'" "locks m' = locks m1" "table_map hasher m' css' = M(k \<mapsto> v)"
    by (rule exchange_nolock_spec [OF L(3,5,4)])
  then show ?thesis
    using L(1,2) R [OF m'(2,3,4)] by (simp add: exchange_def)
qed

lemma erase_represents:
  fixes m :: "('k, 'v) hash_map"
  assumes "represents hasher m M"
  shows "\<exists>m'. erase hasher k m = Some (m', M k \<noteq> None) \<and> represents hasher m' (M(k := None))"
proof (rule locked [OF assms, where k = k])
  fix l m1 css
  assume L: "get_entry hasher m k = (Bucket (get_bucket_idx hasher m k), l)" "lock_exclusive l m = Some m1"
    "table_inv hasher m1 css" "table_map hasher m1 css = M" "get_bucket_idx hasher m k = get_bucket_idx hasher m1 k"
    and R: "\<And>(m' :: ('k, 'v) hash_map) css' M'. table_inv hasher m' css' \<Longrightarrow> locks m' = locks m1 \<Longrightarrow> table_map hasher m' css' = M' \<Longrightarrow>
      represents hasher (unlock_exclusive l m') M'"
  obtain m' css' where m': "erase_nolock False (Bucket (get_bucket_idx hasher m k)) k m1 = Some (m', M k \<noteq> None)"
    "table_inv hasher m' css'" "locks m' = locks m1" "table_map hasher m' css' = M(k := None)"
    by (rule erase_nolock_spec [OF L(3,5,4)])
  then show ?thesis
    using L(1,2) R [OF m'(2,3,4)] by (simp add: erase_def)
qed

lemma get_represents:
  assumes "represents hasher m M"
  shows "get hasher k m = Some (m, M k)"
proof -
  obtain css where css: "table_inv hasher m css" "table_map hasher m css = M"
    using assms by (auto simp: represents_def)
  from get_entry_eq [OF assms, of k] obtain l where
    l: "get_entry hasher m k = (Bucket (get_bucket_idx hasher m k), l)" "l < length (locks m)" "locks m ! l = 0" .
  note U = under_shared_lock [OF l(2,3) refl]
  have "get_nolock (Bucket (get_bucket_idx hasher m k)) k (m\<lparr>locks := (locks m)[l := SHARED]\<rparr>) = Some (M k)"
    using get_nolock_spec [of hasher "m\<lparr>locks := (locks m)[l := SHARED]\<rparr>" css _ k, OF _ refl] css by simp
  then show ?thesis
    using l(1) U by (simp add: get_def)
qed

section \<open>The size and the number of buckets\<close>

lemma lower_bound_le: "lower_bound xs n \<le> length xs"
  by (induction xs) auto

lemma lower_bound_nth: "lower_bound xs n < length xs \<Longrightarrow> n \<le> xs ! lower_bound xs n"
  by (induction xs) auto

lemma lower_bound_before: "i < lower_bound xs n \<Longrightarrow> xs ! i < n"
  by (induction xs arbitrary: i) (auto simp: nth_Cons' split: if_splits)

lemma primes_facts: "length primes = 256" "last primes = 4294967291" "0 \<notin> set primes"
  by (simp_all add: primes_def)

lemma nextBucketNum_in: "nextBucketNum n \<in> set primes"
  using lower_bound_le [of "butlast primes" n] primes_facts(1) by (simp add: nextBucketNum_def)

lemma nextBucketNum_ge:
  assumes "n \<le> 4294967291"
  shows "n \<le> nextBucketNum n"
proof (cases "lower_bound (butlast primes) n < length (butlast primes)")
  case True
  then show ?thesis
    using lower_bound_nth [OF True] by (simp add: nextBucketNum_def nth_butlast)
next
  case False
  then have "lower_bound (butlast primes) n = length primes - 1"
    using lower_bound_le [of "butlast primes" n] by simp
  then show ?thesis
    using assms primes_facts(1,2) last_conv_nth [of primes] by (fastforce simp: nextBucketNum_def)
qed

lemma constructed:
  assumes "0 < lock_num"
  shows "represents hasher (ConcurrentHashMap_locks hint lock_num) (\<lambda>_. None)"
proof -
  let ?m = "ConcurrentHashMap_locks hint lock_num :: ('a, 'b) hash_map"
  let ?css = "replicate (nextBucketNum hint) []"
  have "nextBucketNum hint \<noteq> 0"
    using nextBucketNum_in [of hint] primes_facts(3) by metis
  then have "table_inv hasher ?m ?css"
    by (auto simp: table_inv_def bucket_ok_def ConcurrentHashMap_locks_def sum_list_replicate)
  moreover have "table_map hasher ?m ?css = (\<lambda>_. None)"
    using \<open>nextBucketNum hint \<noteq> 0\<close>
    by (simp add: table_map_def fun_eq_iff entries_def get_bucket_idx_def ConcurrentHashMap_locks_def)
  ultimately show ?thesis
    using assms by (auto simp: represents_def ConcurrentHashMap_locks_def)
qed

lemma table_map_dom:
  assumes "table_inv hasher m css"
  shows "card (dom (table_map hasher m css)) = sum_list (map length css)"
proof -
  note I = table_invD [OF assms]
  let ?K = "\<lambda>i. set (map (key_of (nodes m)) (css ! i))"
  have "k \<in> dom (table_map hasher m css) \<longleftrightarrow> (\<exists>i < length css. k \<in> ?K i)" for k
  proof -
    have "k \<in> dom (table_map hasher m css) \<longleftrightarrow> k \<in> ?K (get_bucket_idx hasher m k)"
      by (simp only: table_map_def domIff not_None_eq map_of_eq_None_iff set_map [symmetric] fst_entries) auto
    also have "\<dots> \<longleftrightarrow> (\<exists>i < length css. k \<in> ?K i)"
    proof -
      have "get_bucket_idx hasher m k = i" if "i < length css" "k \<in> ?K i" for i
        using I(3) [of i] that by (auto simp: bucket_ok_def)
      moreover have "get_bucket_idx hasher m k < length css"
        using I(1,2) by simp
      ultimately show ?thesis
        by blast
    qed
    finally show ?thesis .
  qed
  then have "dom (table_map hasher m css) = (\<Union>i < length css. ?K i)"
    by (intro set_eqI) (simp only: UN_iff lessThan_iff Bex_def)
  also have "card \<dots> = (\<Sum>i < length css. card (?K i))"
  proof (intro card_UN_disjoint ballI impI)
    fix i j
    assume ij: "i \<in> {..< length css}" "j \<in> {..< length css}" "i \<noteq> j"
    then show "?K i \<inter> ?K j = {}"
      using I(3) [of i] I(3) [of j] by (fastforce simp: bucket_ok_def)
  qed auto
  also have "\<dots> = (\<Sum>i < length css. length (css ! i))"
    using I(3) by (intro sum.cong) (auto simp: bucket_ok_def distinct_card simp del: set_map)
  also have "\<dots> = sum_list (map length css)"
    by (simp add: sum_list_sum_nth atLeast0LessThan)
  finally show ?thesis .
qed

text \<open>The destructor frees every node that is linked in the table, unless the nodes belong to the caller.\<close>

partial_function (option) free_chain :: "bool \<Rightarrow> nat \<Rightarrow> ('k, 'v) hash_map \<Rightarrow> ('k, 'v) hash_map option" where
  "free_chain is_intrusive p m =
     (if p = 0 then Some m
      else do {
        q \<leftarrow> nodes m p;
        free_chain is_intrusive (hash_next q) (if is_intrusive then m else delete_node p m)
      })"

fun deallocate_buckets :: "bool \<Rightarrow> nat list \<Rightarrow> ('k, 'v) hash_map \<Rightarrow> ('k, 'v) hash_map option" where
  "deallocate_buckets is_intrusive [] m = Some m"
| "deallocate_buckets is_intrusive (p # ps) m =
     do { m1 \<leftarrow> free_chain is_intrusive p m; deallocate_buckets is_intrusive ps m1 }"

definition destroy :: "bool \<Rightarrow> ('k, 'v) hash_map \<Rightarrow> ('k, 'v) hash_map option" where
  "destroy is_intrusive m =
     do { m1 \<leftarrow> deallocate_buckets is_intrusive (buckets m) m; Some (m1\<lparr>buckets := [], locks := []\<rparr>) }"

lemma free_chain_0: "free_chain is_intrusive 0 m = Some m"
  by (subst free_chain.simps) simp

lemma free_chain_node:
  "p \<noteq> 0 \<Longrightarrow> nodes m p = Some n \<Longrightarrow>
    free_chain is_intrusive p m = free_chain is_intrusive (hash_next n) (if is_intrusive then m else delete_node p m)"
  by (subst free_chain.simps) simp

lemma free_chain_spec:
  assumes "chain (nodes m) p ps" "distinct ps"
  shows "free_chain False p m = Some (m\<lparr>nodes := (\<lambda>q. if q \<in> set ps then None else nodes m q)\<rparr>)"
  using assms
proof (induction ps arbitrary: p m)
  case Nil
  then show ?case
    by (simp add: free_chain_0)
next
  case (Cons a as)
  then obtain n where n: "nodes m a = Some n" "chain (nodes m) (hash_next n) as" "p = a" "a \<noteq> 0"
    by auto
  have "chain (nodes (delete_node a m)) (hash_next n) as"
    using n(2) Cons(3) by (intro chain_frame [OF n(2)]) (auto simp: delete_node_def)
  from Cons(1) [OF this] have "free_chain False (hash_next n) (delete_node a m) =
      Some ((delete_node a m)\<lparr>nodes := (\<lambda>q. if q \<in> set as then None else nodes (delete_node a m) q)\<rparr>)"
    using Cons(3) by simp
  moreover have "(\<lambda>q. if q \<in> set as then None else nodes (delete_node a m) q) = (\<lambda>q. if q \<in> set (a # as) then None else nodes m q)"
    by (simp add: fun_eq_iff delete_node_def)
  ultimately have "free_chain False (hash_next n) (delete_node a m) = Some (m\<lparr>nodes := (\<lambda>q. if q \<in> set (a # as) then None else nodes m q)\<rparr>)"
    by (simp only:) (simp add: delete_node_def)
  then show ?case
    using free_chain_node [OF n(4,1), of False] n(3) by (simp only: if_False)
qed

lemma deallocate_spec:
  assumes "list_all2 (chain (nodes m)) ps css" "distinct (concat css)"
  shows "deallocate_buckets False ps m = Some (m\<lparr>nodes := (\<lambda>q. if q \<in> set (concat css) then None else nodes m q)\<rparr>)"
  using assms
proof (induction css arbitrary: ps m rule: list.induct)
  case (Cons c cs)
  from Cons(2) obtain p qs where p: "ps = p # qs" "chain (nodes m) p c" "list_all2 (chain (nodes m)) qs cs"
    unfolding list_all2_Cons2 by blast
  let ?m = "m\<lparr>nodes := (\<lambda>q. if q \<in> set c then None else nodes m q)\<rparr>"
  have "free_chain False p m = Some ?m"
    using Cons(3) by (simp add: free_chain_spec [OF p(2)])
  moreover
  have "list_all2 (chain (nodes ?m)) qs cs"
  proof (rule list.rel_mono_strong [OF p(3)])
    fix q d
    assume "q \<in> set qs" "d \<in> set cs" "chain (nodes m) q d"
    then show "chain (nodes ?m) q d"
      using Cons(3) by (elim chain_frame) auto
  qed
  then have "deallocate_buckets False qs ?m = Some (?m\<lparr>nodes := (\<lambda>q. if q \<in> set (concat cs) then None else nodes ?m q)\<rparr>)"
    using Cons(3) by (intro Cons(1)) simp_all
  ultimately have "deallocate_buckets False ps m =
      Some (m\<lparr>nodes := (\<lambda>q. if q \<in> set (concat cs) then None else if q \<in> set c then None else nodes m q)\<rparr>)"
    unfolding p(1) by (simp del: set_concat cong: if_cong)
  moreover have "(\<lambda>q. if q \<in> set (concat cs) then None else if q \<in> set c then None else nodes m q) =
      (\<lambda>q. if q \<in> set (concat (c # cs)) then None else nodes m q)"
    by (auto simp: fun_eq_iff)
  ultimately show ?case
    by metis
qed simp

lemma distinct_concat_nth:
  assumes "\<And>i. i < length xss \<Longrightarrow> distinct (xss ! i)"
    and "\<And>i j x. i < length xss \<Longrightarrow> j < length xss \<Longrightarrow> i \<noteq> j \<Longrightarrow> x \<in> set (xss ! i) \<Longrightarrow> x \<notin> set (xss ! j)"
  shows "distinct (concat xss)"
  using assms
proof (induction xss)
  case (Cons xs xss)
  have "distinct (concat xss)"
  proof (rule Cons(1))
    show "distinct (xss ! i)" if "i < length xss" for i
      using Cons(2) [of "Suc i"] that by simp
    show "x \<notin> set (xss ! j)" if "i < length xss" "j < length xss" "i \<noteq> j" "x \<in> set (xss ! i)" for i j x
      using Cons(3) [of "Suc i" "Suc j" x] that by simp
  qed
  moreover have "set xs \<inter> set ys = {}" if "ys \<in> set xss" for ys
  proof -
    from that obtain j where "j < length xss" "ys = xss ! j"
      by (auto simp: in_set_conv_nth)
    then show ?thesis
      using Cons(3) [of 0 "Suc j"] by auto
  qed
  moreover have "distinct xs"
    using Cons(2) [of 0] by simp
  ultimately show ?case
    by auto
qed simp

lemma destroy_spec:
  assumes "table_inv hasher m css"
  shows "\<exists>m'. destroy False m = Some m' \<and> (\<forall>i < length css. \<forall>p \<in> set (css ! i). nodes m' p = None)"
proof -
  note I = table_invD [OF assms]
  have "list_all2 (chain (nodes m)) (buckets m) css"
    using I(1,3) by (simp add: list_all2_conv_all_nth bucket_ok_def)
  moreover have "distinct (concat css)"
    using bucket_ok_distinct [OF I(3)] chain_disjoint [OF assms] by (rule distinct_concat_nth)
  ultimately have "deallocate_buckets False (buckets m) m =
      Some (m\<lparr>nodes := (\<lambda>q. if q \<in> set (concat css) then None else nodes m q)\<rparr>)"
    by (rule deallocate_spec)
  then show ?thesis
    by (auto simp: destroy_def)
qed

section \<open>The table as a finite map\<close>

text \<open>What a client may ask of a table, and what it is told.\<close>

datatype ('k, 'v) request = Put 'k 'v | Exchange 'k 'v | Get 'k | Erase 'k
datatype 'v answer = Answer bool | Found "'v option" | Swapped bool 'v

fun map_answer :: "('k, 'v) request \<Rightarrow> ('k \<Rightarrow> 'v option) \<Rightarrow> ('k \<Rightarrow> 'v option) \<times> 'v answer" where
  "map_answer (Put k v) M = (if M k = None then (M(k \<mapsto> v), Answer True) else (M, Answer False))"
| "map_answer (Exchange k v) M = (M(k \<mapsto> v), (case M k of None \<Rightarrow> Swapped False v | Some x \<Rightarrow> Swapped True x))"
| "map_answer (Get k) M = (M, Found (M k))"
| "map_answer (Erase k) M = (M(k := None), Answer (M k \<noteq> None))"

fun map_answers :: "('k, 'v) request list \<Rightarrow> ('k \<Rightarrow> 'v option) \<Rightarrow> ('k \<Rightarrow> 'v option) \<times> 'v answer list" where
  "map_answers [] M = (M, [])"
| "map_answers (r # rs) M = (let (M1, a) = map_answer r M; (M2, as) = map_answers rs M1 in (M2, a # as))"

fun answers :: "(('k, 'v) request \<Rightarrow> 's \<Rightarrow> ('s \<times> 'v answer) option) \<Rightarrow> ('k, 'v) request list \<Rightarrow> 's \<Rightarrow> ('s \<times> 'v answer list) option" where
  "answers ans [] s = Some (s, [])"
| "answers ans (r # rs) s = do { (s1, a) \<leftarrow> ans r s; (s2, as) \<leftarrow> answers ans rs s1; Some (s2, a # as) }"

locale map_store =
  fixes stands_for :: "'s \<Rightarrow> ('k \<Rightarrow> 'v option) \<Rightarrow> bool" and answer :: "('k, 'v) request \<Rightarrow> 's \<Rightarrow> ('s \<times> 'v answer) option"
  assumes answer_law: "stands_for s M \<Longrightarrow>
    \<exists>s'. answer r s = Some (s', snd (map_answer r M)) \<and> stands_for s' (fst (map_answer r M))"
begin

lemma answers_refine:
  "stands_for s M \<Longrightarrow> \<exists>s'. answers answer rs s = Some (s', snd (map_answers rs M)) \<and> stands_for s' (fst (map_answers rs M))"
proof (induction rs arbitrary: s M)
  case (Cons r rs)
  obtain s1 where s1: "answer r s = Some (s1, snd (map_answer r M))" "stands_for s1 (fst (map_answer r M))"
    using answer_law [OF Cons(2)] by blast
  obtain s2 where "answers answer rs s1 = Some (s2, snd (map_answers rs (fst (map_answer r M))))"
    "stands_for s2 (fst (map_answers rs (fst (map_answer r M))))"
    using Cons(1) [OF s1(2)] by blast
  then show ?case
    using s1(1) by (simp add: case_prod_beta)
qed simp

end

fun table_answer :: "('k \<Rightarrow> nat) \<Rightarrow> ('k, 'v) request \<Rightarrow> ('k, 'v) hash_map \<Rightarrow> (('k, 'v) hash_map \<times> 'v answer) option" where
  "table_answer hasher (Put k v) m = do { (m', b) \<leftarrow> put hasher k v m; Some (m', Answer b) }"
| "table_answer hasher (Exchange k v) m = do { (m', b, x) \<leftarrow> exchange hasher k v m; Some (m', Swapped b x) }"
| "table_answer hasher (Get k) m = do { (m', x) \<leftarrow> get hasher k m; Some (m', Found x) }"
| "table_answer hasher (Erase k) m = do { (m', b) \<leftarrow> erase hasher k m; Some (m', Answer b) }"

lemma table_answer_law:
  assumes "represents hasher m M"
  shows "\<exists>m'. table_answer hasher r m = Some (m', snd (map_answer r M)) \<and> represents hasher m' (fst (map_answer r M))"
proof (cases r)
  case (Put k v)
  then show ?thesis
    using put_represents [OF assms, of k v] by auto
next
  case (Exchange k v)
  then show ?thesis
    using exchange_represents [OF assms, of k v] by (auto split: option.splits)
next
  case (Get k)
  then show ?thesis
    using get_represents [OF assms, of k] assms by simp
next
  case (Erase k)
  then show ?thesis
    using erase_represents [OF assms, of k] by auto
qed

interpretation table: map_store "represents hasher" "table_answer hasher" for hasher
  by unfold_locales (rule table_answer_law)

lemma represents_size: "represents hasher m M \<Longrightarrow> element_size m = of_nat (card (dom M))"
  unfolding represents_def by (elim conjE exE) (simp add: table_invD(6) table_map_dom [symmetric])

lemma represents_destroy: "represents hasher m M \<Longrightarrow> \<exists>m'. destroy False m = Some m'"
  unfolding represents_def by (elim conjE exE) (drule destroy_spec, blast)

text \<open>
  C16. The hash table implements a finite map, whatever the hash function, the hint for its size and the number of its locks:
  every sequence of put, exchange, get and erase on a new table returns, follows no dangling pointer and answers what the
  map answers; the size is the number of keys, and the destructor ends.
\<close>

theorem hash_map_refines:
  assumes "0 < lock_num"
  shows "\<exists>m. answers (table_answer hasher) rs (ConcurrentHashMap_locks hint lock_num) = Some (m, snd (map_answers rs (\<lambda>_. None))) \<and>
    element_size m = of_nat (card (dom (fst (map_answers rs (\<lambda>_. None))))) \<and> (\<exists>m'. destroy False m = Some m')"
  using table.answers_refine [OF constructed [OF assms, of hasher hint], of rs] represents_size represents_destroy by metis

theorem hash_map_refines_witness:
  "\<exists>m. answers (table_answer (\<lambda>k. k)) [Put 1 ''a'', Put 4 ''b'', Get 1, Erase 4, Get (4 :: nat)] (ConcurrentHashMap_locks 3 2) =
     Some (m, [Answer True, Answer True, Found (Some ''a''), Answer True, Found None])"
proof -
  let ?rs = "[Put 1 ''a'', Put 4 ''b'', Get 1, Erase 4, Get (4 :: nat)]"
  have "0 < (2 :: nat)"
    by simp
  from hash_map_refines [OF this, of "\<lambda>k. k" ?rs 3]
  obtain m where "answers (table_answer (\<lambda>k. k)) ?rs (ConcurrentHashMap_locks 3 2) = Some (m, snd (map_answers ?rs (\<lambda>_. None)))"
    by blast
  moreover have "snd (map_answers ?rs (\<lambda>_. None)) = [Answer True, Answer True, Found (Some ''a''), Answer True, Found None]"
    by simp
  ultimately show ?thesis
    by metis
qed

section \<open>The intrusive exchange\<close>

definition two_keys :: "(nat, nat) hash_map" where
  "two_keys =
     \<lparr>buckets = [1, 0], locks = [0, 0], element_size = 2,
      nodes = [1 \<mapsto> \<lparr>key = 0, val = 10, hash_next = 2\<rparr>, 2 \<mapsto> \<lparr>key = 2, val = 12, hash_next = 0\<rparr>,
        3 \<mapsto> \<lparr>key = 0, val = 20, hash_next = 0\<rparr>],
      unused = 4\<rparr>"

text \<open>
  The intrusive exchange loses nodes: it puts the new node in the place of the old one and leaves its null
  \<^verbatim>\<open>hash_next\<close> as it is, so the keys behind the old node are no longer found.
\<close>

theorem intrusive_exchange_loses_keys:
  "\<exists>m. intrusive_exchange_nolock (Bucket 0) 0 3 two_keys = Some (m, True, 1) \<and>
     intrusive_get_nolock (Bucket 0) 2 two_keys = Some (True, 2) \<and> intrusive_get_nolock (Bucket 0) 2 m = Some (False, 0)"
  by (simp add: two_keys_def intrusive_exchange_nolock_def intrusive_get_nolock_def find_cell.simps)

end
