(* ===== verification/IntrusiveList.thy ===== *)
theory IntrusiveList
  imports Prelude "HOL-Library.Monad_Syntax"
begin

text \<open>
  The doubly linked list of \<^verbatim>\<open>include/common/intrusive_list.h\<close>, run by one thread. The links of the nodes are two functions
  from pointers to pointers, null being 0; a compare-and-exchange changes a link that has the expected value. The result
  \<open>None\<close> of an operation means that one of its loops does not end.
\<close>

record ilist =
  prev_of :: "nat \<Rightarrow> nat"
  next_of :: "nat \<Rightarrow> nat"
  header :: nat
  tail :: nat
  lsize :: u64

definition IntrusiveList :: "nat \<Rightarrow> nat \<Rightarrow> (nat \<Rightarrow> nat) \<Rightarrow> (nat \<Rightarrow> nat) \<Rightarrow> ilist" where
  "IntrusiveList h t p n = \<lparr>prev_of = p(h := 0, t := h), next_of = n(t := 0, h := t), header = h, tail = t, lsize = 0\<rparr>"

definition cas_prev :: "nat \<Rightarrow> nat \<Rightarrow> nat \<Rightarrow> ilist \<Rightarrow> ilist \<times> bool" where
  "cas_prev p expect desired l =
     (if prev_of l p = expect then (l\<lparr>prev_of := (prev_of l)(p := desired)\<rparr>, True) else (l, False))"

definition cas_next :: "nat \<Rightarrow> nat \<Rightarrow> nat \<Rightarrow> ilist \<Rightarrow> ilist \<times> bool" where
  "cas_next p expect desired l =
     (if next_of l p = expect then (l\<lparr>next_of := (next_of l)(p := desired)\<rparr>, True) else (l, False))"

text \<open>The loops that wait for a link to get its expected value: with one thread they succeed at once or never.\<close>

definition await_prev :: "nat \<Rightarrow> nat \<Rightarrow> nat \<Rightarrow> ilist \<Rightarrow> ilist option" where
  "await_prev p expect desired l = (let (l', ok) = cas_prev p expect desired l in if ok then Some l' else None)"

definition insert_once :: "nat \<Rightarrow> nat \<Rightarrow> nat \<Rightarrow> ilist \<Rightarrow> (ilist \<times> bool) option" where
  "insert_once prev next cur l =
     (if prev_of l next \<noteq> prev then Some (l, False)
      else
        let (l1, ok) = cas_prev cur 0 prev l in
        if \<not> ok then Some (l1, False)
        else
          let l2 = l1\<lparr>next_of := (next_of l1)(cur := next)\<rparr>;
              (l3, ok) = cas_next prev next cur l2 in
          if \<not> ok then Some (fst (cas_prev cur prev 0 (fst (cas_next cur next 0 l3))), False)
          else do { l4 \<leftarrow> await_prev next prev cur l3; Some (l4, True) })"

definition remove_once :: "nat \<Rightarrow> nat \<Rightarrow> nat \<Rightarrow> ilist \<Rightarrow> (ilist \<times> bool) option" where
  "remove_once prev next cur l =
     (if prev_of l next \<noteq> cur then Some (l, False)
      else if next_of l prev \<noteq> cur then Some (l, False)
      else
        let (l1, ok) = cas_prev cur prev 0 l in
        if \<not> ok then Some (l1, False)
        else
          let (l2, ok) = cas_next cur next 0 l1 in
          if \<not> ok then Some (fst (cas_prev cur 0 prev l2), False)
          else
            let (l3, ok) = cas_next prev cur next l2 in
            if \<not> ok then Some (fst (cas_next cur 0 next (fst (cas_prev cur 0 prev l3))), False)
            else do { l4 \<leftarrow> await_prev next cur prev l3; Some (l4, True) })"

partial_function (option) push_front_loop :: "nat \<Rightarrow> ilist \<Rightarrow> ilist option" where
  "push_front_loop cur l =
     (if prev_of l cur \<noteq> 0 then Some l
      else do {
        (l', ok) \<leftarrow> insert_once (header l) (next_of l (header l)) cur l;
        if ok then Some (l'\<lparr>lsize := lsize l' + 1\<rparr>) else push_front_loop cur l'
      })"

definition push_front :: "nat \<Rightarrow> ilist \<Rightarrow> ilist option" where
  "push_front cur l = (if cur = 0 then Some l else push_front_loop cur l)"

partial_function (option) push_back_loop :: "nat \<Rightarrow> ilist \<Rightarrow> ilist option" where
  "push_back_loop cur l =
     (if prev_of l cur \<noteq> 0 then Some l
      else do {
        (l', ok) \<leftarrow> insert_once (prev_of l (tail l)) (tail l) cur l;
        if ok then Some (l'\<lparr>lsize := lsize l' + 1\<rparr>) else push_back_loop cur l'
      })"

definition push_back :: "nat \<Rightarrow> ilist \<Rightarrow> ilist option" where
  "push_back cur l = (if cur = 0 then Some l else push_back_loop cur l)"

definition empty_l :: "ilist \<Rightarrow> bool" where
  "empty_l l \<longleftrightarrow> lsize l = 0"

partial_function (option) remove :: "nat \<Rightarrow> ilist \<Rightarrow> (ilist \<times> bool) option" where
  "remove p l =
     (let prev = prev_of l p; next = next_of l p in
      if prev = 0 \<or> next = 0 then Some (l, False)
      else do {
        (l', ok) \<leftarrow> remove_once prev next p l;
        if ok then Some (l'\<lparr>lsize := lsize l' - 1\<rparr>, True) else remove p l'
      })"

partial_function (option) pop_front :: "ilist \<Rightarrow> (ilist \<times> nat) option" where
  "pop_front l =
     (let cur = next_of l (header l) in
      if cur = tail l then Some (l, 0)
      else
        let next = next_of l cur in
        if next = 0 then pop_front l
        else do {
          (l', ok) \<leftarrow> remove_once (header l) next cur l;
          if ok then Some (l'\<lparr>lsize := lsize l' - 1\<rparr>, cur) else pop_front l'
        })"

partial_function (option) pop_back :: "ilist \<Rightarrow> (ilist \<times> nat) option" where
  "pop_back l =
     (let cur = prev_of l (tail l) in
      if cur = header l then Some (l, 0)
      else
        let prev = prev_of l cur in
        if prev = 0 then pop_back l
        else do {
          (l', ok) \<leftarrow> remove_once prev (tail l) cur l;
          if ok then Some (l'\<lparr>lsize := lsize l' - 1\<rparr>, cur) else pop_back l'
        })"

partial_function (option) clear_loop :: "nat \<Rightarrow> ilist \<Rightarrow> ilist option" where
  "clear_loop cur l =
     (if cur = tail l then Some l
      else
        let next = next_of l cur in
        clear_loop next (l\<lparr>next_of := (next_of l)(header l := next), prev_of := (prev_of l)(next := header l)\<rparr>))"

definition clear :: "ilist \<Rightarrow> ilist option" where
  "clear l = do { l' \<leftarrow> clear_loop (next_of l (header l)) l; Some (l'\<lparr>lsize := 0\<rparr>) }"

section \<open>Linked sequences\<close>

fun linked :: "ilist \<Rightarrow> nat list \<Rightarrow> bool" where
  "linked l (x # y # zs) \<longleftrightarrow> next_of l x = y \<and> prev_of l y = x \<and> linked l (y # zs)"
| "linked l _ \<longleftrightarrow> True"

lemma linked_append: "linked l (xs @ y # zs) \<longleftrightarrow> linked l (xs @ [y]) \<and> linked l (y # zs)"
  by (induction l xs rule: linked.induct) (auto simp: neq_Nil_conv)

lemma linked_frame:
  assumes "linked l xs" "\<And>x. x \<in> set (butlast xs) \<Longrightarrow> next_of l' x = next_of l x"
    "\<And>x. x \<in> set (tl xs) \<Longrightarrow> prev_of l' x = prev_of l x"
  shows "linked l' xs"
  using assms
proof (induction l xs rule: linked.induct)
  case (1 l x y zs)
  then show ?case
    by (cases zs) auto
qed auto

text \<open>A list of the nodes \<open>ps\<close>: its ends and its nodes are different and not null, and linked in order.\<close>

definition list_of :: "ilist \<Rightarrow> nat list \<Rightarrow> bool" where
  "list_of l ps \<longleftrightarrow> distinct (header l # ps @ [tail l]) \<and> 0 \<notin> set (header l # ps @ [tail l]) \<and>
     linked l (header l # ps @ [tail l]) \<and> prev_of l (header l) = 0 \<and> next_of l (tail l) = 0 \<and>
     lsize l = of_nat (length ps)"

lemma in_set_tlD: "x \<in> set (tl xs) \<Longrightarrow> x \<in> set xs"
  by (cases xs) auto

lemma insert_once_linked:
  assumes "linked l (as @ a # b # bs)" "distinct (as @ a # b # bs)" "cur \<notin> set (as @ a # b # bs)" "prev_of l cur = 0"
    and "l' = l\<lparr>prev_of := (prev_of l)(cur := a, b := cur), next_of := (next_of l)(cur := b, a := cur)\<rparr>"
  shows "insert_once a b cur l = Some (l', True)" "linked l' (as @ a # cur # b # bs)"
proof -
  have ab: "next_of l a = b" "prev_of l b = a" and parts: "linked l (as @ [a])" "linked l (b # bs)"
    using assms(1) linked_append [of l as a "b # bs"] by auto
  show "insert_once a b cur l = Some (l', True)"
    using ab assms by (auto simp: insert_once_def cas_prev_def cas_next_def await_prev_def)
  have "linked l' (as @ [a])"
    using assms by (intro linked_frame [OF parts(1)]) (auto dest: in_set_butlastD in_set_tlD)
  moreover have "linked l' (b # bs)"
    using assms by (intro linked_frame [OF parts(2)]) (auto dest: in_set_butlastD split: if_splits)
  ultimately show "linked l' (as @ a # cur # b # bs)"
    using assms linked_append [of l' as a "cur # b # bs"] by auto
qed

lemma remove_once_linked:
  assumes "linked l (as @ a # c # b # bs)" "distinct (as @ a # c # b # bs)"
    and "l' = l\<lparr>prev_of := (prev_of l)(c := 0, b := a), next_of := (next_of l)(c := 0, a := b)\<rparr>"
  shows "remove_once a b c l = Some (l', True)" "linked l' (as @ a # b # bs)"
proof -
  have ab: "next_of l a = c" "prev_of l c = a" "next_of l c = b" "prev_of l b = c"
    and parts: "linked l (as @ [a])" "linked l (b # bs)"
    using assms(1) linked_append [of l as a "c # b # bs"] by auto
  show "remove_once a b c l = Some (l', True)"
    using ab assms by (auto simp: remove_once_def cas_prev_def cas_next_def await_prev_def)
  have "linked l' (as @ [a])"
    using assms by (intro linked_frame [OF parts(1)]) (auto dest: in_set_butlastD in_set_tlD)
  moreover have "linked l' (b # bs)"
    using assms by (intro linked_frame [OF parts(2)]) (auto dest: in_set_butlastD split: if_splits)
  ultimately show "linked l' (as @ a # b # bs)"
    using assms linked_append [of l' as a "b # bs"] by auto
qed

text \<open>The operations change the links of the list and of the node they are given, and nothing else.\<close>

definition whole :: "ilist \<Rightarrow> nat list \<Rightarrow> nat list" where
  "whole l ps = header l # ps @ [tail l]"

definition changes_only :: "nat set \<Rightarrow> ilist \<Rightarrow> ilist \<Rightarrow> bool" where
  "changes_only A l l' \<longleftrightarrow> header l' = header l \<and> tail l' = tail l \<and>
     (\<forall>x. x \<notin> A \<longrightarrow> prev_of l' x = prev_of l x \<and> next_of l' x = next_of l x)"

lemma list_ofD:
  assumes "list_of l ps"
  shows "distinct (whole l ps)" "0 \<notin> set (whole l ps)" "linked l (whole l ps)" "prev_of l (header l) = 0"
    "next_of l (tail l) = 0" "lsize l = of_nat (length ps)"
  using assms by (auto simp: list_of_def whole_def)

lemma list_ofI:
  assumes "changes_only A l l'" "distinct (whole l ps)" "0 \<notin> set (whole l ps)" "linked l' (whole l ps)"
    "prev_of l' (header l) = 0" "next_of l' (tail l) = 0" "lsize l' = of_nat (length ps)"
  shows "list_of l' ps"
  using assms by (auto simp: list_of_def whole_def changes_only_def)

lemma insert_between:
  assumes list: "list_of l (ps @ qs)" and cur: "cur \<notin> set (whole l (ps @ qs))" "cur \<noteq> 0" "prev_of l cur = 0"
    and ab: "header l # ps = as @ [a]" "qs @ [tail l] = b # bs"
  obtains l' where "insert_once a b cur l = Some (l', True)" "list_of (l'\<lparr>lsize := lsize l' + 1\<rparr>) (ps @ cur # qs)"
    "changes_only (set (cur # whole l (ps @ qs))) l l'"
proof -
  have w: "whole l (ps @ qs) = as @ a # b # bs" "whole l (ps @ cur # qs) = as @ a # cur # b # bs"
    using ab by (auto simp: whole_def)
  define l' where "l' = l\<lparr>prev_of := (prev_of l)(cur := a, b := cur), next_of := (next_of l)(cur := b, a := cur)\<rparr>"
  note D = list_ofD [OF list]
  have L: "insert_once a b cur l = Some (l', True)" "linked l' (as @ a # cur # b # bs)"
    using insert_once_linked [of l as a b bs cur l'] D(1,3) cur l'_def unfolding w by simp_all
  have c: "changes_only (set (cur # whole l (ps @ qs))) l l'"
    by (auto simp: changes_only_def l'_def w)
  have "header l \<noteq> b" "tail l \<noteq> a"
    using D(1) ab by (auto simp: whole_def Cons_eq_append_conv append_eq_Cons_conv)
  moreover have "header l \<noteq> cur" "tail l \<noteq> cur"
    using cur(1) by (auto simp: whole_def)
  ultimately have ends: "prev_of l' (header l) = 0" "next_of l' (tail l) = 0"
    using D(4,5) by (simp_all add: l'_def)
  let ?l = "l'\<lparr>lsize := lsize l' + 1\<rparr>"
  have "list_of ?l (ps @ cur # qs)"
  proof (rule list_ofI [of "set (cur # whole l (ps @ qs))" l])
    show "linked ?l (whole l (ps @ cur # qs))"
      unfolding w using L(2) by (rule linked_frame) simp_all
    show "distinct (whole l (ps @ cur # qs))" "0 \<notin> set (whole l (ps @ cur # qs))"
      using D(1,2) cur(1,2) by (auto simp: whole_def)
    show "lsize ?l = of_nat (length (ps @ cur # qs))"
      using D(6) by (simp add: l'_def)
  qed (use c ends in \<open>simp_all add: changes_only_def\<close>)
  then show ?thesis
    using that L(1) c by blast
qed

lemma remove_between:
  assumes list: "list_of l (ps @ c # qs)" and ab: "header l # ps = as @ [a]" "qs @ [tail l] = b # bs"
  obtains l' where "remove_once a b c l = Some (l', True)" "list_of (l'\<lparr>lsize := lsize l' - 1\<rparr>) (ps @ qs)"
    "changes_only (set (whole l (ps @ c # qs))) l l'" "prev_of l' c = 0" "next_of l' c = 0"
    "prev_of l c = a" "next_of l c = b" "next_of l a = c" "prev_of l b = c"
proof -
  have w: "whole l (ps @ c # qs) = as @ a # c # b # bs" "whole l (ps @ qs) = as @ a # b # bs"
    using ab by (auto simp: whole_def)
  define l' where "l' = l\<lparr>prev_of := (prev_of l)(c := 0, b := a), next_of := (next_of l)(c := 0, a := b)\<rparr>"
  note D = list_ofD [OF list]
  have L: "remove_once a b c l = Some (l', True)" "linked l' (as @ a # b # bs)"
    using remove_once_linked [of l as a c b bs l'] D(1,3) l'_def unfolding w by simp_all
  have abc: "prev_of l c = a" "next_of l c = b" "next_of l a = c" "prev_of l b = c" "c \<noteq> a" "c \<noteq> b"
    using D(1,3) linked_append [of l as a "c # b # bs"] unfolding w by auto
  have c: "changes_only (set (whole l (ps @ c # qs))) l l'"
    by (auto simp: changes_only_def l'_def w)
  have "header l \<noteq> b" "tail l \<noteq> a" "header l \<noteq> c" "tail l \<noteq> c"
    using D(1) ab by (auto simp: whole_def Cons_eq_append_conv append_eq_Cons_conv)
  then have ends: "prev_of l' (header l) = 0" "next_of l' (tail l) = 0"
    using D(4,5) by (simp_all add: l'_def)
  let ?l = "l'\<lparr>lsize := lsize l' - 1\<rparr>"
  have "list_of ?l (ps @ qs)"
  proof (rule list_ofI [of "set (whole l (ps @ c # qs))" l])
    show "linked ?l (whole l (ps @ qs))"
      unfolding w using L(2) by (rule linked_frame) simp_all
    show "distinct (whole l (ps @ qs))" "0 \<notin> set (whole l (ps @ qs))"
      using D(1,2) by (auto simp: whole_def)
    show "lsize ?l = of_nat (length (ps @ qs))"
      using D(6) by (simp add: l'_def)
  qed (use c ends in \<open>simp_all add: changes_only_def\<close>)
  moreover have "prev_of l' c = 0" "next_of l' c = 0"
    using abc(5,6) by (auto simp: l'_def)
  ultimately show ?thesis
    using that [OF L(1) _ c] abc by blast
qed

lemma last_split:
  obtains as a where "h # ps = as @ [a]"
  using rev_exhaust [of "h # ps"] by blast

lemma first_link: "list_of l ps \<Longrightarrow> ps @ [tail l] = b # bs \<Longrightarrow> next_of l (header l) = b"
  by (cases ps) (auto simp: list_of_def)

lemma last_link:
  assumes "list_of l ps" "header l # ps = as @ [a]"
  shows "prev_of l (tail l) = a"
proof -
  have "linked l ((header l # ps) @ [tail l])"
    using assms(1) by (simp add: list_of_def)
  then have "linked l (as @ a # [tail l])"
    unfolding assms(2) by simp
  then show ?thesis
    by (simp add: linked_append [of l as _ "[tail l]"])
qed

lemma push_front_spec:
  assumes "list_of l ps" "cur \<notin> set (whole l ps)" "cur \<noteq> 0" "prev_of l cur = 0"
  obtains l' where "push_front cur l = Some l'" "list_of l' (cur # ps)" "changes_only (set (cur # whole l ps)) l l'"
proof -
  obtain b bs where b: "ps @ [tail l] = b # bs"
    by (cases ps) auto
  then have n: "next_of l (header l) = b"
    by (rule first_link [OF assms(1)])
  obtain l' where l': "insert_once (header l) b cur l = Some (l', True)" "list_of (l'\<lparr>lsize := lsize l' + 1\<rparr>) ([] @ cur # ps)"
    "changes_only (set (cur # whole l ([] @ ps))) l l'"
    using insert_between [of l "[]" ps cur "[]" "header l" b bs] assms b by auto
  then show ?thesis
    using that [of "l'\<lparr>lsize := lsize l' + 1\<rparr>"] assms n
    by (simp add: push_front_def push_front_loop.simps [of cur l] changes_only_def)
qed

lemma push_back_spec:
  assumes "list_of l ps" "cur \<notin> set (whole l ps)" "cur \<noteq> 0" "prev_of l cur = 0"
  obtains l' where "push_back cur l = Some l'" "list_of l' (ps @ [cur])" "changes_only (set (cur # whole l ps)) l l'"
proof -
  obtain as a where as: "header l # ps = as @ [a]"
    by (rule last_split)
  obtain l' where l': "insert_once a (tail l) cur l = Some (l', True)"
    "list_of (l'\<lparr>lsize := lsize l' + 1\<rparr>) (ps @ cur # [])" "changes_only (set (cur # whole l (ps @ []))) l l'"
    using insert_between [of l ps "[]" cur as a "tail l" "[]"] assms as by auto
  then show ?thesis
    using that [of "l'\<lparr>lsize := lsize l' + 1\<rparr>"] assms last_link [OF assms(1) as]
    by (simp add: push_back_def push_back_loop.simps [of cur l] changes_only_def)
qed

lemma remove_spec:
  assumes "list_of l (ps @ c # qs)"
  obtains l' where "remove c l = Some (l', True)" "list_of l' (ps @ qs)" "changes_only (set (whole l (ps @ c # qs))) l l'"
    "prev_of l' c = 0"
proof -
  obtain as a where as: "header l # ps = as @ [a]"
    by (rule last_split)
  obtain b bs where b: "qs @ [tail l] = b # bs"
    by (cases qs) auto
  obtain l' where l': "remove_once a b c l = Some (l', True)" "list_of (l'\<lparr>lsize := lsize l' - 1\<rparr>) (ps @ qs)"
    "changes_only (set (whole l (ps @ c # qs))) l l'" "prev_of l' c = 0"
    "prev_of l c = a" "next_of l c = b"
    using remove_between [OF assms as b] by blast
  have "whole l (ps @ c # qs) = as @ a # c # b # bs"
    using as b by (simp add: whole_def)
  then have "a \<noteq> 0" "b \<noteq> 0"
    using list_ofD(2) [OF assms] by auto
  then show ?thesis
    using that [of "l'\<lparr>lsize := lsize l' - 1\<rparr>"] l'
    by (simp add: remove.simps [of c l] changes_only_def)
qed

lemma listed_prev:
  assumes "list_of l (ps @ c # qs)"
  shows "prev_of l c \<noteq> 0"
proof -
  obtain as a where as: "header l # ps = as @ [a]"
    by (rule last_split)
  obtain b bs where b: "qs @ [tail l] = b # bs"
    by (cases qs) auto
  have "prev_of l c = a"
    using remove_between [OF assms as b] by blast
  moreover have "a \<in> set (header l # ps)"
    using as by simp
  ultimately show ?thesis
    using assms by (auto simp: list_of_def)
qed

lemma pop_front_links:
  assumes "list_of l (c # qs)"
  obtains l' where "pop_front l = Some (l', c)" "list_of l' qs" "changes_only (set (whole l (c # qs))) l l'" "prev_of l' c = 0"
proof -
  obtain b bs where b: "qs @ [tail l] = b # bs"
    by (cases qs) auto
  obtain l' where l': "remove_once (header l) b c l = Some (l', True)" "list_of (l'\<lparr>lsize := lsize l' - 1\<rparr>) qs"
    "changes_only (set (whole l (c # qs))) l l'" "prev_of l' c = 0" "next_of l c = b" "next_of l (header l) = c"
    using remove_between [of l "[]" c qs "[]" "header l" b bs] assms b by auto
  have "whole l (c # qs) = header l # c # b # bs" "tail l \<in> set (b # bs)"
    using b by (simp_all add: whole_def flip: b)
  then have "c \<noteq> tail l" "b \<noteq> 0"
    using list_ofD(1,2) [OF assms] by auto
  then show ?thesis
    using that [of "l'\<lparr>lsize := lsize l' - 1\<rparr>"] l' by (simp add: pop_front.simps [of l] changes_only_def)
qed

lemma pop_back_links:
  assumes "list_of l (ps @ [c])"
  obtains l' where "pop_back l = Some (l', c)" "list_of l' ps" "changes_only (set (whole l (ps @ [c]))) l l'" "prev_of l' c = 0"
proof -
  obtain as a where as: "header l # ps = as @ [a]"
    by (rule last_split)
  obtain l' where l': "remove_once a (tail l) c l = Some (l', True)" "list_of (l'\<lparr>lsize := lsize l' - 1\<rparr>) ps"
    "changes_only (set (whole l (ps @ [c]))) l l'" "prev_of l' c = 0" "prev_of l c = a" "prev_of l (tail l) = c"
    using remove_between [of l ps c "[]" as a "tail l" "[]"] assms as by auto
  have "a \<in> set (header l # ps)"
    using as by simp
  moreover have "0 \<notin> set (header l # ps)" "c \<noteq> header l"
    using list_ofD(1,2) [OF assms] by (auto simp: whole_def)
  ultimately have "c \<noteq> header l" "a \<noteq> 0"
    by (blast, metis)
  then show ?thesis
    using that [of "l'\<lparr>lsize := lsize l' - 1\<rparr>"] l' by (simp add: pop_back.simps [of l] changes_only_def)
qed

lemma pop_empty: "list_of l [] \<Longrightarrow> pop_front l = Some (l, 0) \<and> pop_back l = Some (l, 0)"
  by (simp add: list_of_def pop_front.simps [of l] pop_back.simps [of l])

text \<open>\<^verbatim>\<open>clear\<close> leaves the nodes as they are: each keeps a predecessor, the header.\<close>

lemma clear_loop_spec:
  assumes "list_of (l\<lparr>lsize := of_nat (length (c # qs))\<rparr>) (c # qs)"
  shows "\<exists>l'. clear_loop c l = Some l' \<and> list_of (l'\<lparr>lsize := 0\<rparr>) [] \<and> (\<forall>x. prev_of l x \<noteq> 0 \<longrightarrow> prev_of l' x \<noteq> 0)"
  using assms
proof (induction qs arbitrary: c l)
  case Nil
  let ?l = "l\<lparr>next_of := (next_of l)(header l := tail l), prev_of := (prev_of l)(tail l := header l)\<rparr>"
  have "clear_loop c l = clear_loop (tail l) ?l"
    using Nil by (subst clear_loop.simps) (simp add: list_of_def Let_def)
  also have "\<dots> = Some ?l"
    by (simp add: clear_loop.simps)
  finally show ?case
    using Nil by (auto simp: list_of_def)
next
  case (Cons q qs)
  let ?l = "l\<lparr>next_of := (next_of l)(header l := q), prev_of := (prev_of l)(q := header l)\<rparr>"
  let ?l1 = "?l\<lparr>lsize := of_nat (length (q # qs))\<rparr>"
  have "clear_loop c l = clear_loop q ?l"
    using Cons(2) by (subst clear_loop.simps) (simp add: list_of_def Let_def)
  moreover have "list_of ?l1 (q # qs)"
  proof (rule list_ofI [of UNIV l])
    have "linked (l\<lparr>lsize := of_nat (length (c # q # qs))\<rparr>) (q # qs @ [tail l])"
      using Cons(2) by (simp add: list_of_def)
    then have "linked ?l1 (q # qs @ [tail l])"
      by (rule linked_frame) (use Cons(2) in \<open>auto simp: list_of_def dest: in_set_butlastD split: if_splits\<close>)
    then show "linked ?l1 (whole l (q # qs))"
      by (simp add: whole_def)
  qed (use Cons(2) in \<open>auto simp: list_of_def whole_def changes_only_def\<close>)
  then obtain l' where l': "clear_loop q ?l = Some l'" "list_of (l'\<lparr>lsize := 0\<rparr>) []" "\<And>x. prev_of ?l x \<noteq> 0 \<Longrightarrow> prev_of l' x \<noteq> 0"
    using Cons(1) [of q ?l] by blast
  moreover have "prev_of l' x \<noteq> 0" if "prev_of l x \<noteq> 0" for x
    using that l'(3) [of x] Cons(2) by (auto simp: list_of_def split: if_splits)
  ultimately show ?case
    by auto
qed

lemma clear_spec:
  assumes "list_of l ps"
  shows "\<exists>l'. clear l = Some l' \<and> list_of l' [] \<and> (\<forall>x. prev_of l x \<noteq> 0 \<longrightarrow> prev_of l' x \<noteq> 0)"
proof (cases ps)
  case Nil
  then have "clear_loop (next_of l (header l)) l = Some l" "l\<lparr>lsize := 0\<rparr> = l"
    using assms by (auto simp: list_of_def clear_loop.simps)
  then show ?thesis
    using assms Nil by (simp add: clear_def)
next
  case (Cons c qs)
  then have "next_of l (header l) = c" "l\<lparr>lsize := of_nat (length (c # qs))\<rparr> = l"
    using assms by (auto simp: list_of_def)
  then show ?thesis
    using clear_loop_spec [of c qs l] assms Cons by (fastforce simp: clear_def)
qed

lemma constructed_list: "distinct [h, t, 0] \<Longrightarrow> list_of (IntrusiveList h t p n) []"
  by (auto simp: list_of_def IntrusiveList_def)

section \<open>Sequences of operations\<close>

text \<open>The operations with what they return (a node, or whether a node was removed), and what they do to a list of nodes.\<close>

datatype list_op = PushFront nat | PushBack nat | Remove nat | PopFront | PopBack

fun op_node :: "list_op \<Rightarrow> nat option" where
  "op_node (PushFront c) = Some c"
| "op_node (PushBack c) = Some c"
| "op_node (Remove c) = Some c"
| "op_node _ = None"

fun run_op :: "list_op \<Rightarrow> ilist \<Rightarrow> (ilist \<times> nat) option" where
  "run_op (PushFront c) l = map_option (\<lambda>l'. (l', 0)) (push_front c l)"
| "run_op (PushBack c) l = map_option (\<lambda>l'. (l', 0)) (push_back c l)"
| "run_op (Remove c) l = map_option (\<lambda>(l', ok). (l', of_bool ok)) (remove c l)"
| "run_op PopFront l = pop_front l"
| "run_op PopBack l = pop_back l"

fun spec_op :: "list_op \<Rightarrow> nat list \<Rightarrow> nat list \<times> nat" where
  "spec_op (PushFront c) ps = (if c \<in> set ps then ps else c # ps, 0)"
| "spec_op (PushBack c) ps = (if c \<in> set ps then ps else ps @ [c], 0)"
| "spec_op (Remove c) ps = (remove1 c ps, of_bool (c \<in> set ps))"
| "spec_op PopFront ps = (tl ps, if ps = [] then 0 else hd ps)"
| "spec_op PopBack ps = (butlast ps, if ps = [] then 0 else last ps)"

fun run_ops :: "list_op list \<Rightarrow> ilist \<Rightarrow> (ilist \<times> nat list) option" where
  "run_ops [] l = Some (l, [])"
| "run_ops (x # xs) l = do { (l1, r) \<leftarrow> run_op x l; (l2, rs) \<leftarrow> run_ops xs l1; Some (l2, r # rs) }"

fun spec_ops :: "list_op list \<Rightarrow> nat list \<Rightarrow> nat list \<times> nat list" where
  "spec_ops [] ps = (ps, [])"
| "spec_ops (x # xs) ps = (let (qs, r) = spec_op x ps; (rs, us) = spec_ops xs qs in (rs, r # us))"

text \<open>A list outside of which no node has a predecessor, which is how the code knows that a node is not in the list.\<close>

definition clean_list :: "nat \<Rightarrow> nat \<Rightarrow> ilist \<Rightarrow> nat list \<Rightarrow> bool" where
  "clean_list h t l ps \<longleftrightarrow> list_of l ps \<and> header l = h \<and> tail l = t \<and> (\<forall>x. x \<notin> set (whole l ps) \<longrightarrow> prev_of l x = 0)"

lemma clean_insert:
  assumes "clean_list h t l ps" "list_of l' qs" "changes_only (set (cur # whole l ps)) l l'" "set qs = insert cur (set ps)"
  shows "clean_list h t l' qs"
  using assms by (auto simp: clean_list_def changes_only_def whole_def)

lemma clean_delete:
  assumes "clean_list h t l ps" "list_of l' qs" "changes_only (set (whole l ps)) l l'" "prev_of l' c = 0" "set ps = insert c (set qs)"
  shows "clean_list h t l' qs"
proof -
  have "prev_of l' x = 0" if "x \<notin> set (whole l' qs)" for x
    using that assms by (cases "x = c") (auto simp: clean_list_def changes_only_def whole_def)
  then show ?thesis
    using assms by (simp add: clean_list_def changes_only_def)
qed

lemma listed_node:
  assumes "clean_list h t l ps" "c \<in> set ps"
  shows "push_front c l = Some l" "push_back c l = Some l" "c \<noteq> 0"
    "\<exists>l'. remove c l = Some (l', True) \<and> clean_list h t l' (remove1 c ps)"
proof -
  obtain qs rs where ps: "ps = qs @ c # rs" "c \<notin> set qs"
    using assms(2) by (metis split_list_first)
  have L: "list_of l (qs @ c # rs)"
    using assms(1) ps(1) by (simp add: clean_list_def)
  note listed_prev [OF L]
  then show "push_front c l = Some l" "push_back c l = Some l"
    by (simp_all add: push_front_def push_back_def push_front_loop.simps [of c l] push_back_loop.simps [of c l])
  show "c \<noteq> 0"
    using L by (auto simp: list_of_def)
  obtain l' where l': "remove c l = Some (l', True)" "list_of l' (qs @ rs)" "changes_only (set (whole l (qs @ c # rs))) l l'" "prev_of l' c = 0"
    by (rule remove_spec [OF L])
  moreover have "remove1 c ps = qs @ rs"
    using ps by (simp add: remove1_append)
  moreover have "clean_list h t l' (qs @ rs)"
    by (rule clean_delete [OF assms(1) l'(2)]) (use l' ps in simp_all)
  ultimately show "\<exists>l'. remove c l = Some (l', True) \<and> clean_list h t l' (remove1 c ps)"
    by simp
qed

lemma unlisted_node:
  assumes "clean_list h t l ps" "c \<notin> set ps" "c \<notin> {0, h, t}"
  shows "\<exists>l'. push_front c l = Some l' \<and> clean_list h t l' (c # ps)" "\<exists>l'. push_back c l = Some l' \<and> clean_list h t l' (ps @ [c])"
    "remove c l = Some (l, False)"
proof -
  have L: "list_of l ps" "c \<notin> set (whole l ps)" "c \<noteq> 0" "prev_of l c = 0"
    using assms by (auto simp: clean_list_def whole_def)
  show "remove c l = Some (l, False)"
    using L(4) by (simp add: remove.simps [of c l])
  obtain l1 where l1: "push_front c l = Some l1" "list_of l1 (c # ps)" "changes_only (set (c # whole l ps)) l l1"
    by (rule push_front_spec [OF L])
  then show "\<exists>l'. push_front c l = Some l' \<and> clean_list h t l' (c # ps)"
    using clean_insert [OF assms(1) l1(2,3)] by simp
  obtain l2 where l2: "push_back c l = Some l2" "list_of l2 (ps @ [c])" "changes_only (set (c # whole l ps)) l l2"
    by (rule push_back_spec [OF L])
  then show "\<exists>l'. push_back c l = Some l' \<and> clean_list h t l' (ps @ [c])"
    using clean_insert [OF assms(1) l2(2,3)] by simp
qed

lemma pop_nodes:
  assumes "clean_list h t l ps" "ps \<noteq> []"
  shows "\<exists>l'. pop_front l = Some (l', hd ps) \<and> clean_list h t l' (tl ps)" "\<exists>l'. pop_back l = Some (l', last ps) \<and> clean_list h t l' (butlast ps)"
proof -
  have L: "list_of l (hd ps # tl ps)" "list_of l (butlast ps @ [last ps])"
    using assms by (simp_all add: clean_list_def)
  have w: "hd ps # tl ps = ps" "butlast ps @ [last ps] = ps"
    using assms(2) by simp_all
  have set_eq: "set ps = insert (hd ps) (set (tl ps))" "set ps = insert (last ps) (set (butlast ps))"
    using assms(2) arg_cong [OF w(2), of set] by (cases ps; auto)+
  obtain l1 where l1: "pop_front l = Some (l1, hd ps)" "list_of l1 (tl ps)" "changes_only (set (whole l ps)) l l1" "prev_of l1 (hd ps) = 0"
    using pop_front_links [OF L(1)] unfolding w(1) by blast
  show "\<exists>l'. pop_front l = Some (l', hd ps) \<and> clean_list h t l' (tl ps)"
    using l1(1) clean_delete [OF assms(1) l1(2-4) set_eq(1)] by blast
  obtain l2 where l2: "pop_back l = Some (l2, last ps)" "list_of l2 (butlast ps)" "changes_only (set (whole l ps)) l l2" "prev_of l2 (last ps) = 0"
    using pop_back_links [OF L(2)] unfolding w(2) by blast
  show "\<exists>l'. pop_back l = Some (l', last ps) \<and> clean_list h t l' (butlast ps)"
    using l2(1) clean_delete [OF assms(1) l2(2-4) set_eq(2)] by blast
qed

lemma run_op_spec:
  assumes "clean_list h t l ps" "\<forall>c. op_node x = Some c \<longrightarrow> c \<notin> {0, h, t}"
  shows "\<exists>l'. run_op x l = Some (l', snd (spec_op x ps)) \<and> clean_list h t l' (fst (spec_op x ps))"
proof (cases x)
  case (PushFront c)
  then show ?thesis
    using assms listed_node(1) [OF assms(1), of c] unlisted_node(1) [OF assms(1), of c] by (cases "c \<in> set ps") auto
next
  case (PushBack c)
  then show ?thesis
    using assms listed_node(2) [OF assms(1), of c] unlisted_node(2) [OF assms(1), of c] by (cases "c \<in> set ps") auto
next
  case (Remove c)
  then show ?thesis
    using assms listed_node(4) [OF assms(1), of c] unlisted_node(3) [OF assms(1), of c] by (cases "c \<in> set ps") (auto simp: remove1_idem)
next
  case PopFront
  then show ?thesis
    using assms pop_nodes(1) [OF assms(1)] pop_empty [of l] by (cases "ps = []") (auto simp: clean_list_def)
next
  case PopBack
  then show ?thesis
    using assms pop_nodes(2) [OF assms(1)] pop_empty [of l] by (cases "ps = []") (auto simp: clean_list_def)
qed

lemma run_ops_spec:
  assumes "clean_list h t l ps" "\<forall>x \<in> set xs. \<forall>c. op_node x = Some c \<longrightarrow> c \<notin> {0, h, t}"
  shows "\<exists>l'. run_ops xs l = Some (l', snd (spec_ops xs ps)) \<and> clean_list h t l' (fst (spec_ops xs ps))"
  using assms
proof (induction xs arbitrary: l ps)
  case (Cons x xs)
  obtain l1 where l1: "run_op x l = Some (l1, snd (spec_op x ps))" "clean_list h t l1 (fst (spec_op x ps))"
    using run_op_spec [OF Cons(2), of x] Cons(3) by auto
  obtain l2 where "run_ops xs l1 = Some (l2, snd (spec_ops xs (fst (spec_op x ps))))" "clean_list h t l2 (fst (spec_ops xs (fst (spec_op x ps))))"
    using Cons(1) [OF l1(2)] Cons(3) by auto
  then show ?case
    using l1(1) by (simp add: case_prod_beta Let_def)
qed simp

text \<open>
  C33. Run by one thread the intrusive list is a list of nodes without repetitions. Every sequence of pushes, removals and pops on a new list,
  with any nodes other than null and the ends, returns what it returns on a list: pushing a listed node changes nothing,
  \<^verbatim>\<open>remove\<close> tells whether the node was listed, the pops return the ends or null, and a node that was removed or popped can be
  pushed again. The links and the size agree with the list afterwards, and none of the loops runs for ever. \<^verbatim>\<open>clear\<close> then
  leaves no node, but pushing one of the nodes it has taken out does nothing, because \<^verbatim>\<open>clear\<close> leaves their links set.
\<close>

theorem intrusive_list_refines:
  assumes "distinct [h, t, 0]" "\<forall>x \<in> set xs. \<forall>c. op_node x = Some c \<longrightarrow> c \<notin> {0, h, t}" "spec_ops xs [] = (ps, rs)"
  shows "\<exists>l. run_ops xs (IntrusiveList h t (\<lambda>_. 0) (\<lambda>_. 0)) = Some (l, rs) \<and> list_of l ps \<and>
    (\<exists>l'. clear l = Some l' \<and> list_of l' [] \<and> (\<forall>c \<in> set ps. push_front c l' = Some l' \<and> push_back c l' = Some l'))"
proof -
  have "clean_list h t (IntrusiveList h t (\<lambda>_. 0) (\<lambda>_. 0)) []"
    using constructed_list [OF assms(1)] by (auto simp: clean_list_def whole_def IntrusiveList_def)
  from run_ops_spec [OF this assms(2)] assms(3) obtain l where
    l: "run_ops xs (IntrusiveList h t (\<lambda>_. 0) (\<lambda>_. 0)) = Some (l, rs)" "list_of l ps"
    by (auto simp: clean_list_def)
  obtain l' where l': "clear l = Some l'" "list_of l' []" "\<And>x. prev_of l x \<noteq> 0 \<Longrightarrow> prev_of l' x \<noteq> 0"
    using clear_spec [OF l(2)] by blast
  have "prev_of l' c \<noteq> 0" if "c \<in> set ps" for c
    using that l(2) l'(3) listed_prev [of l] by (metis split_list)
  then have "\<forall>c \<in> set ps. push_front c l' = Some l' \<and> push_back c l' = Some l'"
    by (simp add: push_front_def push_back_def push_front_loop.simps [of _ l'] push_back_loop.simps [of _ l'])
  then show ?thesis
    using l l'(1,2) by blast
qed

text \<open>Node 3 is pushed, removed and pushed again behind node 4, and node 4 is popped.\<close>

theorem intrusive_list_refines_witness:
  "\<exists>l. run_ops [PushFront 3, PushBack 4, Remove 3, PushBack 3, PopFront, Remove 4] (IntrusiveList 1 2 (\<lambda>_. 0) (\<lambda>_. 0)) = Some (l, [0, 0, 1, 0, 4, 0]) \<and>
     list_of l [3]"
  using intrusive_list_refines [of 1 2 "[PushFront 3, PushBack 4, Remove 3, PushBack 3, PopFront, Remove 4]" "[3]" "[0, 0, 1, 0, 4, 0]"]
  by fastforce

end
