(* ===== verification/Spec2Isabelle.thy ===== *)
theory Spec2Isabelle
  imports HttpMessages TimeThread ConcurrentHashMap IntrusiveList
begin

text \<open>
  A verification library for the SOFABolt C++ client, an RPC client that speaks the Bolt protocol and HTTP/1.1 over TCP.

  \<^bold>\<open>The program.\<close> A caller fills a request and sends it through a session. The protocol of the channel writes the request
  into an \<^verbatim>\<open>IOBuffer\<close>, a vector of slices into reference-counted blocks, and the socket hands the buffer to the
  kernel. Bytes from the server are appended to the read buffer of the socket; the protocol looks for a complete response at
  its front (Bolt: a fixed header with lengths; HTTP: a parser fed slice by slice), and the response object is filled from
  these bytes. Locks, queues and tables shared by the threads of the client are classes of its own.

  \<^bold>\<open>The theories\<close>, each opening with what it holds; file names are relative to \<^verbatim>\<open>src/\<close>, its \<^verbatim>\<open>src\<close> and \<^verbatim>\<open>include\<close>.

  \<^descr>[Prelude] Machine integers and their memory images in both byte orders, decimal numbers, facts on lists, options and words.
  \<^descr>[IOBuffer] \<^verbatim>\<open>common/io_buffer.{h,cpp}\<close>. The heap is an explicit store of blocks with the thread-local chain of blocks that
    have free space; a buffer is its vector of slices and the index of the first one not consumed. Every operation of the class that
    reads or changes its contents is a definition, reading from and writing to file descriptors included; two buffers that an
    operation takes are different ones. The invariants \<open>heap_ok\<close> and \<open>buf_ok\<close> are kept by
    all of them. The contents of a buffer are \<open>to_string\<close>: appending, cutting and removing are list operations on the
    contents, and no operation changes the contents of another buffer, although blocks are shared. One theorem says what move
    assignment and appending a buffer do with slices that are already consumed. The locale \<open>byte_sink\<close> is
    what a serialiser relies on.
  \<^descr>[ByteStreams] The zero-copy streams of \<^verbatim>\<open>io_buffer.cpp\<close>, and the locale \<open>byte_source\<close> with its instances: what the
    protocols rely on when they read and write through buffers and streams.
  \<^descr>[BoltRequest, BoltResponse] \<^verbatim>\<open>protocol/bolt\<close>. The packed headers and their memory images, the requests and their bytes on
    the wire, the search for the end of a response and its parsing. The layout theorems give the exact bytes; the round
    trip theorems say that what a server writes is what the caller gets, as a string or decoded from all bytes of the content; \<open>deserialize\<close> returns for all input. Three theorems
    are about lengths that do not fit their fields.
  \<^descr>[HttpTypes, HttpUrl, HttpParser] \<^verbatim>\<open>protocol/http/http_parser.{h,c}\<close>. The tables, the URL automaton, and
    \<^verbatim>\<open>http_parser_execute\<close> with one definition for each case of its state switch. The loops end because of a rank on
    states and the position in the buffer.
  \<^descr>[HttpParserSafety] An invariant of the parser that every call keeps for all input: no assertion of the source fails and no
    byte outside the buffer is read; lengths are exact or refused; bodies are delivered byte for byte, and their last byte completes
    the message.
  \<^descr>[Uri] \<^verbatim>\<open>common/uri.{h,cpp}\<close>. The URI parser with its \<^verbatim>\<open>int\<close> arithmetic; the parts come back from their text, and
    every text that is accepted is the parts found in it, in a row.
  \<^descr>[HttpMessages] The other files of \<^verbatim>\<open>protocol/http\<close>, where buffers, URIs and the HTTP parser meet: requests and their bytes,
    the callbacks that collect a response, and \<^verbatim>\<open>HttpResponse::checkHeader\<close>, which feeds the slices of a buffer to the
    parser. It is safe for all input, and a body in any number of buffers reaches the caller unchanged. It
    takes whole slices, so what follows a response in its last slice goes with it.
  \<^descr>[LifeCycleLock] \<^verbatim>\<open>common/life_cycle_lock.h\<close>. The atomic accesses to the word of the lock and a step relation that interleaves
    those of any number of threads: mutual exclusion; an announced upgrade that nobody can overtake or take away; and how
    the re-entrant announcement loses one. Which threads count, and in what role, is history that the relation carries along.
  \<^descr>[LockFreeQueue] \<^verbatim>\<open>common/lockfree_queue.h\<close>. The three ring queues: run alone they implement the locale \<open>bounded_queue\<close>; the
    step relations interleave the accesses to the shared indices, and histories record what is pushed and popped.
  \<^descr>[ConcurrentHashMap] \<^verbatim>\<open>common/concurrent_hash_map.h\<close>. The chains of nodes with explicit pointers, as the code relinks them, and
    every operation under the lock of its bucket; the table implements the locale \<open>map_store\<close> for every hash function.
  \<^descr>[IntrusiveList] \<^verbatim>\<open>common/intrusive_list.h\<close>. The links as functions on pointers; sequences of operations, run by one thread, answer
    as on a list of nodes.
  \<^descr>[StdHeap] The heap algorithms of the C++ library on a vector, which implement the locale \<open>priority_vector\<close>.
  \<^descr>[TimeThread] \<^verbatim>\<open>common/time_thread.h\<close>, \<^verbatim>\<open>schedule/time_thread.cpp\<close>. The containers of the clients with their queues from
    \<open>LockFreeQueue\<close>, the pieces of \<^verbatim>\<open>loopOnce\<close> between accesses to shared state, and their interleaving with clients and
    \<^verbatim>\<open>destroy\<close>. An invariant of all runs gives that no task is lost, run twice, run early or run after it was cancelled, and that
    the loop does not oversleep; a pass without interference ends and runs what is due. One theorem says when a request to
    unschedule that was accepted is lost.

  \<^bold>\<open>How the model stands to the code.\<close> A struct or class is a record, an enumeration a datatype, a function of the code a
  definition that returns the state it changes. Integers keep their width where the code computes with them. \<^term>\<open>None\<close> as
  the result of an operation stands for a failing assertion, an access through a null or dangling pointer or outside an array,
  undefined arithmetic, or a loop that never ends; theorems that an operation is correct therefore also say that it returns.
  There is no fuel: loops are functions with a termination proof, or partial functions into \<^typ>\<open>'a option\<close> whose result is
  proved to be \<^term>\<open>Some\<close>.

  \<^bold>\<open>Assumptions.\<close> Hosts are little-endian with 64-bit pointers and a signed \<^verbatim>\<open>char\<close>. \<^verbatim>\<open>HTTP_PARSER_STRICT\<close> is 1, the
  default. Callbacks of the HTTP parser do not change the parser. The protobuf library is a parameter: a serialiser that appends
  the bytes of a message, a parser that reads a stream to its end and decodes its bytes. \<^verbatim>\<open>readv\<close> and \<^verbatim>\<open>writev\<close> are parameters that respect the lengths of
  their vectors, the hash function and the order of an \<^verbatim>\<open>unordered_map\<close> are parameters. Atomic accesses are sequentially
  consistent, fewer than 2^30 threads use one lock, and fewer than 2^64 elements go through one queue between two
  comparisons of its indices. Allocations succeed, except those of blocks, which may fail. The timer issues fewer than
  2^64 - 4096 ids and its clock does not go back; no client is inside one of its functions when its containers are deleted.

  \<^bold>\<open>Not modelled.\<close> Channels, sessions, sockets, the event loops and the thread pool are system calls and
  threads of the standard library around the parts above; end points format addresses with the C library; \<^verbatim>\<open>log.h\<close> and the
  bundled fmt library produce output only. The LRU cache and the hooked operations of the hash map that only it calls are
  left out, as are interleavings of the operations of the intrusive list, and \<^verbatim>\<open>dump()\<close> and
  \<^verbatim>\<open>weakBlock()\<close> of \<^verbatim>\<open>IOBuffer\<close>, which print and serve the unit tests.
\<close>

end
